(* ===== verification/Prelude.thy ===== *)
theory Prelude
  imports Main "HOL-Library.Word"
begin

text \<open>
  Shared vocabulary of the development: the machine integer types of the
  x86-64 build of iPXE, the error numbers its functions return (a C function
  that returns a negative errno is modelled by a value of type
  \<open>errno + 'a\<close>), and generic facts on words, lists and options that the
  component theories use.
\<close>

unbundle bit_operations_syntax

section \<open>Types\<close>

type_synonym u8 = "8 word"
type_synonym u16 = "16 word"
type_synonym u32 = "32 word"
type_synonym u64 = "64 word"

datatype errno =
    EINVAL
  | ENOMEM
  | ENOSPC
  | EOVERFLOW
  | ENOENT
  | EADDRINUSE
  | EPROTONOSUPPORT
  | EAFNOSUPPORT
  | ECONNRESET
  | ETIMEDOUT
  | ECANCELED
  | ENETUNREACH
  | ENOTCONN
  | ENOBUFS
  | ENXIO
  | ERANGE
  | ENOTSUP
  | ENOTTY
  | EACCES_VERIFY
  | EINVAL_ASN1_EMPTY
  | EINVAL_ASN1_LEN_LEN
  | EINVAL_ASN1_LEN
  | EINVAL_ASN1_BOOLEAN
  | EINVAL_ASN1_INTEGER
  | EINVAL_ASN1_TIME
  | EINVAL_ASN1_ALGORITHM
  | EINVAL_BIT_STRING
  | ENOTSUP_ALGORITHM
  | ENOTTY_ALGORITHM
  | ENEGATIVE

type_synonym 'a result = "errno + 'a"

section \<open>Rewrite rules\<close>

text \<open>\<open>word_nat\<close> moves a statement on words to the natural numbers they denote.\<close>

named_theorems word_nat

section \<open>Words as numbers\<close>

lemma unat_u8_less: "unat (x :: u8) < 256"
  using unsigned_less [of x, where ?'a = nat] by simp

lemma unat_u16_less: "unat (x :: u16) < 65536"
  using unsigned_less [of x, where ?'a = nat] by simp

lemma unat_u32_less: "unat (x :: u32) < 4294967296"
  using unsigned_less [of x, where ?'a = nat] by simp

lemma unat_u64_less: "unat (x :: u64) < 18446744073709551616"
  using unsigned_less [of x, where ?'a = nat] by simp

lemmas unat_bounds = unat_u8_less unat_u16_less unat_u32_less unat_u64_less

lemma unat_ucast_upcast:
  fixes x :: "'a::len word"
  assumes "LENGTH('a) \<le> LENGTH('b::len)"
  shows "unat (ucast x :: 'b word) = unat x"
proof -
  have "unat x < 2 ^ LENGTH('b)"
    by (rule less_le_trans [OF unsigned_less [of x, where ?'a = nat]]) (use assms in simp)
  then show ?thesis by (simp add: unsigned_ucast_eq take_bit_nat_eq_self)
qed

lemma unat_of_nat_u8: "unat (of_nat m :: u8) = m mod 256"
  and unat_of_nat_u16: "unat (of_nat m :: u16) = m mod 65536"
  and unat_of_nat_u32: "unat (of_nat m :: u32) = m mod 4294967296"
  and unat_of_nat_u64: "unat (of_nat m :: u64) = m mod 18446744073709551616"
  by (simp_all add: unat_of_nat)

lemma unat_ucast_mod: "unat (ucast x :: 'b::len word) = unat x mod 2 ^ LENGTH('b)"
  by (simp add: unsigned_ucast_eq take_bit_eq_mod)

lemma unat_add_mod:
  fixes a b :: "'a::len word"
  assumes "k \<le> LENGTH('a)"
  shows "unat (a + b) mod 2 ^ k = (unat a + unat b) mod 2 ^ k"
  using assms by (simp add: unat_word_ariths mod_mod_cancel le_imp_power_dvd)

lemma unat_Suc_less:
  "unat x < unat y \<Longrightarrow> unat (x + 1) = Suc (unat x)" for x y :: "'a::len word"
  using le_less_trans [OF Suc_leI unsigned_less [of y, where ?'a = nat], of "unat x"]
  by (simp add: unat_word_ariths)

lemma unat_and_mask [word_nat]:
  "unat (x AND mask k) = unat (x :: 'a::len word) mod 2 ^ k"
  by (simp only: unsigned_take_bit_eq take_bit_eq_mod [of k "unat x"] flip: take_bit_eq_mask)

lemma word_and_not_mask:
  "x AND NOT (mask k) = x - (x AND mask k)" for x :: "'a::len word"
proof -
  have "x AND NOT (mask k) = x AND NOT (x AND mask k)"
    by (rule bit_eqI) (auto simp: bit_simps)
  also have "\<dots> = x - (x AND mask k)"
    by (rule disjunctive_diff_eq_and_not [symmetric]) (rule bit_eqI, auto simp: bit_simps)
  finally show ?thesis .
qed

lemma unat_and_not_mask [word_nat]:
  "unat (x AND NOT (mask k)) = unat (x :: 'a::len word) - unat x mod 2 ^ k"
proof -
  have "x AND mask k \<le> x"
    by (simp add: word_le_nat_alt unat_and_mask)
  then show ?thesis
    by (simp add: word_and_not_mask unat_sub unat_and_mask)
qed

lemma unat_or_low:
  fixes x y :: "'a::len word"
  assumes "unat y < 2 ^ k"
  shows "unat ((x AND NOT (mask k)) OR y) = unat x - unat x mod 2 ^ k + unat y"
proof -
  let ?z = "(x AND NOT (mask k)) OR y"
  have y: "y = y AND mask k"
    using assms by (simp add: word_unat_eq_iff unat_and_mask)
  have "?z AND mask k = y AND mask k" and hi: "?z AND NOT (mask k) = x AND NOT (mask k)"
    by (subst y, rule bit_eqI, auto simp: bit_simps)+
  then have "unat ?z mod 2 ^ k = unat y"
    using y by (simp flip: unat_and_mask)
  moreover have "unat ?z - unat ?z mod 2 ^ k = unat x - unat x mod 2 ^ k"
    using hi by (simp flip: unat_and_not_mask)
  ultimately show ?thesis
    by (metis le_add_diff_inverse2 mod_less_eq_dividend)
qed

section \<open>Intervals\<close>

lemma disjoint_intervals:
  "{a..<b} \<inter> {c..<d} = {} \<Longrightarrow> a < b \<Longrightarrow> c < d \<Longrightarrow> b \<le> c \<or> d \<le> a" for a b c d :: nat
  by (metis IntI atLeastLessThan_iff emptyE leI le_cases le_refl)

section \<open>Least missing elements\<close>

lemma below_Least_notin: "m < (LEAST n. n \<notin> S) \<Longrightarrow> m \<in> S" for m :: nat
  using not_less_Least [of m "\<lambda>n. n \<notin> S"] by simp

lemma Least_notin_eq_iff:
  fixes L :: nat
  assumes "S \<subseteq> {..<L}"
  shows "(LEAST n. n \<notin> S) = L \<longleftrightarrow> S = {..<L}"
proof
  assume L: "(LEAST n. n \<notin> S) = L"
  have "m \<in> S" if "m < L" for m
    using that unfolding L [symmetric] by (rule below_Least_notin)
  with assms show "S = {..<L}" by blast
next
  assume "S = {..<L}"
  then show "(LEAST n. n \<notin> S) = L"
    by (intro Least_equality) (simp_all add: not_less)
qed

end
