(* ===== verification/Bitmap.thy ===== *)
theory Bitmap
  imports Prelude
begin

text \<open>
  The block bitmap of \<^verbatim>\<open>core/bitmap.c\<close>, which the multicast download protocols use
  to record which blocks of a file have arrived. A bitmap is an array of
  64-bit blocks with a length in bits and the index of the first gap. The
  memory that \<^verbatim>\<open>realloc()\<close> hands out is the parameter \<open>junk\<close>, its success the
  parameter \<open>mem_ok\<close>; a write outside the block array is the value \<open>None\<close>.
\<close>

section \<open>State\<close>

record bitmap =
  blocks :: "u64 list"
  bm_length :: u32
  first_gap :: u32

definition BITMAP_BLKSIZE :: nat where
  "BITMAP_BLKSIZE = 64"

definition BITMAP_INDEX :: "nat \<Rightarrow> nat" where
  "BITMAP_INDEX b = b div BITMAP_BLKSIZE"

definition BITMAP_MASK :: "nat \<Rightarrow> u64" where
  "BITMAP_MASK b = push_bit (b mod BITMAP_BLKSIZE) 1"

lemmas bitmap_macros = BITMAP_BLKSIZE_def BITMAP_INDEX_def BITMAP_MASK_def

section \<open>Operations\<close>

text \<open>
  \<open>zero_blocks bs i n\<close> is the loop that clears the blocks \<open>i..<n\<close>.
\<close>

definition num_blocks :: "u32 \<Rightarrow> nat" where
  "num_blocks len = BITMAP_INDEX (unat len + BITMAP_BLKSIZE - 1)"

definition zero_blocks :: "u64 list \<Rightarrow> nat \<Rightarrow> nat \<Rightarrow> u64 list" where
  "zero_blocks bs i n = fold (\<lambda>j bs. bs[j := 0]) [i..<n] bs"

definition realloc_blocks :: "(nat \<Rightarrow> u64) \<Rightarrow> u64 list \<Rightarrow> nat \<Rightarrow> u64 list" where
  "realloc_blocks junk bs n = take n bs @ map junk [length bs..<n]"

definition bitmap_resize ::
    "(nat \<Rightarrow> bool) \<Rightarrow> (nat \<Rightarrow> u64) \<Rightarrow> bitmap \<Rightarrow> u32 \<Rightarrow> bitmap result" where
  "bitmap_resize mem_ok junk bm new_length =
     (let old_num_blocks = num_blocks (bm_length bm);
          new_num_blocks = num_blocks new_length
      in if old_num_blocks \<noteq> new_num_blocks \<and> \<not> mem_ok (new_num_blocks * 8)
         then Inl ENOMEM
         else
           let new_blocks =
                 (if old_num_blocks \<noteq> new_num_blocks
                  then realloc_blocks junk (blocks bm) new_num_blocks
                  else blocks bm)
           in Inr (bm\<lparr>blocks := zero_blocks new_blocks old_num_blocks new_num_blocks,
                      bm_length := new_length\<rparr>))"

definition bitmap_test :: "bitmap \<Rightarrow> u32 \<Rightarrow> bool" where
  "bitmap_test bm b =
     (if bm_length bm \<le> b then False
      else blocks bm ! BITMAP_INDEX (unat b) AND BITMAP_MASK (unat b) \<noteq> 0)"

function advance_gap :: "bitmap \<Rightarrow> bitmap" where
  "advance_gap bm =
     (if bitmap_test bm (first_gap bm)
      then advance_gap (bm\<lparr>first_gap := first_gap bm + 1\<rparr>) else bm)"
  by pat_completeness auto

lemma bitmap_test_less: "bitmap_test bm b \<Longrightarrow> unat b < unat (bm_length bm)"
  by (auto simp: bitmap_test_def word_less_nat_alt not_le split: if_splits)

termination advance_gap
  by (relation "measure (\<lambda>bm. unat (bm_length bm) - unat (first_gap bm))")
     (auto dest!: bitmap_test_less simp: unat_Suc_less)

declare advance_gap.simps [simp del]

definition bitmap_set :: "bitmap \<Rightarrow> u32 \<Rightarrow> bitmap option" where
  "bitmap_set bm b =
     (let index = BITMAP_INDEX (unat b)
      in if length (blocks bm) \<le> index then None
         else Some (advance_gap
                (bm\<lparr>blocks := (blocks bm)[index := blocks bm ! index OR BITMAP_MASK (unat b)]\<rparr>)))"

definition bitmap_first_gap :: "bitmap \<Rightarrow> u32" where
  "bitmap_first_gap bm = first_gap bm"

definition bitmap_full :: "bitmap \<Rightarrow> bool" where
  "bitmap_full bm = (first_gap bm = bm_length bm)"

section \<open>Abstraction and invariant\<close>

text \<open>
  \<open>bits bm\<close> is the set of blocks recorded as received. The invariant says that
  the array has as many blocks as the length needs, that no bit beyond the
  length is set, and that \<open>first_gap\<close> is the least index not in the set.
\<close>

definition raw_bit :: "u64 list \<Rightarrow> nat \<Rightarrow> bool" where
  "raw_bit bs n = bit (bs ! (n div 64)) (n mod 64)"

definition bits :: "bitmap \<Rightarrow> nat set" where
  "bits bm = {n. n < unat (bm_length bm) \<and> raw_bit (blocks bm) n}"

definition blocks_wf :: "bitmap \<Rightarrow> bool" where
  "blocks_wf bm \<longleftrightarrow> length (blocks bm) = num_blocks (bm_length bm)
     \<and> (\<forall>n < 64 * length (blocks bm). unat (bm_length bm) \<le> n \<longrightarrow> \<not> raw_bit (blocks bm) n)"

definition bitmap_wf :: "bitmap \<Rightarrow> bool" where
  "bitmap_wf bm \<longleftrightarrow> blocks_wf bm \<and> unat (first_gap bm) = (LEAST n. n \<notin> bits bm)"

lemma num_blocks_eq: "num_blocks len = (unat len + 63) div 64"
  by (simp add: num_blocks_def bitmap_macros)

lemma num_blocks_cover: "n < unat len \<Longrightarrow> n div 64 < num_blocks len"
  by (simp add: num_blocks_eq)

lemma and_mask_bit: "(w AND BITMAP_MASK n \<noteq> 0) = bit w (n mod 64)" for w :: u64
proof -
  have "w AND BITMAP_MASK n = (if bit w (n mod 64) then BITMAP_MASK n else 0)"
    unfolding bitmap_macros by (rule bit_eqI) (auto simp: bit_simps)
  moreover have "bit (BITMAP_MASK n) (n mod 64)"
    unfolding bitmap_macros by (simp add: bit_simps)
  then have "BITMAP_MASK n \<noteq> 0" by auto
  ultimately show ?thesis by simp
qed

lemma bitmap_test_iff: "bitmap_test bm b \<longleftrightarrow> unat b \<in> bits bm"
  by (auto simp: bitmap_test_def bits_def raw_bit_def BITMAP_INDEX_def BITMAP_BLKSIZE_def
      and_mask_bit word_le_nat_alt)

lemma gap_le_length: "(LEAST n. n \<notin> bits bm) \<le> unat (bm_length bm)"
  by (rule Least_le) (simp add: bits_def)

section \<open>Properties\<close>

lemma advance_gap_frame [simp]:
  "blocks (advance_gap bm) = blocks bm" "bm_length (advance_gap bm) = bm_length bm"
  by (induction bm rule: advance_gap.induct; subst advance_gap.simps; simp)+

lemma bits_advance_gap [simp]: "bits (advance_gap bm) = bits bm"
  by (simp add: bits_def)

lemma advance_gap_least:
  "\<forall>n < unat (first_gap bm). n \<in> bits bm \<Longrightarrow>
   unat (first_gap (advance_gap bm)) = (LEAST n. n \<notin> bits bm)"
proof (induction bm rule: advance_gap.induct)
  case (1 bm)
  show ?case
  proof (cases "bitmap_test bm (first_gap bm)")
    case True
    let ?bm = "bm\<lparr>first_gap := first_gap bm + 1\<rparr>"
    have b: "bits ?bm = bits bm" by (simp add: bits_def)
    have "unat (first_gap bm + 1) = Suc (unat (first_gap bm))"
      using bitmap_test_less [OF True] by (rule unat_Suc_less)
    then have "\<forall>n < unat (first_gap ?bm). n \<in> bits ?bm"
      using 1 True by (auto simp: b less_Suc_eq bitmap_test_iff)
    then have "unat (first_gap (advance_gap ?bm)) = (LEAST n. n \<notin> bits ?bm)"
      by (rule "1.IH" [OF True])
    then show ?thesis by (simp add: advance_gap.simps [of bm] True b)
  next
    case False
    then have "(LEAST n. n \<notin> bits bm) = unat (first_gap bm)"
      using "1.prems" by (intro Least_equality) (auto simp: bitmap_test_iff not_less [symmetric])
    then show ?thesis by (simp add: advance_gap.simps [of bm] False)
  qed
qed

lemma raw_bit_set:
  "k div 64 < length bs \<Longrightarrow>
   raw_bit (bs[k div 64 := bs ! (k div 64) OR BITMAP_MASK k]) n \<longleftrightarrow> n = k \<or> raw_bit bs n"
  unfolding raw_bit_def bitmap_macros
  by (auto simp: nth_list_update bit_simps) (metis div_mult_mod_eq)

lemma zero_blocks_length [simp]: "length (zero_blocks bs i n) = length bs"
  unfolding zero_blocks_def by (induction n) auto

lemma zero_blocks_nth:
  "j < length bs \<Longrightarrow> zero_blocks bs i n ! j = (if i \<le> j \<and> j < n then 0 else bs ! j)"
proof (induction n)
  case 0
  then show ?case by (simp add: zero_blocks_def)
next
  case (Suc n)
  show ?case
  proof (cases "i \<le> n")
    case True
    then have "zero_blocks bs i (Suc n) = (zero_blocks bs i n)[n := 0]"
      by (simp add: zero_blocks_def)
    with Suc True show ?thesis by (auto simp: nth_list_update less_Suc_eq)
  next
    case False
    with Suc show ?thesis by (auto simp: zero_blocks_def)
  qed
qed

text \<open>
  C20: recording a block in a well-formed bitmap never writes outside the block
  array, adds exactly that block to the set of received blocks, keeps the
  length, and moves \<open>first_gap\<close> to the least block still missing.
\<close>

theorem bitmap_set_correct:
  assumes wf: "bitmap_wf bm" and b: "unat b < unat (bm_length bm)"
  shows "\<exists>bm'. bitmap_set bm b = Some bm' \<and> bitmap_wf bm' \<and> bm_length bm' = bm_length bm
           \<and> bits bm' = insert (unat b) (bits bm)
           \<and> unat (bitmap_first_gap bm') = (LEAST n. n \<notin> insert (unat b) (bits bm))"
proof -
  let ?i = "unat b div 64"
  let ?bm = "bm\<lparr>blocks := (blocks bm)[?i := blocks bm ! ?i OR BITMAP_MASK (unat b)]\<rparr>"
  have i: "?i < length (blocks bm)"
    using wf num_blocks_cover [OF b] by (simp add: bitmap_wf_def blocks_wf_def)
  have bits: "bits ?bm = insert (unat b) (bits bm)"
    using b raw_bit_set [OF i] by (auto simp: bits_def)
  have "blocks_wf ?bm"
    using wf b raw_bit_set [OF i] by (auto simp: bitmap_wf_def blocks_wf_def)
  then have bwf: "blocks_wf (advance_gap ?bm)" by (simp add: blocks_wf_def)
  have "\<forall>n < unat (first_gap ?bm). n \<in> bits ?bm"
    using wf by (auto simp: bits bitmap_wf_def intro: below_Least_notin)
  then have gap: "unat (first_gap (advance_gap ?bm)) = (LEAST n. n \<notin> bits ?bm)"
    by (rule advance_gap_least)
  have bits': "bits (advance_gap ?bm) = insert (unat b) (bits bm)"
    by (simp only: bits_advance_gap bits)
  show ?thesis
  proof (intro exI conjI)
    show "bitmap_set bm b = Some (advance_gap ?bm)"
      using i by (simp add: bitmap_set_def BITMAP_INDEX_def BITMAP_BLKSIZE_def Let_def)
    show "bitmap_wf (advance_gap ?bm)"
      unfolding bitmap_wf_def bits' using bwf gap [unfolded bits] by (rule conjI)
    show "bm_length (advance_gap ?bm) = bm_length bm" by simp
    show "bits (advance_gap ?bm) = insert (unat b) (bits bm)" by (rule bits')
    show "unat (bitmap_first_gap (advance_gap ?bm)) = (LEAST n. n \<notin> insert (unat b) (bits bm))"
      unfolding bitmap_first_gap_def by (rule gap [unfolded bits])
  qed
qed

definition bitmap_example :: bitmap where
  "bitmap_example = \<lparr>blocks = [0], bm_length = 4, first_gap = 0\<rparr>"

lemma bits_example: "bits bitmap_example = {}"
  by (auto simp: bits_def raw_bit_def bitmap_example_def)

lemma bitmap_example_wf: "bitmap_wf bitmap_example"
  using bits_example
  by (auto simp: bitmap_wf_def blocks_wf_def bitmap_example_def num_blocks_eq raw_bit_def)

theorem bitmap_set_correct_witness:
  "\<exists>bm'. bitmap_set bitmap_example 2 = Some bm' \<and> bitmap_wf bm' \<and> bits bm' = {2}"
proof -
  have "unat (2 :: u32) < unat (bm_length bitmap_example)" by (simp add: bitmap_example_def)
  from bitmap_set_correct [OF bitmap_example_wf this] show ?thesis
    by (auto simp: bits_example)
qed

text \<open>
  C27: extending a bitmap keeps the invariant and the set of received blocks,
  whatever the memory returned by \<^verbatim>\<open>realloc()\<close> holds; the only failure is
  \<open>ENOMEM\<close>, and only when the number of blocks changes and \<^verbatim>\<open>realloc()\<close> fails.
\<close>

theorem bitmap_resize_extends:
  assumes wf: "bitmap_wf bm" and grow: "unat (bm_length bm) \<le> unat new_length"
  shows "case bitmap_resize mem_ok junk bm new_length of
      Inl e \<Rightarrow> e = ENOMEM \<and> num_blocks (bm_length bm) \<noteq> num_blocks new_length
                \<and> \<not> mem_ok (num_blocks new_length * 8)
    | Inr bm' \<Rightarrow> bitmap_wf bm' \<and> bm_length bm' = new_length \<and> bits bm' = bits bm"
proof (cases "bitmap_resize mem_ok junk bm new_length")
  case (Inl e)
  then show ?thesis by (auto simp: bitmap_resize_def Let_def split: if_splits)
next
  case (Inr bm')
  let ?o = "num_blocks (bm_length bm)" and ?n = "num_blocks new_length"
  have le: "?o \<le> ?n" using grow by (simp add: num_blocks_eq div_le_mono)
  have len: "length (blocks bm) = ?o"
    using wf by (simp add: bitmap_wf_def blocks_wf_def)
  have bm': "length (blocks bm') = ?n" "bm_length bm' = new_length" "first_gap bm' = first_gap bm"
    "\<And>j. j < ?n \<Longrightarrow> blocks bm' ! j = (if j < ?o then blocks bm ! j else 0)"
    using Inr le len
    by (auto simp: bitmap_resize_def Let_def realloc_blocks_def zero_blocks_nth nth_append
        split: if_splits)
  have cover: "unat len \<le> 64 * num_blocks len" for len
    by (simp add: num_blocks_eq)
  have raw: "raw_bit (blocks bm') n \<longleftrightarrow> n < unat (bm_length bm) \<and> raw_bit (blocks bm) n"
    if n: "n < 64 * ?n" for n
  proof (cases "n < 64 * ?o")
    case True
    then have "n div 64 < ?o" by (simp add: less_mult_imp_div_less mult.commute)
    then have "raw_bit (blocks bm') n = raw_bit (blocks bm) n"
      using bm'(4) [of "n div 64"] le by (simp add: raw_bit_def)
    moreover have "n < unat (bm_length bm)" if "raw_bit (blocks bm) n"
      using wf True that by (force simp: bitmap_wf_def blocks_wf_def len)
    ultimately show ?thesis by blast
  next
    case False
    then have "\<not> n div 64 < ?o" "n div 64 < ?n"
      using n by (simp_all add: less_mult_imp_div_less div_less_iff_less_mult mult.commute)
    then have "\<not> raw_bit (blocks bm') n"
      using bm'(4) [of "n div 64"] by (simp add: raw_bit_def)
    then show ?thesis using False cover [of "bm_length bm"] by simp
  qed
  have "n \<in> bits bm' \<longleftrightarrow> n \<in> bits bm" for n
    using raw [of n] cover [of new_length] grow by (auto simp: bits_def bm')
  then have bits: "bits bm' = bits bm" by blast
  have "\<not> raw_bit (blocks bm') n" if "n < 64 * ?n" "unat new_length \<le> n" for n
    using raw [OF that(1)] that(2) grow by simp
  then have "blocks_wf bm'" by (simp add: blocks_wf_def bm')
  then have "bitmap_wf bm'" using wf by (simp add: bitmap_wf_def bits bm'(3))
  then show ?thesis by (simp add: Inr bits bm')
qed

theorem bitmap_resize_extends_witness:
  "case bitmap_resize (\<lambda>_. True) (\<lambda>_. 7) bitmap_example 100 of
      Inl e \<Rightarrow> False | Inr bm' \<Rightarrow> bitmap_wf bm' \<and> bm_length bm' = 100 \<and> bits bm' = {}"
proof -
  have "unat (bm_length bitmap_example) \<le> unat (100 :: u32)" by (simp add: bitmap_example_def)
  from bitmap_resize_extends [OF bitmap_example_wf this, of "\<lambda>_. True" "\<lambda>_. 7"]
  show ?thesis by (auto simp: bits_example split: sum.splits)
qed

text \<open>
  A well-formed bitmap reports itself full exactly when every block below
  its length has been received.
\<close>

lemma bitmap_full_iff:
  assumes "bitmap_wf bm"
  shows "bitmap_full bm \<longleftrightarrow> bits bm = {..<unat (bm_length bm)}"
proof -
  have "bits bm \<subseteq> {..<unat (bm_length bm)}" by (auto simp: bits_def)
  from Least_notin_eq_iff [OF this] show ?thesis
    using assms by (simp add: bitmap_wf_def bitmap_full_def word_unat_eq_iff)
qed

end
