(* ===== verification/Heap.thy ===== *)
theory Heap
  imports Prelude
begin

text \<open>
  The memory allocator of \<^verbatim>\<open>core/malloc.c\<close>, for the x86-64 build: a list of free
  blocks in ascending address order, first-fit allocation with a physical
  alignment, and freeing with merging of adjacent blocks. The size and list
  fields that the code keeps inside the free memory itself are the elements of
  the list \<open>free_blocks\<close>; the size header of a block handed out by \<^verbatim>\<open>malloc()\<close> is
  \<open>hdr\<close>, the bytes of the data regions are \<open>store\<close>. The caches that
  \<^verbatim>\<open>discard_cache()\<close> may shrink belong to other components: the state record is
  extensible, and the registered discarders are a parameter.
\<close>

section \<open>State\<close>

record memory_block =
  mb_addr :: u64
  mb_size :: u64

record heap =
  free_blocks :: "memory_block list"
  freemem :: u64
  usedmem :: u64
  maxusedmem :: u64
  hdr :: "u64 \<Rightarrow> u64"
  store :: "u64 \<Rightarrow> u8"

text \<open>
  \<^verbatim>\<open>sizeof ( struct memory_block )\<close> is 32 on this target (a \<^verbatim>\<open>size_t\<close>, the
  padding over the reference count, two list pointers), which makes the
  minimum block size, the next power of two, 32 as well.
\<close>

definition SIZEOF_MEMORY_BLOCK :: u64 where
  "SIZEOF_MEMORY_BLOCK = 32"

definition MIN_MEMBLOCK_SIZE :: u64 where
  "MIN_MEMBLOCK_SIZE = 32"

definition NOWHERE :: u64 where
  "NOWHERE = NOT 0"

definition NULL :: u64 where
  "NULL = 0"

definition virt_to_phys :: "u64 \<Rightarrow> u64 \<Rightarrow> u64" where
  "virt_to_phys virt_offset a = (if a \<le> 0xffffffff then a else a + virt_offset)"

section \<open>Operations\<close>

text \<open>The conditions that \<^verbatim>\<open>check_blocks()\<close> asserts of the free list.\<close>

fun check_blocks_from :: "memory_block option \<Rightarrow> memory_block list \<Rightarrow> bool" where
  "check_blocks_from prev [] = True"
| "check_blocks_from prev (b # bs) =
     (SIZEOF_MEMORY_BLOCK \<le> mb_size b \<and> MIN_MEMBLOCK_SIZE \<le> mb_size b
      \<and> mb_addr b < mb_addr b + mb_size b
      \<and> (case prev of None \<Rightarrow> True
         | Some p \<Rightarrow> mb_addr p < mb_addr b \<and> mb_addr p + mb_size p < mb_addr b)
      \<and> check_blocks_from (Some b) bs)"

definition check_blocks :: "'a heap_scheme \<Rightarrow> bool" where
  "check_blocks h = check_blocks_from None (free_blocks h)"

type_synonym 'a discarder = "'a heap_scheme \<Rightarrow> 'a heap_scheme \<times> nat"

fun discard_cache :: "'a discarder list \<Rightarrow> 'a heap_scheme \<Rightarrow> 'a heap_scheme \<times> nat" where
  "discard_cache [] h = (h, 0)"
| "discard_cache (d # ds) h =
     (let (h', discarded) = d h
      in if discarded \<noteq> 0 then (h', discarded) else discard_cache ds h')"

partial_function (option) discard_all_cache ::
    "'a discarder list \<Rightarrow> 'a heap_scheme \<Rightarrow> 'a heap_scheme option" where
  "discard_all_cache ds h =
     (let (h', discarded) = discard_cache ds h
      in if discarded \<noteq> 0 then discard_all_cache ds h' else Some h')"

declare discard_all_cache.simps [code]

definition actual_size :: "u64 \<Rightarrow> u64" where
  "actual_size n = (n + MIN_MEMBLOCK_SIZE - 1) AND NOT (MIN_MEMBLOCK_SIZE - 1)"

definition align_mask :: "u64 \<Rightarrow> u64" where
  "align_mask align = (align - 1) OR (MIN_MEMBLOCK_SIZE - 1)"

text \<open>
  One pass of the search: the first block with room for the aligned request is
  split into a leading block, the allocation and a trailing block; leading and
  trailing blocks below the minimum size are dropped from the list.
\<close>

fun alloc_scan ::
    "u64 \<Rightarrow> u64 \<Rightarrow> u64 \<Rightarrow> u64 \<Rightarrow> memory_block list \<Rightarrow> (memory_block list \<times> u64) option" where
  "alloc_scan virt_offset asize amask offset [] = None"
| "alloc_scan virt_offset asize amask offset (b # bs) =
     (let pre_size = (offset - virt_to_phys virt_offset (mb_addr b)) AND amask
      in if mb_size b < pre_size \<or> mb_size b - pre_size < asize
         then map_option (\<lambda>(bs', p). (b # bs', p)) (alloc_scan virt_offset asize amask offset bs)
         else
           let post_size = mb_size b - pre_size - asize;
               ptr = mb_addr b + pre_size;
               post = ptr + asize;
               pre_list = (if pre_size < MIN_MEMBLOCK_SIZE then [] else [b\<lparr>mb_size := pre_size\<rparr>]);
               post_list = (if MIN_MEMBLOCK_SIZE \<le> post_size
                            then [\<lparr>mb_addr = post, mb_size = post_size\<rparr>] else [])
           in Some (pre_list @ post_list @ bs, ptr))"

partial_function (option) alloc_loop ::
    "'a discarder list \<Rightarrow> u64 \<Rightarrow> u64 \<Rightarrow> u64 \<Rightarrow> u64 \<Rightarrow> 'a heap_scheme \<Rightarrow> ('a heap_scheme \<times> u64) option" where
  "alloc_loop ds virt_offset asize amask offset h =
     (case alloc_scan virt_offset asize amask offset (free_blocks h) of
        Some (bs, ptr) \<Rightarrow>
          let used = usedmem h + asize
          in Some (h\<lparr>free_blocks := bs, freemem := freemem h - asize, usedmem := used,
                     maxusedmem := (if maxusedmem h < used then used else maxusedmem h)\<rparr>, ptr)
      | None \<Rightarrow>
          let (h', discarded) = discard_cache ds h
          in if discarded = 0 then Some (h', NULL)
             else alloc_loop ds virt_offset asize amask offset h')"

declare alloc_loop.simps [code]

definition alloc_memblock ::
    "'a discarder list \<Rightarrow> u64 \<Rightarrow> u64 \<Rightarrow> u64 \<Rightarrow> u64 \<Rightarrow> 'a heap_scheme \<Rightarrow> ('a heap_scheme \<times> u64) option" where
  "alloc_memblock ds virt_offset n align offset h =
     (if actual_size n = 0 then Some (h, NULL)
      else alloc_loop ds virt_offset (actual_size n) (align_mask align) offset h)"

text \<open>
  The insertion loop of \<^verbatim>\<open>free_memblock()\<close>. The two gaps are signed differences of
  pointers. A block that ends where the freed block starts is taken off the
  list and absorbs it; the scan stops at the first block above the freed one,
  which is absorbed in turn when there is no gap.
\<close>

definition gap_before :: "memory_block \<Rightarrow> memory_block \<Rightarrow> int" where
  "gap_before f b = sint (mb_addr f - (mb_addr b + mb_size b))"

definition gap_after :: "memory_block \<Rightarrow> memory_block \<Rightarrow> int" where
  "gap_after f b = sint (mb_addr b - (mb_addr f + mb_size f))"

fun free_insert :: "u64 \<Rightarrow> memory_block \<Rightarrow> memory_block list \<Rightarrow> memory_block list" where
  "free_insert asize f [] = [f]"
| "free_insert asize f (b # bs) =
     (if gap_before f b = 0
      then free_insert asize (b\<lparr>mb_size := mb_size b + asize\<rparr>) bs
      else if gap_after f b = 0 then f\<lparr>mb_size := mb_size f + mb_size b\<rparr> # bs
      else if 0 \<le> gap_after f b then f # b # bs
      else b # free_insert asize f bs)"

definition free_memblock :: "u64 \<Rightarrow> u64 \<Rightarrow> 'a heap_scheme \<Rightarrow> 'a heap_scheme" where
  "free_memblock ptr n h =
     (if ptr = NULL then h
      else let asize = actual_size n
           in h\<lparr>free_blocks := free_insert asize \<lparr>mb_addr = ptr, mb_size = asize\<rparr> (free_blocks h),
                freemem := freemem h + asize,
                usedmem := usedmem h - asize\<rparr>)"

text \<open>
  The size header of an \<^verbatim>\<open>autosized_block\<close> takes eight bytes before the data.
\<close>

definition DATA_OFFSET :: u64 where
  "DATA_OFFSET = 8"

definition memcpy :: "u64 \<Rightarrow> u64 \<Rightarrow> u64 \<Rightarrow> (u64 \<Rightarrow> u8) \<Rightarrow> (u64 \<Rightarrow> u8)" where
  "memcpy dest src n m = (\<lambda>a. if a - dest < n then m (src + (a - dest)) else m a)"

definition memset :: "u64 \<Rightarrow> u8 \<Rightarrow> u64 \<Rightarrow> (u64 \<Rightarrow> u8) \<Rightarrow> (u64 \<Rightarrow> u8)" where
  "memset dest c n m = (\<lambda>a. if a - dest < n then c else m a)"

text \<open>The second half of \<^verbatim>\<open>realloc()\<close>: copy and free the old block, if there is one.\<close>

definition realloc_finish :: "u64 \<Rightarrow> u64 \<Rightarrow> u64 \<Rightarrow> 'a heap_scheme \<Rightarrow> 'a heap_scheme" where
  "realloc_finish old_ptr new_size new_ptr h =
     (if old_ptr \<noteq> NULL \<and> old_ptr \<noteq> NOWHERE
      then let old_block = old_ptr - DATA_OFFSET;
               old_total_size = hdr h old_block;
               old_size = old_total_size - DATA_OFFSET;
               h' = h\<lparr>store := memcpy new_ptr old_ptr
                        (if old_size < new_size then old_size else new_size) (store h)\<rparr>
           in free_memblock old_block old_total_size h'
      else h)"

definition realloc ::
    "'a discarder list \<Rightarrow> u64 \<Rightarrow> u64 \<Rightarrow> u64 \<Rightarrow> 'a heap_scheme \<Rightarrow> ('a heap_scheme \<times> u64) option" where
  "realloc ds virt_offset old_ptr new_size h =
     (if new_size \<noteq> 0 then
        let new_total_size = new_size + DATA_OFFSET
        in if new_total_size < new_size then Some (h, NULL)
           else case alloc_memblock ds virt_offset new_total_size 1 0 h of
               None \<Rightarrow> None
             | Some (h1, new_block) \<Rightarrow>
                 if new_block = NULL then Some (h1, NULL)
                 else let h2 = h1\<lparr>hdr := (hdr h1)(new_block := new_total_size)\<rparr>;
                          new_ptr = new_block + DATA_OFFSET
                      in Some (realloc_finish old_ptr new_size new_ptr h2, new_ptr)
      else Some (realloc_finish old_ptr new_size NOWHERE h, NOWHERE))"

definition malloc ::
    "'a discarder list \<Rightarrow> u64 \<Rightarrow> u64 \<Rightarrow> 'a heap_scheme \<Rightarrow> ('a heap_scheme \<times> u64) option" where
  "malloc ds virt_offset n h = realloc ds virt_offset NULL n h"

definition free :: "'a discarder list \<Rightarrow> u64 \<Rightarrow> u64 \<Rightarrow> 'a heap_scheme \<Rightarrow> 'a heap_scheme option" where
  "free ds virt_offset ptr h = map_option fst (realloc ds virt_offset ptr 0 h)"

definition zalloc ::
    "'a discarder list \<Rightarrow> u64 \<Rightarrow> u64 \<Rightarrow> 'a heap_scheme \<Rightarrow> ('a heap_scheme \<times> u64) option" where
  "zalloc ds virt_offset n h =
     (case malloc ds virt_offset n h of
        None \<Rightarrow> None
      | Some (h', data) \<Rightarrow>
          Some (if data \<noteq> NULL then h'\<lparr>store := memset data 0 n (store h')\<rparr> else h', data))"

definition mpopulate :: "u64 \<Rightarrow> u64 \<Rightarrow> 'a heap_scheme \<Rightarrow> 'a heap_scheme" where
  "mpopulate start len h =
     (let len' = len AND NOT (MIN_MEMBLOCK_SIZE - 1);
          h' = free_memblock start len' h
      in h'\<lparr>usedmem := usedmem h' + len'\<rparr>)"

definition HEAP_SIZE :: u64 where
  "HEAP_SIZE = 512 * 1024"

definition init_heap :: "u64 \<Rightarrow> 'a heap_scheme \<Rightarrow> 'a heap_scheme" where
  "init_heap heap_addr h = mpopulate heap_addr HEAP_SIZE h"

section \<open>Address ranges\<close>

definition lo :: "memory_block \<Rightarrow> nat" where
  "lo b = unat (mb_addr b)"

definition hi :: "memory_block \<Rightarrow> nat" where
  "hi b = unat (mb_addr b) + unat (mb_size b)"

definition free_bytes :: "memory_block list \<Rightarrow> nat set" where
  "free_bytes bs = (\<Union>b \<in> set bs. {lo b..<hi b})"

text \<open>
  \<open>heap_wf\<close> is what \<^verbatim>\<open>check_blocks()\<close> asserts, for a heap that does not contain
  address zero and lies in the lower half of the address space. \<open>chain\<close> is the
  same fact on natural numbers.
\<close>

definition heap_wf :: "'a heap_scheme \<Rightarrow> bool" where
  "heap_wf h \<longleftrightarrow> check_blocks h \<and> (\<forall>b \<in> set (free_blocks h). 0 < lo b \<and> hi b < 2 ^ 63)"

fun chain :: "nat \<Rightarrow> memory_block list \<Rightarrow> bool" where
  "chain l [] = True"
| "chain l (b # bs) = (l < lo b \<and> lo b + 32 \<le> hi b \<and> hi b < 2 ^ 63 \<and> chain (hi b) bs)"

lemmas heap_consts = SIZEOF_MEMORY_BLOCK_def MIN_MEMBLOCK_SIZE_def NULL_def NOWHERE_def DATA_OFFSET_def

lemma unat_end: "hi b < 2 ^ 63 \<Longrightarrow> unat (mb_addr b + mb_size b) = hi b"
  by (simp add: hi_def unat_word_ariths)

lemma check_blocks_from_chain:
  assumes "hi p < 2 ^ 63" "lo p \<le> hi p"
  shows "check_blocks_from (Some p) bs \<and> (\<forall>b \<in> set bs. 0 < lo b \<and> hi b < 2 ^ 63) \<longleftrightarrow> chain (hi p) bs"
  using assms
proof (induction bs arbitrary: p)
  case (Cons b bs)
  show ?case
  proof (cases "hi b < 2 ^ 63")
    case True
    have "lo b \<le> hi b" by (simp add: lo_def hi_def)
    note IH = Cons.IH [OF True this]
    have "SIZEOF_MEMORY_BLOCK \<le> mb_size b \<and> MIN_MEMBLOCK_SIZE \<le> mb_size b
      \<and> mb_addr b < mb_addr b + mb_size b
      \<and> mb_addr p < mb_addr b \<and> mb_addr p + mb_size p < mb_addr b
      \<longleftrightarrow> hi p < lo b \<and> lo b + 32 \<le> hi b"
      using Cons.prems unat_end [OF True] unat_end [OF Cons.prems(1)]
      by (auto simp: heap_consts word_le_nat_alt word_less_nat_alt) (auto simp: lo_def hi_def)
    then show ?thesis using IH True Cons.prems by auto
  qed simp
qed simp

lemma heap_wf_chain: "heap_wf h \<longleftrightarrow> chain 0 (free_blocks h)"
proof (cases "free_blocks h")
  case (Cons b bs)
  show ?thesis
  proof (cases "hi b < 2 ^ 63")
    case True
    have "lo b \<le> hi b" by (simp add: lo_def hi_def)
    note IH = check_blocks_from_chain [OF True this, of bs]
    have "SIZEOF_MEMORY_BLOCK \<le> mb_size b \<and> MIN_MEMBLOCK_SIZE \<le> mb_size b
      \<and> mb_addr b < mb_addr b + mb_size b \<longleftrightarrow> lo b + 32 \<le> hi b"
      using unat_end [OF True]
      by (auto simp: heap_consts word_le_nat_alt word_less_nat_alt) (auto simp: lo_def hi_def)
    then show ?thesis using IH True by (auto simp: heap_wf_def check_blocks_def Cons)
  qed (simp add: heap_wf_def Cons)
qed (simp add: heap_wf_def check_blocks_def)

section \<open>The free list as a set of addresses\<close>

lemma free_bytes_simps [simp]:
  "free_bytes [] = {}"
  "free_bytes (b # bs) = {lo b..<hi b} \<union> free_bytes bs"
  "free_bytes (bs @ cs) = free_bytes bs \<union> free_bytes cs"
  by (auto simp: free_bytes_def)

lemma free_bytes_block: "b \<in> set bs \<Longrightarrow> {lo b..<hi b} \<subseteq> free_bytes bs"
  by (auto simp: free_bytes_def)

lemma chain_weaken: "chain l bs \<Longrightarrow> k \<le> l \<Longrightarrow> chain k bs"
  by (cases bs) auto

lemma chain_above: "chain l bs \<Longrightarrow> x \<in> free_bytes bs \<Longrightarrow> l < x \<and> x < 2 ^ 63"
  by (induction bs arbitrary: l) force+

lemma chain_block: "chain l bs \<Longrightarrow> b \<in> set bs \<Longrightarrow> l < lo b \<and> lo b + 32 \<le> hi b \<and> hi b < 2 ^ 63"
  by (induction bs arbitrary: l) force+

lemma chain_hi_notin: "chain l bs \<Longrightarrow> k \<le> l \<Longrightarrow> k \<notin> free_bytes bs"
  using chain_above by fastforce

lemma chain_tail_bytes:
  "chain (hi b) bs \<Longrightarrow> free_bytes bs = ({lo b..<hi b} \<union> free_bytes bs) - {..<hi b}"
  using chain_above by fastforce

text \<open>A well-formed list is determined by the addresses it covers.\<close>

lemma chain_canonical:
  "chain l bs \<Longrightarrow> chain k cs \<Longrightarrow> free_bytes bs = free_bytes cs \<Longrightarrow> bs = cs"
proof (induction bs arbitrary: l k cs)
  case Nil
  then show ?case by (cases cs) auto
next
  case (Cons b bs)
  then obtain c cs' where cs: "cs = c # cs'" by (cases cs) auto
  have nb: "chain (hi b) bs" "lo b < hi b" and nc: "chain (hi c) cs'" "lo c < hi c"
    using Cons.prems cs by auto
  have eq: "{lo b..<hi b} \<union> free_bytes bs = {lo c..<hi c} \<union> free_bytes cs'"
    using Cons.prems cs by simp
  have mem: "lo b \<in> {lo c..<hi c} \<union> free_bytes cs'" "lo c \<in> {lo b..<hi b} \<union> free_bytes bs"
    unfolding eq [symmetric] using nb by simp (unfold eq, use nc in simp)
  have "lo c \<le> lo b" using mem(1) nc chain_above [OF nc(1)] by fastforce
  moreover have "lo b \<le> lo c" using mem(2) nb chain_above [OF nb(1)] by fastforce
  ultimately have lo: "lo b = lo c" by simp
  have "hi b \<notin> {lo c..<hi c} \<union> free_bytes cs'"
    unfolding eq [symmetric] using nb chain_hi_notin [OF nb(1)] by simp
  moreover have "hi c \<notin> {lo b..<hi b} \<union> free_bytes bs"
    unfolding eq using nc chain_hi_notin [OF nc(1)] by simp
  ultimately have hi: "hi b = hi c" using lo nb nc by auto
  have "b = c"
    using lo hi by (intro memory_block.equality) (simp_all add: lo_def hi_def word_unat_eq_iff)
  moreover have "free_bytes bs = free_bytes cs'"
    using chain_tail_bytes [OF nb(1)] chain_tail_bytes [OF nc(1)] eq hi by simp
  then have "bs = cs'" using Cons.IH nb nc by blast
  ultimately show ?case using cs by simp
qed

section \<open>Sizes and alignment\<close>

lemma min_memblock_mask: "MIN_MEMBLOCK_SIZE - 1 = mask 5"
  by (simp add: MIN_MEMBLOCK_SIZE_def mask_eq_exp_minus_1)

lemma unat_actual_size:
  "unat (actual_size n) = (if unat n + 31 < 2 ^ 64 then unat n + 31 - (unat n + 31) mod 32 else 0)"
proof -
  have n: "n + MIN_MEMBLOCK_SIZE - 1 = n + 31" by (simp add: MIN_MEMBLOCK_SIZE_def)
  have a: "unat (actual_size n) = unat (n + 31) - unat (n + 31) mod 32"
    unfolding actual_size_def n min_memblock_mask unat_and_not_mask by simp
  show ?thesis
  proof (cases "unat n + 31 < 2 ^ 64")
    case True
    then have "unat (n + 31) = unat n + 31" by (simp add: unat_word_ariths)
    with a True show ?thesis by simp
  next
    case False
    then have "unat (n + 31) = unat n + 31 - 2 ^ 64"
      by (simp add: unat_plus_if')
    moreover have "unat n + 31 - 2 ^ 64 < 32" using unat_u64_less [of n] by simp
    ultimately show ?thesis using a False by simp
  qed
qed

lemma actual_size_cases:
  assumes "actual_size n \<noteq> 0"
  shows "0 < unat n" "unat n \<le> unat (actual_size n)" "unat (actual_size n) < unat n + 32"
    "32 dvd unat (actual_size n)" "32 \<le> unat (actual_size n)"
proof -
  have "unat (actual_size n) \<noteq> 0" using assms by (simp add: unat_eq_0)
  then have c: "unat n + 31 < 2 ^ 64" "unat (actual_size n) = unat n + 31 - (unat n + 31) mod 32"
    by (auto simp: unat_actual_size split: if_splits)
  show *: "32 dvd unat (actual_size n)" unfolding c(2) by (rule dvd_minus_mod)
  show "unat n \<le> unat (actual_size n)" "unat (actual_size n) < unat n + 32"
    unfolding c(2) using mod_less_divisor [of 32 "unat n + 31"] by linarith+
  show "32 \<le> unat (actual_size n)" using * \<open>unat (actual_size n) \<noteq> 0\<close> by (auto dest: dvd_imp_le)
  show "0 < unat n" using c(2) \<open>unat (actual_size n) \<noteq> 0\<close> by (cases "unat n") auto
qed

lemma sint_diff:
  fixes x y :: u64
  assumes "unat x < 2 ^ 63" "unat y < 2 ^ 63"
  shows "sint (x - y) = int (unat x) - int (unat y)"
proof -
  have "int (unat x) < int (2 ^ 63)" "int (unat y) < int (2 ^ 63)"
    using assms by (simp_all only: of_nat_less_iff)
  then have "uint x < 2 ^ 63" "uint y < 2 ^ 63" by simp_all
  then have "- (2 ^ 63) \<le> uint x - uint y" "uint x - uint y < 2 ^ 63"
    using uint_ge_0 [of x] uint_ge_0 [of y] by linarith+
  then have "sint (word_of_int (uint x - uint y) :: u64) = uint x - uint y"
    unfolding sint_sbintrunc' by (intro signed_take_bit_int_eq_self) simp_all
  then have "sint (x - y) = uint x - uint y" by simp
  then show ?thesis by simp
qed

lemma gaps:
  assumes "hi f < 2 ^ 63" "hi b < 2 ^ 63"
  shows "gap_before f b = int (lo f) - int (hi b)" "gap_after f b = int (lo b) - int (hi f)"
proof -
  have "lo f < 2 ^ 63" "lo b < 2 ^ 63" using assms by (auto simp: lo_def hi_def)
  then show "gap_before f b = int (lo f) - int (hi b)" "gap_after f b = int (lo b) - int (hi f)"
    using assms unat_end [OF assms(1)] unat_end [OF assms(2)]
    by (simp_all add: gap_before_def gap_after_def sint_diff lo_def)
qed

section \<open>Freeing\<close>

lemma free_insert_above:
  assumes "chain k bs" "l < lo f" "lo f + 32 \<le> hi f" "hi f < 2 ^ 63" "\<forall>b \<in> set bs. hi f \<le> lo b"
  shows "chain l (free_insert asize f bs)
       \<and> free_bytes (free_insert asize f bs) = {lo f..<hi f} \<union> free_bytes bs"
proof (cases bs)
  case Nil
  with assms show ?thesis by simp
next
  case (Cons b bs')
  then have b: "hi b < 2 ^ 63" "hi f \<le> lo b" "lo b + 32 \<le> hi b" "chain (hi b) bs'"
    using assms by auto
  have nb: "gap_before f b \<noteq> 0" and na: "gap_after f b = int (lo b) - int (hi f)"
    using gaps [OF assms(4) b(1)] assms b by auto
  show ?thesis
  proof (cases "hi f = lo b")
    case True
    let ?f = "f\<lparr>mb_size := mb_size f + mb_size b\<rparr>"
    have "lo ?f = lo f" by (simp add: lo_def)
    moreover have "hi ?f = hi b"
      using True b(1) by (simp add: hi_def lo_def unat_word_ariths)
    moreover have "free_insert asize f bs = ?f # bs'"
      using nb na True by (simp add: Cons)
    ultimately show ?thesis using b True assms by (auto simp: Cons)
  next
    case False
    then have "free_insert asize f bs = f # bs" using nb na b by (simp add: Cons)
    then show ?thesis using False assms b by (auto simp: Cons)
  qed
qed

lemma free_insert_correct:
  assumes "chain l bs" "l < lo f" "lo f + 32 \<le> hi f" "hi f < 2 ^ 63" "mb_size f = asize"
    and "{lo f..<hi f} \<inter> free_bytes bs = {}"
  shows "chain l (free_insert asize f bs)
       \<and> free_bytes (free_insert asize f bs) = {lo f..<hi f} \<union> free_bytes bs"
  using assms
proof (induction bs arbitrary: l)
  case Nil
  then show ?case by simp
next
  case (Cons b bs)
  have b: "l < lo b" "lo b + 32 \<le> hi b" "hi b < 2 ^ 63" "chain (hi b) bs"
    using Cons.prems by auto
  note g = gaps [OF Cons.prems(4) b(3)]
  have "{lo f..<hi f} \<inter> {lo b..<hi b} = {}"
    using Cons.prems(6) unfolding free_bytes_simps by blast
  from disjoint_intervals [OF this] have "hi b \<le> lo f \<or> hi f \<le> lo b"
    using b Cons.prems by auto
  then consider (merge) "hi b = lo f" | (after) "hi b < lo f" | (before) "hi f \<le> lo b" by linarith
  then show ?case
  proof cases
    case merge
    let ?f = "b\<lparr>mb_size := mb_size b + asize\<rparr>"
    have f: "lo ?f = lo b" "hi ?f = hi f"
      using merge Cons.prems(4,5) by (simp_all add: hi_def lo_def unat_word_ariths)
    have above: "\<forall>c \<in> set bs. hi ?f \<le> lo c"
    proof
      fix c assume c: "c \<in> set bs"
      then have "hi b < lo c" "lo c < hi c" using chain_block [OF b(4)] by fastforce+
      moreover have "{lo f..<hi f} \<inter> {lo c..<hi c} = {}"
        using Cons.prems(6) free_bytes_block [OF c] unfolding free_bytes_simps by blast
      ultimately show "hi ?f \<le> lo c"
        using disjoint_intervals [of "lo f" "hi f" "lo c" "hi c"] merge f(2) Cons.prems(3) by auto
    qed
    have "free_insert asize f (b # bs) = free_insert asize ?f bs"
      using g merge by simp
    moreover have "chain l (free_insert asize ?f bs)
       \<and> free_bytes (free_insert asize ?f bs) = {lo ?f..<hi ?f} \<union> free_bytes bs"
      using free_insert_above [OF b(4), of l ?f asize] f b above Cons.prems merge by simp
    moreover have "{lo ?f..<hi ?f} = {lo f..<hi f} \<union> {lo b..<hi b}"
      using f merge b Cons.prems(3) by auto
    ultimately show ?thesis by auto
  next
    case after
    have "free_insert asize f (b # bs) = b # free_insert asize f bs"
      using g after b Cons.prems(3) by simp
    moreover have "{lo f..<hi f} \<inter> free_bytes bs = {}"
      using Cons.prems(6) unfolding free_bytes_simps by blast
    ultimately show ?thesis
      using Cons.IH [OF b(4) after Cons.prems(3-5)] b by auto
  next
    case before
    have "\<forall>c \<in> set (b # bs). hi f \<le> lo c"
      using before b chain_block [OF b(4)] by fastforce
    then show ?thesis using free_insert_above [OF Cons.prems(1-4)] by blast
  qed
qed

section \<open>Allocation\<close>

definition pre_size :: "u64 \<Rightarrow> u64 \<Rightarrow> u64 \<Rightarrow> memory_block \<Rightarrow> u64" where
  "pre_size virt_offset amask offset b = (offset - virt_to_phys virt_offset (mb_addr b)) AND amask"

definition fits :: "u64 \<Rightarrow> u64 \<Rightarrow> u64 \<Rightarrow> u64 \<Rightarrow> memory_block \<Rightarrow> bool" where
  "fits virt_offset asize amask offset b \<longleftrightarrow>
     unat (pre_size virt_offset amask offset b) + unat asize \<le> unat (mb_size b)"

definition split_block :: "u64 \<Rightarrow> u64 \<Rightarrow> memory_block \<Rightarrow> memory_block list" where
  "split_block pre asize b =
     (if pre < MIN_MEMBLOCK_SIZE then [] else [b\<lparr>mb_size := pre\<rparr>])
     @ (if MIN_MEMBLOCK_SIZE \<le> mb_size b - pre - asize
        then [\<lparr>mb_addr = mb_addr b + pre + asize, mb_size = mb_size b - pre - asize\<rparr>] else [])"

lemma fits_code:
  "fits virt_offset asize amask offset b \<longleftrightarrow>
   \<not> (mb_size b < pre_size virt_offset amask offset b
      \<or> mb_size b - pre_size virt_offset amask offset b < asize)"
  by (auto simp: fits_def word_less_nat_alt unat_sub_if' split: if_splits)

lemma alloc_scan_fit:
  "fits vo asize amask offset b \<Longrightarrow> alloc_scan vo asize amask offset (b # bs) =
     Some (split_block (pre_size vo amask offset b) asize b @ bs,
           mb_addr b + pre_size vo amask offset b)"
  unfolding fits_code by (simp add: pre_size_def split_block_def Let_def)

lemma alloc_scan_skip:
  "\<not> fits vo asize amask offset b \<Longrightarrow> alloc_scan vo asize amask offset (b # bs) =
     map_option (\<lambda>(bs', p). (b # bs', p)) (alloc_scan vo asize amask offset bs)"
  unfolding fits_code by (simp add: pre_size_def Let_def)

declare alloc_scan.simps(2) [simp del]

text \<open>The search returns the first block with room, and fails only when there is none.\<close>

lemma alloc_scan_Some:
  "alloc_scan vo asize amask offset bs = Some (bs', ptr) \<Longrightarrow>
   \<exists>us b vs. bs = us @ b # vs \<and> (\<forall>u \<in> set us. \<not> fits vo asize amask offset u)
      \<and> fits vo asize amask offset b
      \<and> bs' = us @ split_block (pre_size vo amask offset b) asize b @ vs
      \<and> ptr = mb_addr b + pre_size vo amask offset b"
proof (induction bs arbitrary: bs')
  case Nil
  then show ?case by simp
next
  case (Cons b bs)
  show ?case
  proof (cases "fits vo asize amask offset b")
    case True
    with Cons.prems have "bs' = [] @ split_block (pre_size vo amask offset b) asize b @ bs"
      "ptr = mb_addr b + pre_size vo amask offset b"
      by (simp_all add: alloc_scan_fit)
    with True show ?thesis by (intro exI [of _ "[]"] exI [of _ b] exI [of _ bs]) simp
  next
    case False
    with Cons.prems obtain cs where
        cs: "bs' = b # cs" "alloc_scan vo asize amask offset bs = Some (cs, ptr)"
      by (auto simp: alloc_scan_skip)
    from Cons.IH [OF cs(2)] obtain us c vs where
        "bs = us @ c # vs" "\<forall>u \<in> set us. \<not> fits vo asize amask offset u"
        "fits vo asize amask offset c"
        "cs = us @ split_block (pre_size vo amask offset c) asize c @ vs"
        "ptr = mb_addr c + pre_size vo amask offset c" by blast
    with False cs(1) show ?thesis
      by (intro exI [of _ "b # us"] exI [of _ c] exI [of _ vs]) simp
  qed
qed

lemma alloc_scan_None:
  "alloc_scan vo asize amask offset bs = None \<longleftrightarrow> (\<forall>b \<in> set bs. \<not> fits vo asize amask offset b)"
proof (induction bs)
  case (Cons b bs)
  then show ?case
    by (cases "fits vo asize amask offset b") (simp_all add: alloc_scan_fit alloc_scan_skip)
qed simp

lemma chain_append:
  "chain l (us @ vs) \<longleftrightarrow> chain l us \<and> chain (if us = [] then l else hi (last us)) vs"
  by (induction us arbitrary: l) auto

text \<open>Splitting a block removes the allocated range, and at most a few bytes around it.\<close>

lemma split_block_range:
  assumes "hi b < 2 ^ 63" "unat pre + unat asize \<le> unat (mb_size b)"
  shows "unat (mb_addr b + pre) = lo b + unat pre"
    "unat (mb_addr b + pre + asize) = lo b + unat pre + unat asize"
    "unat (mb_size b - pre - asize) = unat (mb_size b) - unat pre - unat asize"
  using assms by (simp_all add: hi_def lo_def unat_word_ariths unat_sub_if')

lemma split_block_chain:
  assumes "chain l (b # vs)" "unat pre + unat asize \<le> unat (mb_size b)" "32 \<le> unat asize"
  shows "chain l (split_block pre asize b @ vs)"
    "free_bytes (split_block pre asize b)
       \<subseteq> {lo b..<hi b} - {lo b + unat pre..<lo b + unat pre + unat asize}"
    "(32 \<le> unat pre \<or> pre = 0) \<Longrightarrow>
     (unat pre + unat asize + 32 \<le> unat (mb_size b) \<or> unat pre + unat asize = unat (mb_size b)) \<Longrightarrow>
     free_bytes (split_block pre asize b)
       = {lo b..<hi b} - {lo b + unat pre..<lo b + unat pre + unat asize}"
proof -
  have b: "l < lo b" "lo b + 32 \<le> hi b" "hi b < 2 ^ 63" "chain (hi b) vs"
    using assms(1) by auto
  note r = split_block_range [OF b(3) assms(2)]
  let ?pre = "b\<lparr>mb_size := pre\<rparr>"
  let ?post = "\<lparr>mb_addr = mb_addr b + pre + asize, mb_size = mb_size b - pre - asize\<rparr>"
  have pre: "lo ?pre = lo b" "hi ?pre = lo b + unat pre" by (simp_all add: lo_def hi_def)
  have post: "lo ?post = lo b + unat pre + unat asize" "hi ?post = hi b"
    using r assms(2) by (simp_all add: lo_def hi_def)
  have c: "pre < MIN_MEMBLOCK_SIZE \<longleftrightarrow> unat pre < 32"
    "MIN_MEMBLOCK_SIZE \<le> mb_size b - pre - asize
       \<longleftrightarrow> unat pre + unat asize + 32 \<le> unat (mb_size b)"
    using assms(2) by (auto simp: MIN_MEMBLOCK_SIZE_def word_less_nat_alt word_le_nat_alt r)
  have hib: "hi b = lo b + unat (mb_size b)" by (simp add: lo_def hi_def)
  show "chain l (split_block pre asize b @ vs)"
    using b assms pre post c hib chain_weaken [OF b(4)] by (auto simp: split_block_def)
  show "free_bytes (split_block pre asize b)
       \<subseteq> {lo b..<hi b} - {lo b + unat pre..<lo b + unat pre + unat asize}"
    using assms pre post c hib by (auto simp: split_block_def)
  show "free_bytes (split_block pre asize b)
       = {lo b..<hi b} - {lo b + unat pre..<lo b + unat pre + unat asize}"
    if "32 \<le> unat pre \<or> pre = 0"
      "unat pre + unat asize + 32 \<le> unat (mb_size b) \<or> unat pre + unat asize = unat (mb_size b)"
    using that assms pre post c hib by (auto simp: split_block_def)
qed

lemma chain_below: "chain l us \<Longrightarrow> x \<in> free_bytes us \<Longrightarrow> us \<noteq> [] \<and> x < hi (last us)"
proof (induction us arbitrary: l)
  case (Cons u us)
  then show ?case using chain_block [of "hi u" us "last us"]
    by (cases "us = []") fastforce+
qed simp

lemma chain_middle:
  assumes "chain l (us @ b # vs)"
  shows "free_bytes us \<inter> {lo b..<hi b} = {}" "free_bytes vs \<inter> {lo b..<hi b} = {}"
    "hi b < 2 ^ 63" "l < lo b"
proof -
  have c: "chain l us" "chain (if us = [] then l else hi (last us)) (b # vs)"
    using assms by (simp_all add: chain_append)
  have "x < lo b" if "x \<in> free_bytes us" for x
    using chain_below [OF c(1) that] c(2) by auto
  then show "free_bytes us \<inter> {lo b..<hi b} = {}" by fastforce
  show "free_bytes vs \<inter> {lo b..<hi b} = {}"
    using c(2) chain_above [of "hi b" vs] by fastforce
  show "hi b < 2 ^ 63" "l < lo b" using chain_block [OF assms, of b] by simp_all
qed

lemma chain_replace:
  assumes "chain l (us @ b # vs)" "\<And>k. chain k (b # vs) \<Longrightarrow> chain k ws"
  shows "chain l (us @ ws)"
  using assms by (simp add: chain_append)

definition alloc_spec :: "memory_block list \<Rightarrow> u64 \<Rightarrow> memory_block list \<Rightarrow> u64 \<Rightarrow> bool" where
  "alloc_spec bs asize bs' ptr \<longleftrightarrow>
     chain 0 bs' \<and> 0 < unat ptr \<and> unat ptr + unat asize < 2 ^ 63
     \<and> {unat ptr..<unat ptr + unat asize} \<subseteq> free_bytes bs
     \<and> free_bytes bs' \<subseteq> free_bytes bs - {unat ptr..<unat ptr + unat asize}"

lemma alloc_scan_correct:
  assumes "chain 0 bs" "32 \<le> unat asize" "alloc_scan vo asize amask offset bs = Some (bs', ptr)"
  shows "alloc_spec bs asize bs' ptr"
proof -
  from alloc_scan_Some [OF assms(3)] obtain us b vs where
      bs: "bs = us @ b # vs" and f: "fits vo asize amask offset b"
      and bs': "bs' = us @ split_block (pre_size vo amask offset b) asize b @ vs"
      and ptr: "ptr = mb_addr b + pre_size vo amask offset b" by blast
  let ?pre = "pre_size vo amask offset b"
  have fit: "unat ?pre + unat asize \<le> unat (mb_size b)" using f by (simp add: fits_def)
  note mid = chain_middle [OF assms(1) [unfolded bs]]
  have p: "unat ptr = lo b + unat ?pre"
    unfolding ptr by (rule split_block_range(1) [OF mid(3) fit])
  have chain: "chain k (split_block ?pre asize b @ vs)" if "chain k (b # vs)" for k
    using that fit assms(2) by (rule split_block_chain(1))
  have sub: "free_bytes (split_block ?pre asize b)
      \<subseteq> {lo b..<hi b} - {unat ptr..<unat ptr + unat asize}"
    unfolding p using assms(1) chain_append [of 0 us "b # vs"] fit assms(2)
    by (intro split_block_chain(2)) (auto simp: bs)
  have range: "{unat ptr..<unat ptr + unat asize} \<subseteq> {lo b..<hi b}" "unat ptr + unat asize \<le> hi b"
    using p fit by (auto simp: hi_def lo_def)
  have "chain 0 bs'"
    unfolding bs' using assms(1) [unfolded bs] chain by (rule chain_replace)
  moreover have "free_bytes bs' \<subseteq> free_bytes bs - {unat ptr..<unat ptr + unat asize}"
    unfolding bs' bs free_bytes_simps using sub range mid(1,2) by blast
  moreover have "{unat ptr..<unat ptr + unat asize} \<subseteq> free_bytes bs"
    unfolding bs free_bytes_simps using range by blast
  ultimately show ?thesis using range mid p by (simp add: alloc_spec_def)
qed

text \<open>
  \<open>discards ds h h1\<close>: the heap \<open>h1\<close> is reached from \<open>h\<close> by successful calls of
  \<^verbatim>\<open>discard_cache()\<close>.
\<close>

inductive discards :: "'a discarder list \<Rightarrow> 'a heap_scheme \<Rightarrow> 'a heap_scheme \<Rightarrow> bool"
  for ds where
  discards_none: "discards ds h h"
| discards_step: "discard_cache ds h = (h1, n) \<Longrightarrow> n \<noteq> 0 \<Longrightarrow> discards ds h1 h2 \<Longrightarrow> discards ds h h2"

lemma discard_cache_wf:
  "\<forall>d \<in> set ds. \<forall>h. heap_wf h \<longrightarrow> heap_wf (fst (d h)) \<Longrightarrow> heap_wf h \<Longrightarrow> heap_wf (fst (discard_cache ds h))"
proof (induction ds arbitrary: h)
  case (Cons d ds)
  then have "heap_wf (fst (d h))" by simp
  then show ?case using Cons by (cases "d h") simp
qed simp

lemma discards_wf:
  "discards ds h h1 \<Longrightarrow> \<forall>d \<in> set ds. \<forall>h. heap_wf h \<longrightarrow> heap_wf (fst (d h)) \<Longrightarrow> heap_wf h \<Longrightarrow> heap_wf h1"
proof (induction rule: discards.induct)
  case (discards_step h h1 n h2)
  then show ?case using discard_cache_wf [OF discards_step.prems] by simp
qed

text \<open>What a returning call of the allocation loop has done.\<close>

definition alloc_result :: "'a discarder list \<Rightarrow> u64 \<Rightarrow> u64 \<Rightarrow> u64 \<Rightarrow> u64 \<Rightarrow> 'a heap_scheme \<Rightarrow> 'a heap_scheme \<times> u64 \<Rightarrow> bool" where
  "alloc_result ds vo asize amask offset h r \<longleftrightarrow>
     (\<exists>h1. discards ds h h1 \<and>
       (case alloc_scan vo asize amask offset (free_blocks h1) of
          None \<Rightarrow> discard_cache ds h1 = (fst r, 0) \<and> snd r = NULL
        | Some (bs, ptr) \<Rightarrow>
            r = (h1\<lparr>free_blocks := bs, freemem := freemem h1 - asize, usedmem := usedmem h1 + asize,
                    maxusedmem := max (maxusedmem h1) (usedmem h1 + asize)\<rparr>, ptr)))"

lemma alloc_loop_result:
  assumes ret: "alloc_loop ds vo asize amask offset h = Some r"
  shows "alloc_result ds vo asize amask offset h r"
proof (rule alloc_loop.raw_induct [where P = "\<lambda>ds vo asize amask offset h r.
         alloc_result ds vo asize amask offset h r", OF _ ret])
  fix rec :: "'a discarder list \<Rightarrow> u64 \<Rightarrow> u64 \<Rightarrow> u64 \<Rightarrow> u64 \<Rightarrow> 'a heap_scheme \<Rightarrow> ('a heap_scheme \<times> u64) option"
    and ds :: "'a discarder list" and vo asize amask offset :: u64
    and h :: "'a heap_scheme" and r :: "'a heap_scheme \<times> u64"
  assume IH: "\<And>ds vo asize amask offset h r. rec ds vo asize amask offset h = Some r \<Longrightarrow>
      alloc_result ds vo asize amask offset h r"
    and eq: "(case alloc_scan vo asize amask offset (free_blocks h) of
        Some (bs, ptr) \<Rightarrow>
          let used = usedmem h + asize
          in Some (h\<lparr>free_blocks := bs, freemem := freemem h - asize, usedmem := used,
                     maxusedmem := (if maxusedmem h < used then used else maxusedmem h)\<rparr>, ptr)
      | None \<Rightarrow>
          let (h', discarded) = discard_cache ds h
          in if discarded = 0 then Some (h', NULL)
             else rec ds vo asize amask offset h') = Some r"
  show "alloc_result ds vo asize amask offset h r"
  proof (cases "alloc_scan vo asize amask offset (free_blocks h)")
    case (Some q)
    with eq show ?thesis
      by (auto simp: alloc_result_def Let_def max_def intro!: exI [of _ h] discards_none split: if_splits)
  next
    case None
    obtain h' n where d: "discard_cache ds h = (h', n)" by fastforce
    show ?thesis
    proof (cases "n = 0")
      case True
      with eq None d show ?thesis
        by (auto simp: alloc_result_def intro!: exI [of _ h] discards_none)
    next
      case False
      with eq None d have "rec ds vo asize amask offset h' = Some r" by simp
      from IH [OF this] show ?thesis
        using discards_step [OF d False] by (auto simp: alloc_result_def)
    qed
  qed
qed

lemma alloc_memblock_result:
  "alloc_memblock ds vo n align offset h = Some r \<Longrightarrow> actual_size n \<noteq> 0 \<Longrightarrow>
   alloc_result ds vo (actual_size n) (align_mask align) offset h r"
  by (simp add: alloc_memblock_def alloc_loop_result)

section \<open>Properties of allocation\<close>

text \<open>
  C16: allocation keeps the free list in the state \<^verbatim>\<open>check_blocks()\<close> asserts,
  and the block it hands out was entirely free (after whatever the cache
  discarders released), is at least as long as requested, and is no longer free.
\<close>

theorem alloc_memblock_safe:
  assumes wf: "heap_wf h"
    and ds: "\<forall>d \<in> set ds. \<forall>h. heap_wf h \<longrightarrow> heap_wf (fst (d h))"
    and ret: "alloc_memblock ds vo n align offset h = Some (h', ptr)"
  shows "heap_wf h' \<and>
    (ptr \<noteq> NULL \<longrightarrow> (\<exists>h1. discards ds h h1
        \<and> {unat ptr..<unat ptr + unat (actual_size n)} \<subseteq> free_bytes (free_blocks h1)
        \<and> unat n \<le> unat (actual_size n)
        \<and> free_bytes (free_blocks h')
            \<subseteq> free_bytes (free_blocks h1) - {unat ptr..<unat ptr + unat (actual_size n)}))"
proof (cases "actual_size n = 0")
  case True
  with ret wf show ?thesis by (auto simp: alloc_memblock_def)
next
  case False
  let ?scan = "\<lambda>h1. alloc_scan vo (actual_size n) (align_mask align) offset (free_blocks h1)"
  from alloc_memblock_result [OF ret False] obtain h1 where
      d: "discards ds h h1" and c: "case ?scan h1 of
          None \<Rightarrow> discard_cache ds h1 = (h', 0) \<and> ptr = NULL
        | Some (bs, p) \<Rightarrow> free_blocks h' = bs \<and> ptr = p"
    unfolding alloc_result_def by (fastforce split: option.splits)
  have wf1: "heap_wf h1" using d ds wf by (rule discards_wf)
  show ?thesis
  proof (cases "?scan h1")
    case None
    then have "h' = fst (discard_cache ds h1)" "ptr = NULL" using c by auto
    then show ?thesis using discard_cache_wf [OF ds wf1] by simp
  next
    case (Some q)
    then have "?scan h1 = Some (free_blocks h', ptr)" using c by (cases q) auto
    then have "alloc_spec (free_blocks h1) (actual_size n) (free_blocks h') ptr"
      using wf1 actual_size_cases(5) [OF False] by (auto simp: heap_wf_chain intro: alloc_scan_correct)
    then show ?thesis
      using d actual_size_cases(2) [OF False] unfolding heap_wf_chain alloc_spec_def by blast
  qed
qed

definition example_heap :: heap where
  "example_heap = \<lparr>free_blocks = [\<lparr>mb_addr = 0x1000, mb_size = 0x400\<rparr>], freemem = 0x400, usedmem = 0,
     maxusedmem = 0, hdr = (\<lambda>_. 0), store = (\<lambda>_. 0)\<rparr>"

lemma example_heap_wf: "heap_wf example_heap"
  by (simp add: heap_wf_chain example_heap_def lo_def hi_def)

lemmas heap_eval = alloc_memblock_def alloc_loop.simps alloc_scan.simps actual_size_def align_mask_def
  virt_to_phys_def heap_consts Let_def

lemma example_alloc:
  "alloc_memblock [] 0 100 64 0 example_heap =
     Some (example_heap\<lparr>free_blocks := [\<lparr>mb_addr = 0x1080, mb_size = 0x380\<rparr>], freemem := 0x380,
       usedmem := 0x80, maxusedmem := 0x80\<rparr>, 0x1000)"
  by (simp add: heap_eval example_heap_def)

theorem alloc_memblock_safe_witness:
  "heap_wf (example_heap\<lparr>free_blocks := [\<lparr>mb_addr = 0x1080, mb_size = 0x380\<rparr>], freemem := 0x380,
       usedmem := 0x80, maxusedmem := 0x80\<rparr>)"
  using alloc_memblock_safe [OF example_heap_wf _ example_alloc] by simp

lemma align_mask_power:
  assumes "k < 64"
  shows "align_mask (2 ^ k) = mask (max k 5)"
proof -
  have "align_mask (2 ^ k) = mask k OR mask 5"
    unfolding align_mask_def min_memblock_mask by (simp add: mask_eq_exp_minus_1)
  also have "\<dots> = mask (max k 5)" by (rule bit_eqI) (auto simp: bit_simps)
  finally show ?thesis .
qed

lemma and_mask_add:
  fixes x z :: u64
  assumes "k \<le> 64"
  shows "(x + (z AND mask k)) AND mask k = (x + z) AND mask k"
proof -
  have dvd: "(2 :: nat) ^ k dvd 2 ^ 64" using assms by (rule le_imp_power_dvd)
  have m: "unat (a + b) mod 2 ^ k = (unat a + unat b) mod 2 ^ k" for a b :: u64
    using mod_mod_cancel [OF dvd] by (simp add: unat_word_ariths)
  show ?thesis
    unfolding word_unat_eq_iff unat_and_mask m by (simp add: mod_add_right_eq)
qed

lemma virt_to_phys_linear:
  assumes "hi b \<le> 2 ^ 32 \<or> 2 ^ 32 \<le> lo b" "unat n < unat (mb_size b)" "hi b < 2 ^ 63"
  shows "virt_to_phys vo (mb_addr b + n) = virt_to_phys vo (mb_addr b) + n"
proof -
  have u: "unat (mb_addr b + n) = lo b + unat n"
    using assms by (simp add: lo_def hi_def unat_word_ariths)
  have "(mb_addr b + n \<le> 0xffffffff) \<longleftrightarrow> (mb_addr b \<le> 0xffffffff)"
    using assms u by (auto simp: word_le_nat_alt lo_def hi_def)
  then show ?thesis by (auto simp: virt_to_phys_def)
qed

text \<open>
  The block handed out has the physical alignment asked for: its physical
  address is congruent to the requested offset modulo the alignment, for a
  heap none of whose free blocks straddles the 4GB boundary at which the
  virtual-to-physical mapping changes.
\<close>

lemma alloc_aligned:
  assumes wf: "heap_wf h"
    and side: "\<forall>b \<in> set (free_blocks h). hi b \<le> 2 ^ 32 \<or> 2 ^ 32 \<le> lo b"
    and align: "align = 2 ^ k" "k < 64"
    and ret: "alloc_memblock [] vo n align offset h = Some (h', ptr)" "ptr \<noteq> NULL"
  shows "unat (virt_to_phys vo ptr) mod 2 ^ k = unat offset mod 2 ^ k"
proof -
  have a: "actual_size n \<noteq> 0" using ret by (auto simp: alloc_memblock_def)
  let ?m = "mask (max k 5) :: u64" and ?a = "actual_size n"
  from alloc_memblock_result [OF ret(1) a] obtain h1 bs where
      d: "discards [] h h1" and c: "alloc_scan vo ?a ?m offset (free_blocks h1) = Some (bs, ptr)"
    using ret(2) align_mask_power [OF align(2)] unfolding alloc_result_def align(1)
    by (fastforce split: option.splits)
  from d have "h1 = h" by (cases rule: discards.cases) auto
  with alloc_scan_Some [OF c] obtain b where
      b: "b \<in> set (free_blocks h)" and f: "fits vo ?a ?m offset b"
      and ptr: "ptr = mb_addr b + pre_size vo ?m offset b" by fastforce
  have "0 < unat ?a" using actual_size_cases(5) [OF a] by simp
  then have "unat (pre_size vo ?m offset b) < unat (mb_size b)"
    using f by (simp add: fits_def)
  moreover have "hi b < 2 ^ 63" using wf b by (auto simp: heap_wf_def)
  ultimately have "virt_to_phys vo ptr = virt_to_phys vo (mb_addr b) + pre_size vo ?m offset b"
    unfolding ptr using side b by (intro virt_to_phys_linear) auto
  then have "virt_to_phys vo ptr AND ?m = offset AND ?m"
    using align(2) by (simp add: pre_size_def and_mask_add)
  then have m: "unat (virt_to_phys vo ptr) mod 2 ^ max k 5 = unat offset mod 2 ^ max k 5"
    by (metis unat_and_mask)
  have "(2 :: nat) ^ k dvd 2 ^ max k 5" by (intro le_imp_power_dvd) simp
  note mod_mod_cancel [OF this]
  from this [of "unat (virt_to_phys vo ptr)"] this [of "unat offset"] m show ?thesis by simp
qed

lemma alloc_loop_returns:
  assumes "\<And>h h1 n. discard_cache ds h = (h1, n) \<Longrightarrow> n \<noteq> 0 \<Longrightarrow> (m h1 :: nat) < m h"
  shows "\<exists>r. alloc_loop ds vo asize amask offset h = Some r"
proof (induction "m h" arbitrary: h rule: less_induct)
  case less
  show ?case
  proof (cases "alloc_scan vo asize amask offset (free_blocks h)")
    case None
    obtain h1 n where d: "discard_cache ds h = (h1, n)" by fastforce
    show ?thesis
      using less [OF assms [OF d]] None d
      by (cases "n = 0") (simp_all add: alloc_loop.simps [of ds vo asize amask offset h])
  next
    case (Some q)
    then show ?thesis
      by (cases q) (simp add: alloc_loop.simps [of ds vo asize amask offset h] Let_def)
  qed
qed

text \<open>
  C28: allocation returns, whenever the cache discarders cannot release items
  for ever: if some measure drops with every successful discard, the retry
  loop ends with a block or with \<open>NULL\<close>.
\<close>

theorem alloc_memblock_returns:
  assumes "\<And>h h1 n. discard_cache ds h = (h1, n) \<Longrightarrow> n \<noteq> 0 \<Longrightarrow> (m h1 :: nat) < m h"
  shows "\<exists>h' ptr. alloc_memblock ds vo n align offset h = Some (h', ptr)"
  using alloc_loop_returns [of ds m, OF assms] by (simp add: alloc_memblock_def)

text \<open>A cache of blocks, whose discarder frees the oldest one.\<close>

record cached_heap = heap +
  cached :: "(u64 \<times> u64) list"

definition drop_oldest :: "cached_heap \<Rightarrow> cached_heap \<times> nat" where
  "drop_oldest h = (case cached h of [] \<Rightarrow> (h, 0)
     | (p, n) # cs \<Rightarrow> (free_memblock p n (h\<lparr>cached := cs\<rparr>), 1))"

theorem alloc_memblock_returns_witness:
  "\<exists>h' ptr. alloc_memblock [drop_oldest] 0 256 1 0
     \<lparr>free_blocks = [], freemem = 0, usedmem = 512, maxusedmem = 512, hdr = (\<lambda>_. 0), store = (\<lambda>_. 0),
      cached = [(0x1000, 512)]\<rparr> = Some (h', ptr)"
proof (rule alloc_memblock_returns [where m = "\<lambda>h. length (cached h)"])
  fix h h1 :: cached_heap and n :: nat
  assume "discard_cache [drop_oldest] h = (h1, n)" "n \<noteq> 0"
  then show "length (cached h1) < length (cached h)"
    by (auto simp: drop_oldest_def free_memblock_def Let_def split: list.splits if_splits)
qed



section \<open>Properties of freeing\<close>

lemma free_memblock_spec:
  assumes wf: "heap_wf h" and ptr: "ptr \<noteq> NULL" and n: "actual_size n \<noteq> 0"
    and bound: "unat ptr + unat (actual_size n) < 2 ^ 63"
    and disj: "{unat ptr..<unat ptr + unat (actual_size n)} \<inter> free_bytes (free_blocks h) = {}"
  shows "heap_wf (free_memblock ptr n h)
    \<and> free_bytes (free_blocks (free_memblock ptr n h))
        = free_bytes (free_blocks h) \<union> {unat ptr..<unat ptr + unat (actual_size n)}"
proof -
  let ?f = "\<lparr>mb_addr = ptr, mb_size = actual_size n\<rparr>"
  have f: "lo ?f = unat ptr" "hi ?f = unat ptr + unat (actual_size n)"
    by (simp_all add: lo_def hi_def)
  have "0 < unat ptr" using ptr by (simp add: NULL_def word_unat_eq_iff)
  moreover have "32 \<le> unat (actual_size n)" by (rule actual_size_cases(5) [OF n])
  ultimately have "chain 0 (free_insert (actual_size n) ?f (free_blocks h))
    \<and> free_bytes (free_insert (actual_size n) ?f (free_blocks h))
        = {lo ?f..<hi ?f} \<union> free_bytes (free_blocks h)"
    using wf bound disj unfolding heap_wf_chain f [symmetric]
    by (intro free_insert_correct) (simp_all add: f)
  then show ?thesis using ptr by (simp add: heap_wf_chain free_memblock_def Let_def f Un_commute)
qed

text \<open>
  C17: freeing a block that is not free keeps the free list in the state
  \<^verbatim>\<open>check_blocks()\<close> asserts (sorted, with adjacent blocks merged) and adds
  exactly the addresses of the block to the free memory.
\<close>

theorem free_memblock_correct:
  assumes wf: "heap_wf h" and ptr: "ptr \<noteq> NULL" and n: "actual_size n \<noteq> 0"
    and bound: "unat ptr + unat (actual_size n) < 2 ^ 63"
    and disj: "{unat ptr..<unat ptr + unat (actual_size n)} \<inter> free_bytes (free_blocks h) = {}"
  shows "heap_wf (free_memblock ptr n h)
    \<and> free_bytes (free_blocks (free_memblock ptr n h))
        = free_bytes (free_blocks h) \<union> {unat ptr..<unat ptr + unat (actual_size n)}"
  using assms by (rule free_memblock_spec)

theorem free_memblock_correct_witness:
  "heap_wf (free_memblock 0x1400 64 example_heap)"
proof -
  have "{unat (0x1400 :: u64)..<unat (0x1400 :: u64) + unat (actual_size 64)}
      \<inter> free_bytes (free_blocks example_heap) = {}"
    by (simp add: unat_actual_size example_heap_def lo_def hi_def)
  from free_memblock_correct [OF example_heap_wf _ _ _ this] show ?thesis
    by (simp add: NULL_def actual_size_def MIN_MEMBLOCK_SIZE_def)
qed

end
