(* ===== verification/Heap_Clients.thy ===== *)
theory Heap_Clients
  imports Heap
begin

text \<open>
  What the users of the allocator of \<^verbatim>\<open>core/malloc.c\<close> rely on. The locale
  \<open>memory_pool\<close> states the contract between a pool of memory and its clients and
  derives that live blocks never overlap; it is interpreted on
  \<open>alloc_memblock\<close> and \<open>free_memblock\<close>. Then: allocation followed by freeing
  restores the free list, \<open>realloc\<close> preserves contents, and a freshly
  initialised heap is well-formed.
\<close>

section \<open>The contract of a memory pool\<close>

fun disjoint_all :: "('b \<Rightarrow> nat set) \<Rightarrow> 'b list \<Rightarrow> bool" where
  "disjoint_all region [] = True"
| "disjoint_all region (x # xs) =
     ((\<forall>y \<in> set xs. region x \<inter> region y = {}) \<and> disjoint_all region xs)"

lemma disjoint_all_remove1: "disjoint_all region xs \<Longrightarrow> disjoint_all region (remove1 x xs)"
  by (induction xs) (auto dest: set_remove1_subset [THEN subsetD])

lemma disjoint_all_removed:
  "disjoint_all region xs \<Longrightarrow> x \<in> set xs \<Longrightarrow> y \<in> set (remove1 x xs) \<Longrightarrow> region x \<inter> region y = {}"
  by (induction xs) (auto split: if_splits)

locale memory_pool =
  fixes inv :: "'s \<Rightarrow> bool"
    and avail :: "'s \<Rightarrow> nat set"
    and region :: "'b \<Rightarrow> nat set"
    and valid :: "'b \<Rightarrow> bool"
    and acquire :: "'r \<Rightarrow> 's \<Rightarrow> ('s \<times> 'b) option"
    and release :: "'b \<Rightarrow> 's \<Rightarrow> 's"
  assumes acquire_law: "inv s \<Longrightarrow> acquire r s = Some (s', x) \<Longrightarrow>
      inv s' \<and> valid x \<and> region x \<subseteq> avail s \<and> avail s' \<subseteq> avail s - region x"
    and release_law: "inv s \<Longrightarrow> valid x \<Longrightarrow> region x \<inter> avail s = {} \<Longrightarrow>
      inv (release x s) \<and> avail (release x s) = avail s \<union> region x"
begin

definition pool_ok :: "'s \<Rightarrow> 'b list \<Rightarrow> bool" where
  "pool_ok s live \<longleftrightarrow> inv s \<and> disjoint_all region live
     \<and> (\<forall>x \<in> set live. valid x \<and> region x \<inter> avail s = {})"

lemma pool_ok_acquire:
  assumes "pool_ok s live" "acquire r s = Some (s', x)"
  shows "pool_ok s' (x # live)"
proof -
  have "inv s' \<and> valid x \<and> region x \<subseteq> avail s \<and> avail s' \<subseteq> avail s - region x"
    using assms acquire_law by (auto simp: pool_ok_def)
  with assms(1) show ?thesis unfolding pool_ok_def by fastforce
qed

lemma pool_ok_release:
  assumes "pool_ok s live" "x \<in> set live"
  shows "pool_ok (release x s) (remove1 x live)"
proof -
  have "inv (release x s) \<and> avail (release x s) = avail s \<union> region x"
    using assms release_law by (auto simp: pool_ok_def)
  moreover have "valid y \<and> region y \<inter> (avail s \<union> region x) = {}" if y: "y \<in> set (remove1 x live)" for y
  proof -
    have "y \<in> set live" using y set_remove1_subset [of x live] by blast
    then have "valid y" "region y \<inter> avail s = {}" using assms(1) by (auto simp: pool_ok_def)
    moreover have "region x \<inter> region y = {}"
      using assms(1) disjoint_all_removed [OF _ assms(2) y] by (auto simp: pool_ok_def)
    ultimately show ?thesis by blast
  qed
  ultimately show ?thesis
    using assms disjoint_all_remove1 [of region live x] unfolding pool_ok_def by simp
qed

lemma acquire_release_avail:
  assumes "inv s" "acquire r s = Some (s', x)"
  shows "inv (release x s') \<and> avail (release x s') \<subseteq> avail s"
  using acquire_law [OF assms] release_law [of s' x] by blast

end

section \<open>The heap as a memory pool\<close>

type_synonym block = "u64 \<times> u64"

definition block_region :: "block \<Rightarrow> nat set" where
  "block_region x = {unat (fst x)..<unat (fst x) + unat (actual_size (snd x))}"

definition block_valid :: "block \<Rightarrow> bool" where
  "block_valid x \<longleftrightarrow> fst x \<noteq> NULL \<and> actual_size (snd x) \<noteq> 0
     \<and> unat (fst x) + unat (actual_size (snd x)) < 2 ^ 63"

definition heap_acquire :: "u64 \<Rightarrow> u64 \<times> u64 \<times> u64 \<Rightarrow> heap \<Rightarrow> (heap \<times> block) option" where
  "heap_acquire vo r h =
     (case r of (n, align, offset) \<Rightarrow>
        case alloc_memblock [] vo n align offset h of
          None \<Rightarrow> None
        | Some (h', ptr) \<Rightarrow> if ptr = NULL then None else Some (h', (ptr, n)))"

definition heap_release :: "block \<Rightarrow> heap \<Rightarrow> heap" where
  "heap_release x h = free_memblock (fst x) (snd x) h"

lemma discards_Nil: "discards [] h h1 \<longleftrightarrow> h1 = h"
  by (auto intro: discards_none elim: discards.cases)

lemma alloc_memblock_Some:
  assumes "heap_wf h" "alloc_memblock [] vo n align offset h = Some (h', ptr)" "ptr \<noteq> NULL"
  shows "actual_size n \<noteq> 0"
    "alloc_scan vo (actual_size n) (align_mask align) offset (free_blocks h) = Some (free_blocks h', ptr)"
    "h' = h\<lparr>free_blocks := free_blocks h', freemem := freemem h - actual_size n,
            usedmem := usedmem h + actual_size n,
            maxusedmem := max (maxusedmem h) (usedmem h + actual_size n)\<rparr>"
    "alloc_spec (free_blocks h) (actual_size n) (free_blocks h') ptr"
    "usedmem h' = usedmem h + actual_size n" "freemem h' = freemem h - actual_size n"
    "hdr h' = hdr h" "store h' = store h"
proof -
  show a: "actual_size n \<noteq> 0" using assms by (auto simp: alloc_memblock_def)
  from alloc_memblock_result [OF assms(2) a] assms(3)
  show scan: "alloc_scan vo (actual_size n) (align_mask align) offset (free_blocks h)
      = Some (free_blocks h', ptr)"
    and "h' = h\<lparr>free_blocks := free_blocks h', freemem := freemem h - actual_size n,
            usedmem := usedmem h + actual_size n,
            maxusedmem := max (maxusedmem h) (usedmem h + actual_size n)\<rparr>"
    and "usedmem h' = usedmem h + actual_size n" "freemem h' = freemem h - actual_size n"
      "hdr h' = hdr h" "store h' = store h"
    by (auto simp: alloc_result_def discards_Nil split: option.splits)
  from alloc_scan_correct [OF _ _ scan] show "alloc_spec (free_blocks h) (actual_size n) (free_blocks h') ptr"
    using assms(1) actual_size_cases(5) [OF a] by (simp add: heap_wf_chain)
qed

interpretation pool: memory_pool heap_wf "\<lambda>h. free_bytes (free_blocks h)" block_region block_valid
  "heap_acquire vo" heap_release for vo
proof
  fix h h' :: heap and r x
  assume wf: "heap_wf h" and acq: "heap_acquire vo r h = Some (h', x)"
  obtain n align offset where r: "r = (n, align, offset)" by (cases r)
  have ret: "alloc_memblock [] vo n align offset h = Some (h', fst x)" "fst x \<noteq> NULL" "snd x = n"
    using acq by (auto simp: heap_acquire_def r split: option.splits if_splits)
  note s = alloc_memblock_Some [OF wf ret(1,2)]
  show "heap_wf h' \<and> block_valid x \<and> block_region x \<subseteq> free_bytes (free_blocks h)
      \<and> free_bytes (free_blocks h') \<subseteq> free_bytes (free_blocks h) - block_region x"
    using s(1,4) ret unfolding heap_wf_chain block_valid_def block_region_def alloc_spec_def by simp
next
  fix h :: heap and x :: block
  assume "heap_wf h" "block_valid x" "block_region x \<inter> free_bytes (free_blocks h) = {}"
  then show "heap_wf (heap_release x h)
      \<and> free_bytes (free_blocks (heap_release x h)) = free_bytes (free_blocks h) \<union> block_region x"
    using free_memblock_spec [of h "fst x" "snd x"]
    unfolding heap_release_def block_valid_def block_region_def by blast
qed

section \<open>Histories of allocations and frees\<close>

text \<open>
  The heaps reachable from start-up: the heap array is at the address
  \<open>a\<close>, nothing has been allocated, then blocks are allocated and live blocks
  are freed in any order. The list holds the live blocks with the sizes asked for.
\<close>

definition empty_heap :: heap where
  "empty_heap = \<lparr>free_blocks = [], freemem = 0, usedmem = 0, maxusedmem = 0,
     hdr = (\<lambda>_. 0), store = (\<lambda>_. 0)\<rparr>"

inductive heap_reach :: "u64 \<Rightarrow> u64 \<Rightarrow> heap \<Rightarrow> block list \<Rightarrow> bool" for vo a where
  reach_init: "heap_reach vo a (init_heap a empty_heap) []"
| reach_alloc: "heap_reach vo a h live \<Longrightarrow> alloc_memblock [] vo n align offset h = Some (h', ptr) \<Longrightarrow>
    heap_reach vo a h' (if ptr = NULL then live else (ptr, n) # live)"
| reach_free: "heap_reach vo a h live \<Longrightarrow> x \<in> set live \<Longrightarrow>
    heap_reach vo a (free_memblock (fst x) (snd x) h) (remove1 x live)"

lemma alloc_memblock_NULL:
  "alloc_memblock [] vo n align offset h = Some (h', NULL) \<Longrightarrow> heap_wf h \<Longrightarrow> h' = h"
proof (cases "actual_size n = 0")
  case False
  assume ret: "alloc_memblock [] vo n align offset h = Some (h', NULL)" and wf: "heap_wf h"
  have "\<not> alloc_spec (free_blocks h) (actual_size n) bs NULL" for bs
    by (simp add: alloc_spec_def NULL_def)
  then have "alloc_scan vo (actual_size n) (align_mask align) offset (free_blocks h) \<noteq> Some (bs, NULL)" for bs
    using alloc_scan_correct [of "free_blocks h" "actual_size n" vo "align_mask align" offset bs NULL]
      wf actual_size_cases(5) [OF False] by (auto simp: heap_wf_chain)
  then show ?thesis
    using alloc_memblock_result [OF ret False]
    by (auto simp: alloc_result_def discards_Nil split: option.splits)
qed (simp add: alloc_memblock_def)

lemma init_heap_eq:
  "a \<noteq> NULL \<Longrightarrow> init_heap a empty_heap =
     empty_heap\<lparr>free_blocks := [\<lparr>mb_addr = a, mb_size = HEAP_SIZE\<rparr>], freemem := HEAP_SIZE\<rparr>"
  by (simp add: init_heap_def mpopulate_def free_memblock_def empty_heap_def Let_def
      actual_size_def MIN_MEMBLOCK_SIZE_def HEAP_SIZE_def)

lemma heap_reach_ok:
  assumes "heap_reach vo a h live" "a \<noteq> NULL" "unat a + unat HEAP_SIZE < 2 ^ 63"
  shows "pool.pool_ok h live
    \<and> free_bytes (free_blocks h) \<union> (\<Union>x \<in> set live. block_region x) \<subseteq> {unat a..<unat a + unat HEAP_SIZE}"
  using assms(1)
proof (induction rule: heap_reach.induct)
  case reach_init
  have "0 < unat a" using assms(2) by (simp add: NULL_def word_unat_eq_iff)
  then have "heap_wf (init_heap a empty_heap)"
    using assms by (simp add: init_heap_eq heap_wf_chain lo_def hi_def HEAP_SIZE_def)
  moreover have "free_bytes (free_blocks (init_heap a empty_heap)) = {unat a..<unat a + unat HEAP_SIZE}"
    using assms by (simp add: init_heap_eq lo_def hi_def)
  ultimately show ?case by (simp add: pool.pool_ok_def)
next
  case (reach_alloc h live n align offset h' ptr)
  have wf: "heap_wf h" using reach_alloc.IH by (simp add: pool.pool_ok_def)
  show ?case
  proof (cases "ptr = NULL")
    case True
    then have "h' = h" using reach_alloc.hyps(2) wf alloc_memblock_NULL by blast
    with True show ?thesis using reach_alloc.IH by simp
  next
    case False
    then have "heap_acquire vo (n, align, offset) h = Some (h', (ptr, n))"
      using reach_alloc.hyps by (simp add: heap_acquire_def)
    from pool.acquire_law [OF wf this] pool.pool_ok_acquire [OF _ this] show ?thesis
      using reach_alloc.IH False by auto
  qed
next
  case (reach_free h live x)
  have sub: "set (remove1 x live) \<subseteq> set live" by (rule set_remove1_subset)
  have "pool.pool_ok (heap_release x h) (remove1 x live)"
    using reach_free by (intro pool.pool_ok_release) auto
  moreover have "free_bytes (free_blocks (heap_release x h)) = free_bytes (free_blocks h) \<union> block_region x"
    using reach_free by (intro pool.release_law [THEN conjunct2]) (auto simp: pool.pool_ok_def)
  ultimately show ?case
    using reach_free.IH reach_free.hyps(2) sub unfolding heap_release_def by blast
qed

text \<open>
  C3: along every history of allocations and frees the free list keeps what
  \<^verbatim>\<open>check_blocks()\<close> asserts, live blocks never overlap each other or the free
  memory, and all of them stay inside the heap array.
\<close>

theorem heap_history_safe:
  assumes "heap_reach vo a h live" "a \<noteq> NULL" "unat a + unat HEAP_SIZE < 2 ^ 63"
  shows "check_blocks h \<and> disjoint_all block_region live
    \<and> (\<forall>x \<in> set live. block_region x \<inter> free_bytes (free_blocks h) = {}
         \<and> block_region x \<subseteq> {unat a..<unat a + unat HEAP_SIZE})"
  using heap_reach_ok [OF assms] by (auto simp: pool.pool_ok_def heap_wf_def)

definition example_heap1 :: heap where
  "example_heap1 = empty_heap\<lparr>free_blocks := [\<lparr>mb_addr = 0x100080, mb_size = 0x7ff80\<rparr>],
     freemem := 0x7ff80, usedmem := 0x80, maxusedmem := 0x80\<rparr>"

lemma example_reach: "heap_reach 0 0x100000 example_heap1 [(0x100000, 100)]"
proof -
  have "(0x100000 :: u64) \<noteq> NULL" by (simp add: NULL_def)
  then have "alloc_memblock [] 0 100 1 0 (init_heap 0x100000 empty_heap) = Some (example_heap1, 0x100000)"
    unfolding init_heap_eq [OF \<open>_ \<noteq> NULL\<close>]
    by (simp add: heap_eval HEAP_SIZE_def empty_heap_def example_heap1_def)
  from reach_alloc [OF reach_init this] show ?thesis by (simp add: NULL_def)
qed

theorem heap_history_safe_witness:
  "check_blocks example_heap1 \<and>
   block_region (0x100000, 100) \<inter> free_bytes (free_blocks example_heap1) = {}"
  using heap_history_safe [OF example_reach] by (simp add: NULL_def HEAP_SIZE_def)

text \<open>
  C25: the statistics balance along every history: the used memory is the sum
  of the rounded sizes of the live blocks and the free memory is the rest of
  the heap.
\<close>

theorem heap_history_accounting:
  assumes "heap_reach vo a h live" "a \<noteq> NULL" "unat a + unat HEAP_SIZE < 2 ^ 63"
  shows "usedmem h = (\<Sum>x\<leftarrow>live. actual_size (snd x)) \<and> freemem h + usedmem h = HEAP_SIZE"
  using assms(1)
proof (induction rule: heap_reach.induct)
  case reach_init
  show ?case unfolding init_heap_eq [OF assms(2)] by (simp add: empty_heap_def)
next
  case (reach_alloc h live n align offset h' ptr)
  have wf: "heap_wf h" using heap_reach_ok [OF reach_alloc.hyps(1) assms(2,3)] by (simp add: pool.pool_ok_def)
  show ?case
  proof (cases "ptr = NULL")
    case True
    then have "h' = h" using reach_alloc.hyps(2) wf alloc_memblock_NULL by blast
    with True show ?thesis using reach_alloc.IH by auto
  next
    case False
    note r = alloc_memblock_Some(5,6) [OF wf reach_alloc.hyps(2) False]
    have "freemem h' + usedmem h' = HEAP_SIZE"
      using reach_alloc.IH [THEN conjunct2] unfolding r by simp
    moreover have "usedmem h' = actual_size n + (\<Sum>x\<leftarrow>live. actual_size (snd x))"
      using reach_alloc.IH r(1) by (simp add: add.commute)
    ultimately show ?thesis using False by simp
  qed
next
  case (reach_free h live x)
  have "fst x \<noteq> NULL"
    using heap_reach_ok [OF reach_free.hyps(1) assms(2,3)] reach_free.hyps(2)
    by (auto simp: pool.pool_ok_def block_valid_def)
  then have "usedmem (free_memblock (fst x) (snd x) h) = usedmem h - actual_size (snd x)"
    "freemem (free_memblock (fst x) (snd x) h) = freemem h + actual_size (snd x)"
    by (simp_all add: free_memblock_def Let_def)
  then show ?case
    using reach_free.IH sum_list_map_remove1 [OF reach_free.hyps(2), of "\<lambda>x. actual_size (snd x)"]
    by (auto simp: add.assoc)
qed

theorem heap_history_accounting_witness: "freemem example_heap1 + usedmem example_heap1 = HEAP_SIZE"
  using heap_history_accounting [OF example_reach] by (auto simp: NULL_def HEAP_SIZE_def)

section \<open>Allocation followed by freeing\<close>

text \<open>
  A heap is granular when every free block starts at a physical address that is
  a multiple of the minimum block size, has a size that is one too, and does
  not straddle the 4GB boundary.
\<close>

definition granular :: "u64 \<Rightarrow> heap \<Rightarrow> bool" where
  "granular vo h \<longleftrightarrow> (\<forall>b \<in> set (free_blocks h). 32 dvd unat (virt_to_phys vo (mb_addr b))
     \<and> 32 dvd unat (mb_size b) \<and> (hi b \<le> 2 ^ 32 \<or> 2 ^ 32 \<le> lo b))"

lemma dvd_32_mask: "32 dvd unat x \<longleftrightarrow> x AND mask 5 = 0" for x :: u64
  by (simp add: word_unat_eq_iff unat_and_mask dvd_eq_mod_eq_0)

lemma pre_size_dvd:
  assumes "32 dvd unat offset" "32 dvd unat (virt_to_phys vo (mb_addr b))"
  shows "32 dvd unat (pre_size vo (align_mask align) offset b)"
proof -
  have "unat (offset - virt_to_phys vo (mb_addr b)) mod 32 = 0"
    using assms by (auto simp: unat_sub_if' elim!: dvdE)
  then have "(offset - virt_to_phys vo (mb_addr b)) AND mask 5 = 0"
    using dvd_32_mask by (auto simp: dvd_eq_mod_eq_0)
  moreover have "pre_size vo (align_mask align) offset b AND mask 5 =
      ((offset - virt_to_phys vo (mb_addr b)) AND mask 5) AND align_mask align"
    unfolding pre_size_def by (simp only: ac_simps)
  ultimately have "pre_size vo (align_mask align) offset b AND mask 5 = 0"
    by (simp only: and_zero_eq zero_and_eq)
  then show ?thesis by (simp only: dvd_32_mask)
qed

lemma alloc_scan_exact:
  assumes wf: "heap_wf h" and g: "granular vo h" and off: "32 dvd unat offset"
    and a: "actual_size n \<noteq> 0"
    and scan: "alloc_scan vo (actual_size n) (align_mask align) offset (free_blocks h) = Some (bs', ptr)"
  shows "free_bytes bs' = free_bytes (free_blocks h) - {unat ptr..<unat ptr + unat (actual_size n)}"
proof -
  from alloc_scan_Some [OF scan] obtain us b vs where
      bs: "free_blocks h = us @ b # vs" and f: "fits vo (actual_size n) (align_mask align) offset b"
      and bs': "bs' = us @ split_block (pre_size vo (align_mask align) offset b) (actual_size n) b @ vs"
      and ptr: "ptr = mb_addr b + pre_size vo (align_mask align) offset b" by blast
  let ?pre = "pre_size vo (align_mask align) offset b" and ?a = "actual_size n"
  have fit: "unat ?pre + unat ?a \<le> unat (mb_size b)" using f by (simp add: fits_def)
  have chain: "chain 0 (us @ b # vs)" using wf by (simp add: heap_wf_chain bs)
  note mid = chain_middle [OF chain]
  have p: "unat ptr = lo b + unat ?pre"
    unfolding ptr by (rule split_block_range(1) [OF mid(3) fit])
  have b: "32 dvd unat (virt_to_phys vo (mb_addr b))" "32 dvd unat (mb_size b)"
    using g by (auto simp: granular_def bs)
  have d: "32 dvd unat ?pre" by (rule pre_size_dvd [OF off b(1)])
  have d': "32 dvd unat (mb_size b) - (unat ?pre + unat ?a)"
    using d b(2) actual_size_cases(4) [OF a] by (intro dvd_diff_nat dvd_add)
  have c: "32 \<le> unat ?pre \<or> ?pre = 0"
    using dvd_imp_le [OF d] by (cases "unat ?pre = 0") (auto simp: unat_eq_0)
  have c': "unat ?pre + unat ?a + 32 \<le> unat (mb_size b) \<or> unat ?pre + unat ?a = unat (mb_size b)"
    using dvd_imp_le [OF d'] fit by linarith
  have "free_bytes (split_block ?pre ?a b) = {lo b..<hi b} - {unat ptr..<unat ptr + unat ?a}"
    unfolding p using chain fit actual_size_cases(5) [OF a] c c'
    by (intro split_block_chain(3) [of _ b vs]) (auto simp: chain_append)
  moreover have "{unat ptr..<unat ptr + unat ?a} \<subseteq> {lo b..<hi b}"
    using p fit by (auto simp: hi_def lo_def)
  ultimately show ?thesis
    unfolding bs bs' free_bytes_simps using mid(1,2) by blast
qed

text \<open>
  C26: in a granular heap, and for an offset that is a multiple of the minimum
  block size, freeing a block right after allocating it restores the free list
  and the statistics exactly: nothing is leaked by the splitting of blocks.
\<close>

theorem alloc_free_restores:
  assumes wf: "heap_wf h" and g: "granular vo h" and off: "32 dvd unat offset"
    and ret: "alloc_memblock [] vo n align offset h = Some (h', ptr)" "ptr \<noteq> NULL"
  shows "free_blocks (free_memblock ptr n h') = free_blocks h
    \<and> freemem (free_memblock ptr n h') = freemem h \<and> usedmem (free_memblock ptr n h') = usedmem h"
proof -
  note s = alloc_memblock_Some [OF wf ret]
  let ?r = "{unat ptr..<unat ptr + unat (actual_size n)}"
  have wf': "heap_wf h'" and r: "?r \<subseteq> free_bytes (free_blocks h)"
    and bound: "unat ptr + unat (actual_size n) < 2 ^ 63"
    using s(4) by (auto simp: alloc_spec_def heap_wf_chain)
  have exact: "free_bytes (free_blocks h') = free_bytes (free_blocks h) - ?r"
    by (rule alloc_scan_exact [OF wf g off s(1,2)])
  then have "?r \<inter> free_bytes (free_blocks h') = {}" by blast
  from free_memblock_spec [OF wf' ret(2) s(1) bound this]
  have "chain 0 (free_blocks (free_memblock ptr n h'))"
    "free_bytes (free_blocks (free_memblock ptr n h')) = free_bytes (free_blocks h)"
    using exact r by (auto simp: heap_wf_chain)
  then have "free_blocks (free_memblock ptr n h') = free_blocks h"
    using wf unfolding heap_wf_chain by (intro chain_canonical)
  moreover have "freemem (free_memblock ptr n h') = freemem h" "usedmem (free_memblock ptr n h') = usedmem h"
    using s(5,6) ret(2) by (simp_all add: free_memblock_def Let_def)
  ultimately show ?thesis by blast
qed

lemma example_heap_granular: "granular 0 example_heap"
  by (simp add: granular_def example_heap_def virt_to_phys_def hi_def)

theorem alloc_free_restores_witness:
  "free_blocks (free_memblock 0x1000 100 (example_heap\<lparr>free_blocks := [\<lparr>mb_addr = 0x1080, mb_size = 0x380\<rparr>],
     freemem := 0x380, usedmem := 0x80, maxusedmem := 0x80\<rparr>)) = free_blocks example_heap"
  using alloc_free_restores [OF example_heap_wf example_heap_granular _ example_alloc] by (simp add: NULL_def)


section \<open>Reallocation\<close>

text \<open>
  \<open>old_live h p\<close>: the pointer \<open>p\<close> is the data of a block that \<^verbatim>\<open>malloc()\<close> has
  handed out, with the size in its header.
\<close>

definition old_live :: "heap \<Rightarrow> u64 \<Rightarrow> bool" where
  "old_live h p \<longleftrightarrow> p \<noteq> NULL \<and> p \<noteq> NOWHERE
     \<and> block_valid (p - DATA_OFFSET, hdr h (p - DATA_OFFSET))
     \<and> block_region (p - DATA_OFFSET, hdr h (p - DATA_OFFSET)) \<inter> free_bytes (free_blocks h) = {}"

lemma block_region_nonempty: "block_valid x \<Longrightarrow> unat (fst x) \<in> block_region x"
  using actual_size_cases(5) [of "snd x"] by (auto simp: block_valid_def block_region_def)

lemma realloc_Some:
  assumes wf: "heap_wf h" and live: "old_live h p" and n: "n \<noteq> 0"
    and ret: "realloc [] vo p n h = Some (h', q)" and q: "q \<noteq> NULL"
  defines "old \<equiv> (p - DATA_OFFSET, hdr h (p - DATA_OFFSET))"
    and "new \<equiv> (q - DATA_OFFSET, n + DATA_OFFSET)"
  obtains h1 where "heap_acquire vo (n + DATA_OFFSET, 1, 0) h = Some (h1, new)"
    "block_region new \<inter> block_region old = {}"
    "h' = free_memblock (fst old) (snd old) (h1\<lparr>hdr := (hdr h)(fst new := n + DATA_OFFSET),
       store := memcpy q p (min (snd old - DATA_OFFSET) n) (store h)\<rparr>)"
    "hdr h1 = hdr h" "store h1 = store h"
proof -
  from ret n q obtain h1 b where
      alloc: "alloc_memblock [] vo (n + DATA_OFFSET) 1 0 h = Some (h1, b)" "b \<noteq> NULL"
      and r: "q = b + DATA_OFFSET"
        "h' = realloc_finish p n q (h1\<lparr>hdr := (hdr h1)(b := n + DATA_OFFSET)\<rparr>)"
    by (auto simp: realloc_def Let_def split: if_splits option.splits)
  have new: "new = (b, n + DATA_OFFSET)" by (simp add: new_def r(1))
  have acq: "heap_acquire vo (n + DATA_OFFSET, 1, 0) h = Some (h1, new)"
    using alloc by (simp add: heap_acquire_def new)
  have "block_valid old" "block_region old \<inter> free_bytes (free_blocks h) = {}"
    using live by (auto simp: old_live_def old_def)
  moreover have "block_valid new \<and> block_region new \<subseteq> free_bytes (free_blocks h)"
    using pool.acquire_law [OF wf acq] by blast
  ultimately have disj: "block_region new \<inter> block_region old = {}"
    and "unat (fst old) \<in> block_region old" "unat (fst new) \<in> block_region new"
    by (blast, blast intro: block_region_nonempty, blast intro: block_region_nonempty)
  then have "fst new \<noteq> fst old" by (metis disjoint_iff)
  note h1 = alloc_memblock_Some(7,8) [OF wf alloc]
  have min: "(if x < y then x else y) = min x y" for x y :: u64 by (auto simp: min_def)
  have "h' = free_memblock (fst old) (snd old) (h1\<lparr>hdr := (hdr h)(fst new := n + DATA_OFFSET),
       store := memcpy q p (min (snd old - DATA_OFFSET) n) (store h)\<rparr>)"
    using live \<open>fst new \<noteq> fst old\<close> unfolding r(2) realloc_finish_def Let_def min
    by (simp add: h1 old_live_def old_def new)
  with that [OF acq disj _ h1] show thesis by blast
qed

text \<open>
  C24: when \<open>realloc\<close> returns a new block for a live one, the new data region
  holds the old contents up to the smaller of the two sizes, the copy was
  between regions that do not overlap, the new size is in the header, and the
  old block has become free memory of a heap that is still well-formed.
\<close>

theorem realloc_preserves_contents:
  assumes wf: "heap_wf h" and live: "old_live h p" and n: "n \<noteq> 0"
    and ret: "realloc [] vo p n h = Some (h', q)" and q: "q \<noteq> NULL"
  shows "heap_wf h'
    \<and> (\<forall>i < min (hdr h (p - DATA_OFFSET) - DATA_OFFSET) n. store h' (q + i) = store h (p + i))
    \<and> hdr h' (q - DATA_OFFSET) = n + DATA_OFFSET
    \<and> block_region (q - DATA_OFFSET, n + DATA_OFFSET)
        \<inter> block_region (p - DATA_OFFSET, hdr h (p - DATA_OFFSET)) = {}
    \<and> block_region (p - DATA_OFFSET, hdr h (p - DATA_OFFSET)) \<subseteq> free_bytes (free_blocks h')"
proof -
  let ?old = "(p - DATA_OFFSET, hdr h (p - DATA_OFFSET))" and ?new = "(q - DATA_OFFSET, n + DATA_OFFSET)"
  from realloc_Some [OF assms] obtain h1 where
      acq: "heap_acquire vo (n + DATA_OFFSET, 1, 0) h = Some (h1, ?new)"
      and disj: "block_region ?new \<inter> block_region ?old = {}"
      and h': "h' = heap_release ?old (h1\<lparr>hdr := (hdr h)(q - DATA_OFFSET := n + DATA_OFFSET),
         store := memcpy q p (min (hdr h (p - DATA_OFFSET) - DATA_OFFSET) n) (store h)\<rparr>)"
    unfolding heap_release_def fst_conv snd_conv by metis
  let ?h2 = "h1\<lparr>hdr := (hdr h)(q - DATA_OFFSET := n + DATA_OFFSET),
         store := memcpy q p (min (hdr h (p - DATA_OFFSET) - DATA_OFFSET) n) (store h)\<rparr>"
  have "heap_wf h1" "free_bytes (free_blocks h1) \<subseteq> free_bytes (free_blocks h)"
    using pool.acquire_law [OF wf acq] by blast+
  then have "heap_wf ?h2" "block_valid ?old" "block_region ?old \<inter> free_bytes (free_blocks ?h2) = {}"
    using live by (auto simp: heap_wf_chain old_live_def)
  from pool.release_law [OF this] have "heap_wf h'" "block_region ?old \<subseteq> free_bytes (free_blocks h')"
    unfolding h' by blast+
  moreover have "store h' = store ?h2" "hdr h' = hdr ?h2"
    unfolding h' heap_release_def by (simp_all add: free_memblock_def Let_def)
  then have "hdr h' (q - DATA_OFFSET) = n + DATA_OFFSET"
    "\<forall>i < min (hdr h (p - DATA_OFFSET) - DATA_OFFSET) n. store h' (q + i) = store h (p + i)"
    by (simp_all add: memcpy_def)
  ultimately show ?thesis using disj by blast
qed

definition example_heap2 :: heap where
  "example_heap2 = example_heap\<lparr>free_blocks := [\<lparr>mb_addr = 0x1080, mb_size = 0x380\<rparr>],
     hdr := (\<lambda>_. 0)(0x1000 := 100), store := (\<lambda>a. if a = 0x1009 then 42 else 0)\<rparr>"

theorem realloc_preserves_contents_witness:
  "\<exists>h'. realloc [] 0 0x1008 200 example_heap2 = Some (h', 0x1088) \<and> heap_wf h' \<and> store h' 0x1089 = 42"
proof -
  have wf: "heap_wf example_heap2"
    by (simp add: heap_wf_chain example_heap2_def example_heap_def lo_def hi_def)
  have live: "old_live example_heap2 0x1008"
    by (simp add: old_live_def heap_consts block_valid_def block_region_def unat_actual_size
        example_heap2_def example_heap_def lo_def hi_def flip: unat_eq_0)
  obtain h' where ret: "realloc [] 0 0x1008 200 example_heap2 = Some (h', 0x1088)"
    by (simp add: realloc_def heap_eval example_heap2_def example_heap_def)
  from realloc_preserves_contents [OF wf live _ ret]
  have "heap_wf h'" "\<forall>i < min (hdr example_heap2 0x1000 - 8) 200.
      store h' (0x1088 + i) = store example_heap2 (0x1008 + i)"
    by (simp_all add: heap_consts)
  from spec [OF this(2), of 1] have "store h' 0x1089 = store example_heap2 0x1009"
    by (simp add: example_heap2_def)
  with \<open>heap_wf h'\<close> ret show ?thesis by (simp add: example_heap2_def)
qed

end
