(* ===== verification/Checksum.thy ===== *)
theory Checksum
  imports Prelude
begin

text \<open>
  The Internet checksum in its portable form (\<open>net/tcpip.c\<close>) and in the x86-64
  form that works on 64-bit words with the carry flag
  (\<open>arch/x86/core/x86_tcpip.c\<close>).  Both are proved equal to a reference
  definition over the natural numbers, hence to each other, and a packet whose
  checksum field was filled in by one side is accepted by the other.
\<close>

section \<open>The portable checksum\<close>

definition TCPIP_EMPTY_CSUM :: u16 where
  "TCPIP_EMPTY_CSUM = 0"

definition be16_to_cpu :: "u16 \<Rightarrow> u16" where
  "be16_to_cpu v = (push_bit 8 v) OR (drop_bit 8 v)"

definition le16_to_cpu :: "u16 \<Rightarrow> u16" where
  "le16_to_cpu v = v"

definition cksum_step :: "nat \<Rightarrow> u8 \<Rightarrow> u32 \<Rightarrow> u32" where
  "cksum_step i b cksum =
     (let value = ucast b :: u32;
          value = (if i mod 2 = 1 then ucast (be16_to_cpu (ucast value))
                   else ucast (le16_to_cpu (ucast value)));
          cksum = cksum + value
      in if cksum > 0xffff then cksum - 0xffff else cksum)"

fun cksum_loop :: "nat \<Rightarrow> u8 list \<Rightarrow> u32 \<Rightarrow> u32" where
  "cksum_loop i [] cksum = cksum"
| "cksum_loop i (b # data) cksum = cksum_loop (Suc i) data (cksum_step i b cksum)"

definition generic_tcpip_continue_chksum :: "u16 \<Rightarrow> u8 list \<Rightarrow> u16" where
  "generic_tcpip_continue_chksum partial data =
     ucast (NOT (cksum_loop 0 data ((NOT (ucast partial)) AND 0xffff)))"

section \<open>The x86-64 checksum\<close>

text \<open>
  The state of the assembly routine: the accumulator register, the carry flag,
  and the part of the buffer not yet loaded.  \<open>lods\<close>, \<open>loop\<close>, \<open>mov\<close> and
  \<open>jmp\<close> leave the carry flag alone, so only the add-with-carry instructions
  appear here.
\<close>

record x86_sum =
  x_sum :: u64
  x_cf :: bool

definition adcw :: "u16 \<Rightarrow> x86_sum \<Rightarrow> x86_sum" where
  "adcw w s =
     (let t = unat (ucast (x_sum s) :: u16) + unat w + of_bool (x_cf s)
      in \<lparr> x_sum = (x_sum s AND NOT 0xffff) OR ucast (of_nat t :: u16), x_cf = (t \<ge> 2 ^ 16) \<rparr>)"

definition adcq :: "u64 \<Rightarrow> x86_sum \<Rightarrow> x86_sum" where
  "adcq w s =
     (let t = unat (x_sum s) + unat w + of_bool (x_cf s)
      in \<lparr> x_sum = of_nat t, x_cf = (t \<ge> 2 ^ 64) \<rparr>)"

definition adcb_low :: "u8 \<Rightarrow> x86_sum \<Rightarrow> x86_sum" where
  "adcb_low b s =
     (let t = unat (ucast (x_sum s) :: u8) + unat b + of_bool (x_cf s)
      in \<lparr> x_sum = (x_sum s AND NOT 0xff) OR ucast (of_nat t :: u8), x_cf = (t \<ge> 2 ^ 8) \<rparr>)"

definition adcb_high :: "u8 \<Rightarrow> x86_sum \<Rightarrow> x86_sum" where
  "adcb_high b s =
     (let t = unat (ucast (drop_bit 8 (x_sum s)) :: u8) + unat b + of_bool (x_cf s)
      in \<lparr> x_sum = (x_sum s AND NOT 0xff00) OR push_bit 8 (ucast (of_nat t :: u8)), x_cf = (t \<ge> 2 ^ 8) \<rparr>)"

text \<open>Little-endian loads of a 16-bit and of a 64-bit word.\<close>

fun le_word :: "u8 list \<Rightarrow> nat" where
  "le_word [] = 0"
| "le_word (b # bs) = unat b + 256 * le_word bs"

fun lodsw_adcw :: "nat \<Rightarrow> u8 list \<times> x86_sum \<Rightarrow> u8 list \<times> x86_sum" where
  "lodsw_adcw 0 st = st"
| "lodsw_adcw (Suc n) (data, s) =
     lodsw_adcw n (drop 2 data, adcw (of_nat (le_word (take 2 data))) s)"

fun lodsq_adcq :: "nat \<Rightarrow> u8 list \<times> x86_sum \<Rightarrow> u8 list \<times> x86_sum" where
  "lodsq_adcq 0 st = st"
| "lodsq_adcq (Suc n) (data, s) =
     lodsq_adcq n (drop 8 data, adcq (of_nat (le_word (take 8 data))) s)"

text \<open>The unrolled loop of sixteen steps, entered so that the first pass does
  \<open>loop_partial_count\<close> of them.\<close>

fun unrolled_loop :: "nat \<Rightarrow> u8 list \<times> x86_sum \<Rightarrow> u8 list \<times> x86_sum" where
  "unrolled_loop 0 st = st"
| "unrolled_loop (Suc n) st = unrolled_loop n (lodsq_adcq 16 st)"

definition fold_sum :: "x86_sum \<Rightarrow> x86_sum" where
  "fold_sum s =
     (let w = x_sum s;
          s = s \<lparr> x_sum := ucast (ucast w :: u16) \<rparr>;
          s = adcw (ucast (drop_bit 16 w)) s;
          s = adcw (ucast (drop_bit 32 w)) s;
          s = adcw (ucast (drop_bit 48 w)) s
      in adcw 0 (adcw 0 s))"

definition tcpip_continue_chksum :: "u16 \<Rightarrow> u64 \<Rightarrow> u8 list \<Rightarrow> u16" where
  "tcpip_continue_chksum partial addr data =
     (let len = length data;
          initial_word_count = (if len \<ge> 8 then unat ((- addr) AND 7) div 2 else 0);
          len = len - initial_word_count * 2;
          loop_count = len div (8 * 16);
          loop_partial_count = (len mod (8 * 16)) div 8;
          final_word_count = (len mod 8) div 2;
          final_byte = len mod 2;
          s = \<lparr> x_sum = ucast (NOT partial), x_cf = False \<rparr>;
          (data, s) = lodsw_adcw initial_word_count (data, s);
          (data, s) = unrolled_loop loop_count (lodsq_adcq loop_partial_count (data, s));
          (data, s) = lodsw_adcw final_word_count (data, s);
          s = (if final_byte = 1 then adcb_high 0 (adcb_low (hd data) s) else s)
      in NOT (ucast (x_sum (fold_sum s))))"

definition tcpip_chksum :: "u64 \<Rightarrow> u8 list \<Rightarrow> u16" where
  "tcpip_chksum addr data = tcpip_continue_chksum TCPIP_EMPTY_CSUM addr data"

section \<open>Reference definition of the checksum\<close>

text \<open>
  The sum of the bytes with weight 1 at even and 256 at odd positions, and its
  representative in the one's complement: zero only for zero, and otherwise a
  number from 1 to 65535.
\<close>

fun byte_sum :: "nat \<Rightarrow> u8 list \<Rightarrow> nat" where
  "byte_sum i [] = 0"
| "byte_sum i (b # bs) = (if i mod 2 = 1 then 256 * unat b else unat b) + byte_sum (Suc i) bs"

definition ones_rep :: "nat \<Rightarrow> nat" where
  "ones_rep n = (if n = 0 then 0 else (n - 1) mod 65535 + 1)"

definition same_sum :: "nat \<Rightarrow> nat \<Rightarrow> bool" where
  "same_sum m n \<longleftrightarrow> m mod 65535 = n mod 65535 \<and> (m = 0 \<longleftrightarrow> n = 0)"

lemma same_sum_refl: "same_sum n n"
  by (simp add: same_sum_def)

lemma same_sum_trans: "same_sum k m \<Longrightarrow> same_sum m n \<Longrightarrow> same_sum k n"
  by (simp add: same_sum_def)

lemma same_sum_add:
  assumes "same_sum a b" and "same_sum c d"
  shows "same_sum (a + c) (b + d)"
  using assms unfolding same_sum_def by (metis add_is_0 mod_add_cong)

lemma ones_rep_le: "ones_rep n \<le> 65535"
proof -
  have "(n - 1) mod 65535 + 1 \<le> 65535"
    using mod_less_divisor [of 65535 "n - 1"] by linarith
  then show ?thesis
    unfolding ones_rep_def by (split if_split) blast
qed

lemma ones_rep_same: "same_sum (ones_rep n) n"
proof (cases n)
  case 0
  then show ?thesis by (simp add: same_sum_def ones_rep_def)
next
  case (Suc m)
  have "Suc (m mod 65535) mod 65535 = Suc m mod 65535" by (rule mod_Suc_eq)
  with Suc show ?thesis by (simp add: same_sum_def ones_rep_def)
qed

lemma ones_rep_unique:
  assumes "same_sum x n" and "x \<le> 65535"
  shows "ones_rep n = x"
proof -
  have s: "same_sum x (ones_rep n)"
    using assms(1) ones_rep_same [of n] by (simp add: same_sum_def)
  have e: "w mod 65535 = (if w = 65535 then 0 else w)" if "w \<le> 65535" for w :: nat
    using that by (cases "w = 65535") (simp_all add: le_less)
  have "y = z" if "same_sum y z" "y \<le> 65535" "z \<le> 65535" for y z
    using that(1) unfolding same_sum_def e [OF that(2)] e [OF that(3)]
    by (auto split: if_splits)
  from this [OF s assms(2) ones_rep_le] show ?thesis by simp
qed

lemma byte_sum_append: "byte_sum i (xs @ ys) = byte_sum i xs + byte_sum (i + length xs) ys"
  by (induction xs arbitrary: i) simp_all

lemma byte_sum_parity: "byte_sum (Suc (Suc i)) xs = byte_sum i xs"
  by (induction xs arbitrary: i) simp_all

lemma byte_sum_even: "even i \<Longrightarrow> byte_sum i xs = byte_sum 0 xs"
proof (induction i rule: less_induct)
  case (less i)
  show ?case
  proof (cases "i = 0")
    case False
    with less.prems have "2 \<le> i" by (cases i) (auto simp: even_Suc odd_pos Suc_le_eq)
    then obtain j where j: "i = Suc (Suc j)" by (metis add_2_eq_Suc le_Suc_ex)
    with less.prems have "byte_sum j xs = byte_sum 0 xs" using less.IH [of j] by simp
    with j show ?thesis by (simp add: byte_sum_parity)
  qed simp
qed

lemma unat_be16_byte: "unat (be16_to_cpu (ucast (b :: u8))) = 256 * unat b"
proof -
  have "be16_to_cpu (ucast b) = push_bit 8 (ucast b)"
    unfolding be16_to_cpu_def
    by (rule bit_word_eqI) (auto simp: bit_simps dest: bit_imp_le_length)
  moreover have "unat (push_bit 8 (ucast b :: u16)) = 256 * unat b"
    using unat_u8_less [of b]
    by (simp add: push_bit_eq_mult unat_word_ariths unat_ucast_upcast)
  ultimately show ?thesis by simp
qed

lemma unat_cksum_step:
  assumes "unat cksum \<le> 65535"
  shows "same_sum (unat (cksum_step i b cksum)) (unat cksum + byte_sum i [b])"
    and "unat (cksum_step i b cksum) \<le> 65535"
proof -
  define v :: u32 where
    "v = (if i mod 2 = 1 then ucast (be16_to_cpu (ucast (ucast b :: u32)))
          else ucast (le16_to_cpu (ucast (ucast b :: u32))))"
  have down: "ucast (ucast b :: u32) = (ucast b :: u16)" by (rule bit_word_eqI) (auto simp: bit_simps)
  have v: "unat v = byte_sum i [b]"
    by (simp add: v_def down unat_ucast_upcast unat_be16_byte le16_to_cpu_def)
  have "unat v \<le> 65280" using unat_u8_less [of b] by (simp add: v)
  with assms have add: "unat (cksum + v) = unat cksum + unat v"
    by (simp add: unat_plus_if')
  have sub: "unat (cksum + v - 0xffff) = unat cksum + unat v - 65535" if "cksum + v > 0xffff"
    using that add by (simp add: unat_sub word_less_nat_alt word_le_nat_alt)
  have step: "cksum_step i b cksum = (if cksum + v > 0xffff then cksum + v - 0xffff else cksum + v)"
    by (simp add: cksum_step_def v_def Let_def)
  show "unat (cksum_step i b cksum) \<le> 65535"
    using assms \<open>unat v \<le> 65280\<close> add sub unfolding step by (auto simp: word_less_nat_alt)
  show "same_sum (unat (cksum_step i b cksum)) (unat cksum + byte_sum i [b])"
    using add sub le_mod_geq [of 65535 "unat cksum + unat v"] unfolding step v [symmetric]
    by (auto simp: word_less_nat_alt same_sum_def)
qed

lemma cksum_loop_sum:
  assumes "unat cksum \<le> 65535"
  shows "same_sum (unat (cksum_loop i data cksum)) (unat cksum + byte_sum i data)
    \<and> unat (cksum_loop i data cksum) \<le> 65535"
  using assms
proof (induction data arbitrary: i cksum)
  case (Cons b data)
  note step = unat_cksum_step [OF Cons.prems, of i b]
  have "same_sum (unat (cksum_step i b cksum) + byte_sum (Suc i) data)
      (unat cksum + byte_sum i [b] + byte_sum (Suc i) data)"
    by (rule same_sum_add [OF step(1) same_sum_refl])
  with Cons.IH [OF step(2), of "Suc i"] show ?case
    by (auto intro: same_sum_trans simp: add.assoc)
qed (simp add: same_sum_refl)

text \<open>The value both checksum routines return.\<close>

definition csum_spec :: "u16 \<Rightarrow> u8 list \<Rightarrow> u16" where
  "csum_spec partial data = NOT (of_nat (ones_rep (unat (NOT partial) + byte_sum 0 data)))"

lemma generic_tcpip_continue_chksum_spec:
  "generic_tcpip_continue_chksum partial data = csum_spec partial data"
proof -
  let ?c0 = "(NOT (ucast partial)) AND 0xffff :: u32"
  have c0: "?c0 = ucast (NOT partial)"
    using bit_mask_iff [of 16, where ?'a = "32 word"]
    by (intro bit_word_eqI) (auto simp: bit_simps mask_eq_decr_exp)
  have u0: "unat ?c0 = unat (NOT partial)"
    unfolding c0 by (simp add: unat_ucast_upcast)
  have le: "unat ?c0 \<le> 65535"
    unfolding u0 using unat_u16_less [of "NOT partial"] by linarith
  let ?c = "cksum_loop 0 data ?c0"
  have "ones_rep (unat (NOT partial) + byte_sum 0 data) = unat ?c"
    using cksum_loop_sum [OF le, of 0 data] unfolding u0 by (intro ones_rep_unique) auto
  moreover have "(ucast (NOT ?c) :: u16) = NOT (ucast ?c)"
    by (rule bit_word_eqI) (auto simp: bit_simps)
  moreover have "(ucast ?c :: u16) = of_nat (unat ?c)" by simp
  ultimately show ?thesis
    by (simp only: generic_tcpip_continue_chksum_def csum_spec_def)
qed

section \<open>The assembly routine computes the same sum\<close>

definition x_val :: "x86_sum \<Rightarrow> nat" where
  "x_val s = unat (x_sum s) + of_bool (x_cf s)"

lemma unat_replace_low16:
  "unat (((x :: u64) AND NOT 0xffff) OR ucast (y :: u16)) = unat x div 65536 * 65536 + unat y"
proof -
  have m: "(0xffff :: u64) = mask 16" by (simp add: mask_eq_exp_minus_1)
  have y: "unat (ucast y :: u64) = unat y" by (simp add: unat_ucast_upcast)
  show ?thesis
    using unat_or_low [of "ucast y :: u64" 16 x] unat_u16_less [of y]
    unfolding m y by (simp add: minus_mod_eq_div_mult)
qed

lemma end_around_carry:
  fixes k t :: nat
  assumes "t < 131072"
  shows "(k * 65536 + t mod 65536 + of_bool (65536 \<le> t)) mod 65535 = (k * 65536 + t) mod 65535"
proof (cases "65536 \<le> t")
  case True
  then obtain r where t: "t = 65536 + r" using le_Suc_ex by blast
  with assms have "t mod 65536 = r" by simp
  with t True show ?thesis
    using mod_add_self2 [of "k * 65536 + r + 1" 65535] by (simp add: ac_simps)
next
  case False
  then show ?thesis by simp
qed

lemma adcw_val:
  assumes "same_sum (x_val s) n"
  shows "same_sum (x_val (adcw w s)) (n + unat w)"
proof -
  define k where "k = unat (x_sum s) div 65536"
  define t where "t = unat (x_sum s) mod 65536 + unat w + of_bool (x_cf s)"
  have s: "unat (x_sum s) = k * 65536 + unat (x_sum s) mod 65536"
    by (simp add: k_def)
  have "unat (x_sum s) mod 65536 < 65536" by simp
  then have t: "t < 131072"
    unfolding t_def using unat_u16_less [of w] by (auto simp: of_bool_def)
  have t0: "t mod 65536 = 0 \<and> t < 65536 \<longleftrightarrow> t = 0"
    by (cases "t < 65536") auto
  have lo: "unat (ucast (x_sum s) :: u16) = unat (x_sum s) mod 65536"
    by (simp add: unat_ucast_mod)
  have tt: "unat (of_nat t :: u16) = t mod 65536"
    by (simp add: unat_of_nat)
  have "x_val (adcw w s) = k * 65536 + t mod 65536 + of_bool (65536 \<le> t)"
    unfolding x_val_def adcw_def Let_def lo t_def [symmetric] x86_sum.simps
      unat_replace_low16 tt k_def by simp
  moreover have "x_val s + unat w = k * 65536 + t"
    using s by (simp add: x_val_def t_def)
  ultimately have "same_sum (x_val (adcw w s)) (x_val s + unat w)"
    using end_around_carry [OF t, of k] t0 by (auto simp: same_sum_def)
  then show ?thesis
    using assms by (metis same_sum_trans same_sum_add same_sum_refl)
qed

lemma adcq_val:
  assumes "same_sum (x_val s) n"
  shows "same_sum (x_val (adcq w s)) (n + unat w)"
proof -
  let ?t = "unat (x_sum s) + unat w + of_bool (x_cf s)"
  have t: "?t < 2 * 2 ^ 64"
    using unat_u64_less [of "x_sum s"] unat_u64_less [of w] by (auto simp: of_bool_def)
  have of: "unat (of_nat m :: u64) = m mod 2 ^ 64" for m
    by (simp add: unat_of_nat)
  have val: "x_val (adcq w s) = ?t mod 2 ^ 64 + of_bool (2 ^ 64 \<le> ?t)"
    unfolding x_val_def adcq_def Let_def x86_sum.simps of ..
  have "same_sum (?t mod 2 ^ 64 + of_bool (2 ^ 64 \<le> ?t)) ?t"
  proof (cases "2 ^ 64 \<le> ?t")
    case True
    then obtain r where r: "?t = 2 ^ 64 + r" using le_Suc_ex by blast
    with t have "?t mod 2 ^ 64 = r" by simp
    moreover have "(2 ^ 64 + r) mod 65535 = (1 + r) mod (65535 :: nat)"
      by (rule mod_add_cong) simp_all
    ultimately show ?thesis using r True by (simp add: same_sum_def add.commute)
  next
    case False
    then show ?thesis by (simp add: same_sum_refl)
  qed
  moreover have "?t = x_val s + unat w" by (simp add: x_val_def)
  ultimately have "same_sum (x_val (adcq w s)) (x_val s + unat w)"
    unfolding val by (simp only:)
  then show ?thesis
    using assms by (metis same_sum_trans same_sum_add same_sum_refl)
qed

lemma same_sum_mult: "same_sum a b \<Longrightarrow> 0 < k \<Longrightarrow> same_sum (k * a) (k * b)"
  by (auto simp: same_sum_def intro: mod_mult_cong)

lemma le_word_sum:
  "same_sum (le_word bs) (byte_sum 0 bs)" "same_sum (256 * le_word bs) (byte_sum 1 bs)"
proof (induction bs)
  case (Cons b bs)
  have wrap: "same_sum (65536 * le_word bs) (le_word bs)"
    using mod_mult_self2 [of "le_word bs" 65535 "le_word bs"] by (simp add: same_sum_def)
  have parity: "byte_sum (Suc (Suc 0)) bs = byte_sum 0 bs" by (rule byte_sum_parity)
  { case 1
    show ?case using same_sum_add [OF same_sum_refl Cons.IH(2), of "unat b"] by simp }
  { case 2
    show ?case
      using same_sum_add [OF same_sum_refl same_sum_trans [OF wrap Cons.IH(1)], of "256 * unat b"]
      by (simp add: parity algebra_simps) }
qed (simp_all add: same_sum_refl)

lemma le_word_bound: "le_word bs < 256 ^ length bs"
proof (induction bs)
  case (Cons b bs)
  with unat_u8_less [of b] show ?case by simp
qed simp

lemma le_word_take_bound: "k \<le> length data \<Longrightarrow> le_word (take k data) < 256 ^ k"
  using le_word_bound [of "take k data"] by (simp add: min_absorb2)

lemma byte_sum_take:
  assumes "even k" and "k \<le> length data"
  shows "byte_sum 0 (take (k + m) data) = byte_sum 0 (take k data) + byte_sum 0 (take m (drop k data))"
  using assms byte_sum_even [of k "take m (drop k data)"]
  by (simp add: take_add byte_sum_append min_absorb2)

lemma byte_sum_split:
  assumes "even k" and "k \<le> length data"
  shows "byte_sum 0 data = byte_sum 0 (take k data) + byte_sum 0 (drop k data)"
  using byte_sum_take [OF assms, of "length data - k"] assms(2) by simp

lemma lodsw_adcw_val:
  assumes "2 * k \<le> length data" and "same_sum (x_val s) n"
  shows "fst (lodsw_adcw k (data, s)) = drop (2 * k) data
    \<and> same_sum (x_val (snd (lodsw_adcw k (data, s)))) (n + byte_sum 0 (take (2 * k) data))"
  using assms
proof (induction k arbitrary: data s n)
  case (Suc k)
  let ?w = "le_word (take 2 data)"
  have "?w < 256 ^ 2"
    by (rule le_word_take_bound) (use Suc.prems(1) in simp)
  then have "unat (of_nat ?w :: u16) = ?w" by (simp add: unat_of_nat)
  then have s: "same_sum (x_val (adcw (of_nat ?w) s)) (n + byte_sum 0 (take 2 data))"
    using adcw_val [OF Suc.prems(2), of "of_nat ?w"]
      same_sum_add [OF same_sum_refl le_word_sum(1), of n "take 2 data"]
    by (simp only:) (rule same_sum_trans)
  have "byte_sum 0 (take (2 * Suc k) data)
      = byte_sum 0 (take 2 data) + byte_sum 0 (take (2 * k) (drop 2 data))"
    using byte_sum_take [of 2 data "2 * k"] Suc.prems(1) by simp
  with Suc.IH [OF _ s, of "drop 2 data"] Suc.prems(1) show ?case
    by (simp add: add.assoc add.commute)
qed simp

lemma lodsq_adcq_val:
  assumes "8 * k \<le> length data" and "same_sum (x_val s) n"
  shows "fst (lodsq_adcq k (data, s)) = drop (8 * k) data
    \<and> same_sum (x_val (snd (lodsq_adcq k (data, s)))) (n + byte_sum 0 (take (8 * k) data))"
  using assms
proof (induction k arbitrary: data s n)
  case (Suc k)
  let ?w = "le_word (take 8 data)"
  have "?w < 256 ^ 8"
    by (rule le_word_take_bound) (use Suc.prems(1) in simp)
  then have "unat (of_nat ?w :: u64) = ?w" by (simp add: unat_of_nat)
  then have s: "same_sum (x_val (adcq (of_nat ?w) s)) (n + byte_sum 0 (take 8 data))"
    using adcq_val [OF Suc.prems(2), of "of_nat ?w"]
      same_sum_add [OF same_sum_refl le_word_sum(1), of n "take 8 data"]
    by (simp only:) (rule same_sum_trans)
  have "byte_sum 0 (take (8 * Suc k) data)
      = byte_sum 0 (take 8 data) + byte_sum 0 (take (8 * k) (drop 8 data))"
    using byte_sum_take [of 8 data "8 * k"] Suc.prems(1) by simp
  with Suc.IH [OF _ s, of "drop 8 data"] Suc.prems(1) show ?case
    by (simp add: add.assoc add.commute)
qed simp

lemma lodsq_adcq_add: "lodsq_adcq (i + j) st = lodsq_adcq j (lodsq_adcq i st)"
proof (induction i arbitrary: st)
  case (Suc i)
  then show ?case by (cases st) simp
qed simp

lemma unrolled_loop_eq: "unrolled_loop n st = lodsq_adcq (16 * n) st"
proof (induction n arbitrary: st)
  case (Suc n)
  then show ?case using lodsq_adcq_add [of 16 "16 * n" st] by simp
qed simp

lemma unat_replace_byte0:
  "unat (((x :: u64) AND NOT 0xff) OR ucast (y :: u8)) = unat x div 256 * 256 + unat y"
proof -
  have m: "(0xff :: u64) = mask 8" by (simp add: mask_eq_exp_minus_1)
  have y: "unat (ucast y :: u64) = unat y" by (simp add: unat_ucast_upcast)
  show ?thesis
    using unat_or_low [of "ucast y :: u64" 8 x] unat_u8_less [of y]
    unfolding m y by (simp add: minus_mod_eq_div_mult)
qed

lemma unat_replace_byte1:
  "unat (((x :: u64) AND NOT 0xff00) OR push_bit 8 (ucast (y :: u8)))
     = unat x div 65536 * 65536 + 256 * unat y + unat x mod 256"
proof -
  let ?p = "push_bit 8 (ucast y) :: u64"
  let ?l = "(?p AND NOT (mask 8)) OR (x AND mask 8)"
  have m: "(0xff00 :: u64) = push_bit 8 (mask 8)" by (simp add: mask_eq_exp_minus_1 push_bit_eq_mult)
  have z: "(x AND NOT (push_bit 8 (mask 8))) OR ?p = (x AND NOT (mask 16)) OR ?l"
    by (rule bit_word_eqI) (auto simp: bit_simps dest: bit_imp_le_length)
  have p: "unat ?p = 256 * unat y"
    using unat_u8_less [of y] by (simp add: push_bit_eq_mult unat_word_ariths unat_ucast_upcast)
  have l: "unat ?l = 256 * unat y + unat x mod 256"
    using unat_or_low [of "x AND mask 8" 8 ?p] unfolding p unat_and_mask by simp
  moreover have "256 * unat y + unat x mod 256 < 65536"
    using unat_u8_less [of y] mod_less_divisor [of 256 "unat x"] by linarith
  ultimately show ?thesis
    using unat_or_low [of ?l 16 x] unfolding m z by (simp add: minus_mod_eq_div_mult)
qed

lemma two_digit_carry:
  fixes t1 h :: nat
  assumes "t1 < 512"
  defines "t2 \<equiv> h + of_bool (256 \<le> t1)"
  shows "(h * 256 + t1) mod 65536 = t2 mod 256 * 256 + t1 mod 256"
    and "65536 \<le> h * 256 + t1 \<longleftrightarrow> 256 \<le> t2"
proof -
  have t1: "t1 = 256 * of_bool (256 \<le> t1) + t1 mod 256"
    using assms(1) by (auto simp: le_mod_geq)
  then have t: "h * 256 + t1 = 256 * t2 + t1 mod 256"
    unfolding t2_def by (simp add: algebra_simps)
  show "(h * 256 + t1) mod 65536 = t2 mod 256 * 256 + t1 mod 256"
    unfolding t using mod_mult2_eq [of "256 * t2 + t1 mod 256" 256 256] by simp
  have "t1 mod 256 < 256" by simp
  then show "65536 \<le> h * 256 + t1 \<longleftrightarrow> 256 \<le> t2"
    unfolding t by linarith
qed

lemma adcb_pair: "adcb_high 0 (adcb_low b s) = adcw (ucast b) s"
proof -
  define X where "X = unat (x_sum s)"
  define t1 where "t1 = X mod 256 + unat b + of_bool (x_cf s)"
  define h where "h = X div 256 mod 256"
  define t2 where "t2 = h + of_bool (256 \<le> t1)"
  have t1: "t1 < 512"
    using unat_u8_less [of b] mod_less_divisor [of 256 X] unfolding t1_def of_bool_def by auto
  have X: "X mod 65536 = h * 256 + X mod 256"
    unfolding h_def using mod_mult2_eq [of X 256 256] by simp
  let ?s1 = "adcb_low b s"
  have s1: "unat (x_sum ?s1) = X div 256 * 256 + t1 mod 256" "x_cf ?s1 \<longleftrightarrow> 256 \<le> t1"
    unfolding adcb_low_def Let_def x86_sum.simps unat_replace_byte0 unat_of_nat_u8
    by (simp_all add: unat_ucast_mod t1_def X_def)
  have d: "unat (x_sum ?s1) div 256 = X div 256" "unat (x_sum ?s1) mod 256 = t1 mod 256"
    unfolding s1 by simp_all
  have h2: "unat (ucast (drop_bit 8 (x_sum ?s1)) :: u8) = h"
    by (simp add: unat_ucast_mod unat_drop_bit_eq drop_bit_eq_div [where ?'a = nat] d h_def)
  have "unat (x_sum (adcb_high 0 ?s1)) = X div 65536 * 65536 + 256 * (t2 mod 256) + t1 mod 256"
    unfolding adcb_high_def Let_def x86_sum.simps unat_replace_byte1 h2 s1(2) d(2) unat_of_nat_u8
    using div_mult2_eq [of "unat (x_sum ?s1)" 256 256] div_mult2_eq [of X 256 256]
    by (simp add: d t2_def)
  moreover have w: "unat (ucast b :: u16) = unat b" by (simp add: unat_ucast_upcast)
  have lo: "unat (ucast (x_sum s) :: u16) + unat b + of_bool (x_cf s) = h * 256 + t1"
    by (simp add: unat_ucast_mod X t1_def flip: X_def)
  have "unat (x_sum (adcw (ucast b) s)) = X div 65536 * 65536 + (h * 256 + t1) mod 65536"
    unfolding adcw_def Let_def x86_sum.simps unat_replace_low16 w lo X_def unat_of_nat_u16 ..
  moreover have "x_cf (adcb_high 0 ?s1) \<longleftrightarrow> 256 \<le> t2"
    unfolding adcb_high_def Let_def x86_sum.simps h2 s1(2) t2_def by simp
  moreover have "x_cf (adcw (ucast b) s) \<longleftrightarrow> 65536 \<le> h * 256 + t1"
    unfolding adcw_def Let_def x86_sum.simps w lo by simp
  ultimately show ?thesis
    using two_digit_carry [OF t1, of h]
    by (intro x86_sum.equality) (simp_all add: word_unat_eq_iff t2_def)
qed

lemma adcw_small:
  assumes "unat (x_sum s) < 65536"
  shows "unat (x_sum (adcw w s)) = (unat (x_sum s) + unat w + of_bool (x_cf s)) mod 65536"
    and "x_cf (adcw w s) \<longleftrightarrow> 65536 \<le> unat (x_sum s) + unat w + of_bool (x_cf s)"
proof -
  have lo: "unat (ucast (x_sum s) :: u16) = unat (x_sum s)"
    using assms by (simp add: unat_ucast_mod)
  show "unat (x_sum (adcw w s)) = (unat (x_sum s) + unat w + of_bool (x_cf s)) mod 65536"
    unfolding adcw_def Let_def x86_sum.simps unat_replace_low16 lo unat_of_nat_u16
    using assms by simp
  show "x_cf (adcw w s) \<longleftrightarrow> 65536 \<le> unat (x_sum s) + unat w + of_bool (x_cf s)"
    unfolding adcw_def Let_def x86_sum.simps lo by simp
qed

lemma four_words_sum:
  fixes w :: nat
  assumes "w < 65536 * (65536 * (65536 * 65536))"
  shows "same_sum (w mod 65536 + w div 65536 mod 65536 + w div 65536 div 65536 mod 65536
      + w div 65536 div 65536 div 65536 mod 65536) w"
proof -
  have wrap: "same_sum (w mod 65536 + w div 65536) w" for w :: nat
  proof -
    have w: "w = w mod 65536 + 65536 * (w div 65536)" by simp
    have "(65536 * (w div 65536)) mod 65535 = w div 65536 mod 65535"
      using mod_mult_self2 [of "w div 65536" 65535 "w div 65536"] by simp
    then have "(w mod 65536 + w div 65536) mod 65535 = w mod 65535"
      by (subst (3) w) (rule mod_add_cong, simp_all)
    then show ?thesis using w by (auto simp: same_sum_def)
  qed
  let ?a = "w div 65536" and ?b = "w div 65536 div 65536" and ?c = "w div 65536 div 65536 div 65536"
  have c: "?c mod 65536 = ?c"
    using assms by (simp add: less_mult_imp_div_less mult.commute)
  have 1: "same_sum (?b mod 65536 + ?c) ?b" by (rule wrap)
  have 2: "same_sum (?a mod 65536 + (?b mod 65536 + ?c)) ?a"
    by (rule same_sum_trans [OF same_sum_add [OF same_sum_refl 1] wrap])
  have "same_sum (w mod 65536 + (?a mod 65536 + (?b mod 65536 + ?c))) w"
    by (rule same_sum_trans [OF same_sum_add [OF same_sum_refl 2] wrap])
  then show ?thesis unfolding c by (simp add: add.assoc)
qed

lemma fold_sum_rep:
  assumes "same_sum (x_val s) n"
  shows "unat (x_sum (fold_sum s)) = ones_rep n"
proof -
  let ?w = "x_sum s"
  define s0 where "s0 = s \<lparr> x_sum := ucast (ucast ?w :: u16) \<rparr>"
  define s1 where "s1 = adcw (ucast (drop_bit 16 ?w)) s0"
  define s2 where "s2 = adcw (ucast (drop_bit 32 ?w)) s1"
  define s3 where "s3 = adcw (ucast (drop_bit 48 ?w)) s2"
  have fold: "fold_sum s = adcw 0 (adcw 0 s3)"
    by (simp add: fold_sum_def Let_def s0_def s1_def s2_def s3_def)
  have part: "unat (ucast (drop_bit k ?w) :: u16) = unat ?w div 2 ^ k mod 65536" for k
    by (simp add: unat_ucast_mod unat_drop_bit_eq drop_bit_eq_div [where ?'a = nat])
  define c :: nat where "c = of_bool (x_cf s)"
  have s0: "x_val s0 = unat ?w mod 65536 + c" and small0: "unat (x_sum s0) < 65536"
    and s: "x_val s = unat ?w + c"
    by (simp_all add: s0_def x_val_def unat_ucast_upcast unat_ucast_mod c_def)
  have small: "unat (x_sum s3) < 65536"
    using adcw_small(1) small0 unfolding s3_def s2_def s1_def by simp
  have a: "same_sum (x_val s3) (x_val s0 + unat ?w div 2 ^ 16 mod 65536
      + unat ?w div 2 ^ 32 mod 65536 + unat ?w div 2 ^ 48 mod 65536)"
    unfolding s3_def s2_def s1_def part [symmetric] by (intro adcw_val same_sum_refl)
  have b: "same_sum (x_val s0 + unat ?w div 2 ^ 16 mod 65536
      + unat ?w div 2 ^ 32 mod 65536 + unat ?w div 2 ^ 48 mod 65536) (x_val s)"
    using same_sum_add [OF four_words_sum [of "unat ?w"] same_sum_refl, of c] unat_u64_less [of ?w]
    unfolding s0 s by (simp add: ac_simps div_mult2_eq [symmetric])
  have "same_sum (x_val s3) n"
    by (rule same_sum_trans [OF same_sum_trans [OF a b] assms])
  then have "same_sum (x_val (fold_sum s)) n"
    using adcw_val [of "adcw 0 s3" n 0] adcw_val [of s3 n 0] unfolding fold by simp
  moreover have "unat (x_sum (adcw 0 s3)) = 0" if "x_cf (adcw 0 s3)"
  proof -
    have "unat (x_sum s3) + of_bool (x_cf s3) = 65536"
      using that adcw_small(2) [OF small, of 0] small by (auto simp: of_bool_def split: if_splits)
    then show ?thesis using adcw_small(1) [OF small, of 0] by simp
  qed
  then have "\<not> x_cf (fold_sum s)" and "unat (x_sum (fold_sum s)) < 65536"
    using adcw_small [of "adcw 0 s3" 0] adcw_small(1) [OF small, of 0]
    unfolding fold by (auto simp: of_bool_def split: if_splits)
  ultimately show ?thesis
    by (intro ones_rep_unique [symmetric]) (simp_all add: x_val_def)
qed

lemma tcpip_continue_chksum_spec:
  "tcpip_continue_chksum partial addr data = csum_spec partial data"
proof -
  define k where "k = (if length data \<ge> 8 then unat ((- addr) AND 7) div 2 else 0)"
  define len where "len = length data - k * 2"
  define q where "q = (len mod (8 * 16)) div 8 + 16 * (len div (8 * 16))"
  define f where "f = (len mod 8) div 2"
  define n0 where "n0 = unat (NOT partial)"
  have "unat ((- addr) AND 7) \<le> 7"
    using unat_and_mask [of "- addr" 3] by (simp add: mask_eq_exp_minus_1)
  then have k: "2 * k \<le> length data" unfolding k_def by auto
  have "q = len div 8 mod 16 + 16 * (len div 8 div 16)"
    unfolding q_def mod_mult2_eq div_mult2_eq by simp
  then have q: "8 * q = len - len mod 8"
    unfolding mod_mult_div_eq by (simp add: minus_mod_eq_mult_div)
  have tail: "len mod 8 = 2 * f + len mod 2"
    unfolding f_def using mod_mod_cancel [of 2 8 len] mult_div_mod_eq [of 2 "len mod 8"] by simp
  let ?s0 = "\<lparr> x_sum = ucast (NOT partial), x_cf = False \<rparr>"
  have i0: "same_sum (x_val ?s0) n0" by (simp add: x_val_def n0_def unat_ucast_upcast same_sum_refl)
  obtain d1 s1 where 1: "lodsw_adcw k (data, ?s0) = (d1, s1)" by fastforce
  have i1: "same_sum (x_val s1) (n0 + byte_sum 0 (take (2 * k) data))" and d1: "d1 = drop (2 * k) data"
    using lodsw_adcw_val [OF k i0] 1 by simp_all
  have l1: "length d1 = len" by (simp add: d1 len_def)
  obtain d2 s2 where 2: "lodsq_adcq q (d1, s1) = (d2, s2)" by fastforce
  have i2: "same_sum (x_val s2) (n0 + byte_sum 0 (take (2 * k) data) + byte_sum 0 (take (8 * q) d1))"
    and d2: "d2 = drop (8 * q) d1"
    using lodsq_adcq_val [OF _ i1, of q d1] 2 q l1 by simp_all
  obtain d3 s3 where 3: "lodsw_adcw f (d2, s2) = (d3, s3)" by fastforce
  have l2: "length d2 = len mod 8" by (simp add: d2 l1 q)
  have i3: "same_sum (x_val s3) (n0 + byte_sum 0 (take (2 * k) data) + byte_sum 0 (take (8 * q) d1)
      + byte_sum 0 (take (2 * f) d2))" and d3: "d3 = drop (2 * f) d2"
    using lodsw_adcw_val [OF _ i2, of f d2] 3 tail l2 by simp_all
  have l3: "length d3 = len mod 2" using tail by (simp add: d3 l2)
  define s4 where "s4 = (if len mod 2 = 1 then adcb_high 0 (adcb_low (hd d3) s3) else s3)"
  have i4: "same_sum (x_val s4) (n0 + byte_sum 0 (take (2 * k) data) + byte_sum 0 (take (8 * q) d1)
      + byte_sum 0 (take (2 * f) d2) + byte_sum 0 d3)"
  proof (cases "len mod 2 = 1")
    case True
    then obtain b where "d3 = [b]" using l3 by (auto simp: length_Suc_conv)
    then show ?thesis
      using adcw_val [OF i3, of "ucast b"] True by (simp add: s4_def adcb_pair unat_ucast_upcast)
  next
    case False
    then show ?thesis using i3 l3 by (simp add: s4_def)
  qed
  have e1: "byte_sum 0 data = byte_sum 0 (take (2 * k) data) + byte_sum 0 d1"
    unfolding d1 by (rule byte_sum_split [OF _ k]) simp
  have e2: "byte_sum 0 d1 = byte_sum 0 (take (8 * q) d1) + byte_sum 0 d2"
    unfolding d2 by (rule byte_sum_split) (simp, use q in \<open>simp add: l1\<close>)
  have e3: "byte_sum 0 d2 = byte_sum 0 (take (2 * f) d2) + byte_sum 0 d3"
    unfolding d3 by (rule byte_sum_split) (use l2 tail in simp_all)
  have "same_sum (x_val s4) (n0 + byte_sum 0 data)"
    using i4 unfolding e1 e2 e3 by (simp add: add.assoc)
  then have "unat (x_sum (fold_sum s4)) = ones_rep (n0 + byte_sum 0 data)"
    by (rule fold_sum_rep)
  then have "(ucast (x_sum (fold_sum s4)) :: u16) = of_nat (ones_rep (n0 + byte_sum 0 data))"
    by (metis of_nat_unat)
  moreover have "tcpip_continue_chksum partial addr data = NOT (ucast (x_sum (fold_sum s4)))"
    using 1 2 [unfolded q_def] 3
    by (simp add: tcpip_continue_chksum_def Let_def unrolled_loop_eq s4_def
        flip: k_def len_def f_def lodsq_adcq_add)
  ultimately show ?thesis by (simp only: csum_spec_def n0_def)
qed

section \<open>Properties of the checksum\<close>

text \<open>
  C8: The x86-64 checksum, which sums 64-bit words with the carry flag after
  bringing the pointer into alignment and folds the total to 16 bits at the
  end, returns for every buffer, address and partial checksum the same value
  as the portable byte-by-byte routine.
\<close>

theorem tcpip_continue_chksum_equiv:
  "tcpip_continue_chksum partial addr data = generic_tcpip_continue_chksum partial data"
  by (simp only: tcpip_continue_chksum_spec generic_tcpip_continue_chksum_spec)

definition store_csum :: "u16 \<Rightarrow> u8 list" where
  "store_csum c = [ucast c, ucast (drop_bit 8 c)]"

lemma byte_sum_store_csum: "byte_sum 0 (store_csum c) = unat c"
  by (simp add: store_csum_def unat_ucast_mod unat_drop_bit_eq drop_bit_eq_div [where ?'a = nat]
      div_mult2_eq [symmetric]) (use unat_u16_less [of c] in simp)

lemma byte_sum_field:
  assumes "even (length pre)"
  shows "byte_sum 0 (pre @ store_csum c @ post) = byte_sum 0 (pre @ store_csum 0 @ post) + unat c"
proof -
  have len: "length (store_csum x) = 2" for x by (simp add: store_csum_def)
  have "byte_sum 0 (pre @ store_csum x @ post) = byte_sum 0 pre + (unat x + byte_sum 2 post)" for x
    unfolding byte_sum_append [of _ pre] add_0 byte_sum_even [OF assms]
    unfolding byte_sum_append len byte_sum_store_csum by (simp only: add_0)
  then show ?thesis by simp
qed

lemma ones_rep_complement: "ones_rep (n + (65535 - ones_rep n)) = 65535"
proof (rule ones_rep_unique)
  have "(n + (65535 - ones_rep n)) mod 65535 = (ones_rep n + (65535 - ones_rep n)) mod 65535"
    using ones_rep_same [of n] by (intro mod_add_cong) (simp_all add: same_sum_def)
  then show "same_sum 65535 (n + (65535 - ones_rep n))"
    using ones_rep_le [of n] ones_rep_same [of n] by (auto simp: same_sum_def)
qed simp

lemma unat_csum_spec: "unat (csum_spec partial data) = 65535 - ones_rep (unat (NOT partial) + byte_sum 0 data)"
proof -
  have "unat (NOT x) = 65535 - unat x" for x :: u16
  proof -
    have "NOT x = -1 - x" by (simp add: not_eq_complement)
    moreover have "unat (-1 - x) = unat (-1 :: u16) - unat x" by (rule unat_sub) simp
    moreover have "unat (-1 :: u16) = 65535"
      by (simp add: unsigned_minus_1_eq_mask mask_eq_exp_minus_1)
    ultimately show ?thesis by simp
  qed
  then show ?thesis
    unfolding csum_spec_def using ones_rep_le [of "unat (NOT partial) + byte_sum 0 data"]
    by (simp only: unat_of_nat_u16) simp
qed

lemma csum_field:
  assumes "even (length pre)" "c = tcpip_continue_chksum partial addr (pre @ store_csum 0 @ post)"
  shows "tcpip_continue_chksum partial addr' (pre @ store_csum c @ post) = 0"
proof -
  let ?n = "unat (NOT partial) + byte_sum 0 (pre @ store_csum 0 @ post)"
  have "unat c = 65535 - ones_rep ?n"
    by (simp only: assms(2) tcpip_continue_chksum_spec unat_csum_spec)
  then have "unat (NOT partial) + byte_sum 0 (pre @ store_csum c @ post) = ?n + (65535 - ones_rep ?n)"
    using byte_sum_field [OF assms(1), of c post] by simp
  then have "unat (tcpip_continue_chksum partial addr' (pre @ store_csum c @ post)) = 0"
    by (simp only: tcpip_continue_chksum_spec unat_csum_spec ones_rep_complement diff_self_eq_0)
  then show ?thesis by (simp add: unat_eq_0)
qed

text \<open>
  C30: A sender that stores the checksum of a packet, computed with the
  checksum field zeroed, into that field makes the receiver's checksum over
  the whole packet come out as zero, with any pseudo-header sum in
  \<open>partial\<close> and wherever the two buffers lie in memory.
\<close>

theorem checksum_verifies:
  assumes "even (length pre)"
    and "c = tcpip_continue_chksum partial addr (pre @ store_csum 0 @ post)"
  shows "tcpip_continue_chksum partial addr' (pre @ store_csum c @ post) = 0"
  by (rule csum_field [OF assms])

theorem checksum_verifies_witness:
  "tcpip_continue_chksum 0 7
     ([0x12, 0x34] @ store_csum (tcpip_continue_chksum 0 1 ([0x12, 0x34] @ store_csum 0 @ [0x56])) @ [0x56]) = 0"
  by (rule checksum_verifies) simp_all

end
