(* ===== verification/Tcpip.thy ===== *)
theory Tcpip
  imports Prelude
begin

text \<open>
  The interface between the transport and the network layer
  (\<open>net/tcpip.c\<close>): the dispatch of packets to the registered protocols, the
  maximum transmission unit, and the choice of a local port.  Port numbers are
  kept in host order in the records; byte order appears where a header is
  built or parsed.
\<close>

section \<open>Protocol tables\<close>

record sockaddr_tcpip =
  st_family :: u16
  st_flags :: u16
  st_port :: u16
  st_scope_id :: u16
  st_pad :: "u8 list"

record ('i, 'r) tcpip_protocol =
  proto_rx :: "'i \<Rightarrow> 'r result"
  zero_csum :: u16
  tcpip_proto :: u8

record ip_statistics =
  in_delivers :: u64
  in_unknown_protos :: u64

fun tcpip_rx :: "('i, 'r) tcpip_protocol list \<Rightarrow> u8 \<Rightarrow> 'i \<Rightarrow> ip_statistics \<Rightarrow> 'r result \<times> ip_statistics" where
  "tcpip_rx [] proto iobuf stats =
     (Inl EPROTONOSUPPORT, stats \<lparr> in_unknown_protos := in_unknown_protos stats + 1 \<rparr>)"
| "tcpip_rx (tcpip # protocols) proto iobuf stats =
     (if tcpip_proto tcpip = proto
      then (proto_rx tcpip iobuf, stats \<lparr> in_delivers := in_delivers stats + 1 \<rparr>)
      else tcpip_rx protocols proto iobuf stats)"

record ('i, 'r, 'd) tcpip_net =
  sa_family :: u16
  header_len :: u64
  net_tx :: "'i \<Rightarrow> sockaddr_tcpip \<Rightarrow> 'r result"
  net_netdev :: "sockaddr_tcpip \<Rightarrow> 'd option"

fun tcpip_net_protocol :: "('i, 'r, 'd) tcpip_net list \<Rightarrow> u16 \<Rightarrow> ('i, 'r, 'd) tcpip_net option" where
  "tcpip_net_protocol [] family = None"
| "tcpip_net_protocol (tcpip_net # protocols) family =
     (if sa_family tcpip_net = family then Some tcpip_net
      else tcpip_net_protocol protocols family)"

definition tcpip_tx :: "('i, 'r, 'd) tcpip_net list \<Rightarrow> 'i \<Rightarrow> sockaddr_tcpip \<Rightarrow> 'r result" where
  "tcpip_tx protocols iobuf st_dest =
     (case tcpip_net_protocol protocols (st_family st_dest) of
        Some tcpip_net \<Rightarrow> net_tx tcpip_net iobuf st_dest
      | None \<Rightarrow> Inl EAFNOSUPPORT)"

definition tcpip_netdev :: "('i, 'r, 'd) tcpip_net list \<Rightarrow> sockaddr_tcpip \<Rightarrow> 'd option" where
  "tcpip_netdev protocols st_dest =
     (case tcpip_net_protocol protocols (st_family st_dest) of
        Some tcpip_net \<Rightarrow> net_netdev tcpip_net st_dest
      | None \<Rightarrow> None)"

definition tcpip_mtu :: "('d \<Rightarrow> u64) \<Rightarrow> ('i, 'r, 'd) tcpip_net list \<Rightarrow> sockaddr_tcpip \<Rightarrow> u64" where
  "tcpip_mtu mtu protocols st_dest =
     (case tcpip_net_protocol protocols (st_family st_dest) of
        None \<Rightarrow> 0
      | Some tcpip_net \<Rightarrow>
          (case net_netdev tcpip_net st_dest of
             None \<Rightarrow> 0
           | Some dev \<Rightarrow> mtu dev - header_len tcpip_net))"

section \<open>Choice of a local port\<close>

definition TCPIP_BIND_PRIVILEGED :: u16 where
  "TCPIP_BIND_PRIVILEGED = 0x0400"

definition min_port :: "u16 \<Rightarrow> u16" where
  "min_port flags = ((NOT flags) AND TCPIP_BIND_PRIVILEGED) + 1"

definition max_port :: "u16 \<Rightarrow> u16" where
  "max_port flags = (flags AND TCPIP_BIND_PRIVILEGED) - 1"

fun bind_loop :: "u16 \<Rightarrow> (u16 \<Rightarrow> u16 result) \<Rightarrow> u32 \<Rightarrow> nat list \<Rightarrow> u16 result" where
  "bind_loop flags available offset [] = Inl EADDRINUSE"
| "bind_loop flags available offset (i # is) =
     (let try_port = ucast (of_nat i + offset) AND max_port flags
      in if try_port < min_port flags then bind_loop flags available offset is
         else case available try_port of
             Inl _ \<Rightarrow> bind_loop flags available offset is
           | Inr _ \<Rightarrow> Inr try_port)"

definition tcpip_bind :: "sockaddr_tcpip option \<Rightarrow> (u16 \<Rightarrow> u16 result) \<Rightarrow> u32 \<Rightarrow> u16 result" where
  "tcpip_bind st_local available offset =
     (let flags = (case st_local of None \<Rightarrow> 0 | Some st \<Rightarrow> st_flags st);
          try_port = (case st_local of None \<Rightarrow> 0 | Some st \<Rightarrow> st_port st)
      in if try_port \<noteq> 0 then available try_port
         else bind_loop flags available offset [0..<unat (max_port flags) + 1])"

section \<open>Which ports are chosen\<close>

definition port_range :: "u16 \<Rightarrow> u16 set" where
  "port_range flags = (if flags AND TCPIP_BIND_PRIVILEGED = 0 then {1025..65535} else {1..1023})"

lemma bind_limits:
  "flags AND TCPIP_BIND_PRIVILEGED = 0 \<and> min_port flags = 1025 \<and> max_port flags = mask 16
   \<or> flags AND TCPIP_BIND_PRIVILEGED \<noteq> 0 \<and> min_port flags = 1 \<and> max_port flags = mask 10"
proof -
  have b: "bit (1024 :: u16) n \<longleftrightarrow> n = 10" for n
    using bit_exp_iff [of 10 n, where ?'a = "16 word"] by auto
  have "flags AND 1024 = (if bit flags 10 then 1024 else 0)"
    unfolding bit_eq_iff by (auto simp only: bit_and_iff b bit_0_eq bot_apply bot_bool_def split: if_split)
  moreover have "NOT flags AND 1024 = (if bit flags 10 then 0 else 1024)"
    unfolding bit_eq_iff by (auto simp only: bit_and_iff bit_not_iff b bit_0_eq bot_apply bot_bool_def split: if_split)
  ultimately show ?thesis
    by (simp add: min_port_def max_port_def TCPIP_BIND_PRIVILEGED_def mask_eq_exp_minus_1)
qed

lemma bind_loop_Inr:
  "bind_loop flags available offset is = Inr p \<Longrightarrow>
   \<exists>i \<in> set is. p = ucast (of_nat i + offset) AND max_port flags \<and> \<not> p < min_port flags
     \<and> (\<exists>r. available p = Inr r)"
proof (induction "is")
  case (Cons i "is")
  then show ?case by (auto simp: Let_def split: if_splits sum.splits)
qed simp

lemma bind_loop_Inl:
  "bind_loop flags available offset is = Inl e \<Longrightarrow>
   e = EADDRINUSE \<and> (\<forall>i \<in> set is. \<forall>p. p = ucast (of_nat i + offset) AND max_port flags
     \<longrightarrow> \<not> p < min_port flags \<longrightarrow> (\<exists>e'. available p = Inl e'))"
proof (induction "is")
  case (Cons i "is")
  then show ?case by (auto simp: Let_def split: if_splits sum.splits)
qed simp

text \<open>Every port number up to \<open>max_port\<close> is tried, whatever the random offset.\<close>

lemma bind_candidates:
  assumes "k = 10 \<or> k = 16" and "p \<le> mask k"
  shows "\<exists>i \<in> set [0..<unat (mask k :: u16) + 1]. p = ucast (of_nat i + offset :: u32) AND (mask k :: u16)"
proof -
  define q :: u32 where "q = (ucast p - offset) AND mask k"
  have "unat q < 2 ^ k" unfolding q_def unat_and_mask by simp
  moreover have m: "unat (mask k :: u16) = 2 ^ k - 1"
    using assms(1) by (auto simp: mask_eq_exp_minus_1 unsigned_minus_1_eq_mask)
  ultimately have mem: "unat q \<in> set [0..<unat (mask k :: u16) + 1]" by simp
  have "unat p \<le> 2 ^ k - 1"
    using assms(2) by (simp only: word_le_nat_alt m)
  then have pk: "unat p < 2 ^ k" using assms(1) by auto
  have k: "k \<le> LENGTH(32)" using assms(1) by auto
  have "unat (q + offset) mod 2 ^ k = (unat (ucast p - offset :: u32) + unat offset) mod 2 ^ k"
    unfolding unat_add_mod [OF k] q_def unat_and_mask by (simp add: mod_add_left_eq)
  also have "\<dots> = unat (ucast p - offset + offset :: u32) mod 2 ^ k"
    by (rule unat_add_mod [OF k, symmetric])
  also have "\<dots> = unat p" using pk by (simp add: unat_ucast_upcast)
  finally have "unat (q + offset) mod 2 ^ k = unat p" .
  then have "unat p = unat (ucast (q + offset) AND (mask k :: u16))"
    unfolding unat_and_mask unat_ucast_mod using assms(1)
    by (auto simp: mod_mod_cancel)
  then have "p = ucast (q + offset) AND mask k" by (simp only: word_unat_eq_iff)
  with mem show ?thesis by (intro bexI [of _ "unat q"]) simp_all
qed



end
