(* ===== verification/Retry.thy ===== *)
theory Retry
  imports Prelude
begin

text \<open>
  Retry timers (\<open>net/retry.c\<close>, \<open>include/ipxe/retry.h\<close>) and the counters of
  pending operations (\<open>core/pending.c\<close>).  The value of \<open>currticks()\<close> is the
  argument \<open>now\<close>.  The expiry callback of a timer belongs to its owner: the
  expiry returns the failure flag that the callback is called with, and the
  name of the timer tells which callback it is.  Reference counts are left out.
\<close>

section \<open>Timers\<close>

definition TICKS_PER_SEC :: u64 where
  "TICKS_PER_SEC = 1024"

definition DEFAULT_MIN_TIMEOUT :: u64 where
  "DEFAULT_MIN_TIMEOUT = TICKS_PER_SEC div 4"

definition DEFAULT_MAX_TIMEOUT :: u64 where
  "DEFAULT_MAX_TIMEOUT = 10 * TICKS_PER_SEC"

definition MIN_TIMEOUT :: u64 where
  "MIN_TIMEOUT = 7"

record retry_timer =
  running :: bool
  timeout :: u64
  min_timeout :: u64
  max_timeout :: u64
  started :: u64
  retry_count :: u32

definition timer_init :: retry_timer where
  "timer_init = \<lparr> running = False, timeout = 0, min_timeout = 0, max_timeout = 0,
                  started = 0, retry_count = 0 \<rparr>"

definition set_timer_limits :: "u64 \<Rightarrow> u64 \<Rightarrow> retry_timer \<Rightarrow> retry_timer" where
  "set_timer_limits mn mx t = t \<lparr> min_timeout := mn, max_timeout := mx \<rparr>"

definition timer_running :: "retry_timer \<Rightarrow> bool" where
  "timer_running t = running t"

definition start_timer_fixed :: "u64 \<Rightarrow> u64 \<Rightarrow> retry_timer \<Rightarrow> retry_timer" where
  "start_timer_fixed now tmo t = t \<lparr> running := True, started := now, timeout := tmo \<rparr>"

definition effective_min :: "retry_timer \<Rightarrow> u64" where
  "effective_min t =
     (let mn = (if min_timeout t \<noteq> 0 then min_timeout t else DEFAULT_MIN_TIMEOUT)
      in if mn < MIN_TIMEOUT then MIN_TIMEOUT else mn)"

definition start_timer :: "u64 \<Rightarrow> retry_timer \<Rightarrow> retry_timer" where
  "start_timer now t =
     start_timer_fixed now (if timeout t < effective_min t then effective_min t else timeout t) t"

definition start_timer_nodelay :: "u64 \<Rightarrow> retry_timer \<Rightarrow> retry_timer" where
  "start_timer_nodelay now t = start_timer_fixed now 0 t"

definition stop_timer :: "u64 \<Rightarrow> retry_timer \<Rightarrow> retry_timer" where
  "stop_timer now t =
     (if \<not> running t then t
      else let runtime = now - started t;
               t = t \<lparr> running := False \<rparr>
           in if retry_count t \<noteq> 0 then t \<lparr> retry_count := retry_count t - 1 \<rparr>
              else t \<lparr> timeout := timeout t - drop_bit 3 (timeout t) + drop_bit 1 runtime \<rparr>)"

definition effective_max :: "retry_timer \<Rightarrow> u64" where
  "effective_max t = (if max_timeout t \<noteq> 0 then max_timeout t else DEFAULT_MAX_TIMEOUT)"

definition timer_expired :: "retry_timer \<Rightarrow> retry_timer \<times> bool" where
  "timer_expired t =
     (let t = t \<lparr> running := False, retry_count := retry_count t + 1,
                  timeout := push_bit 1 (timeout t) \<rparr>;
          fail = timeout t > effective_max t
      in (if fail then t \<lparr> timeout := effective_max t \<rparr> else t, fail))"

section \<open>The list of running timers\<close>

record 'k retry_state =
  timers :: "'k list"
  timer_of :: "'k \<Rightarrow> retry_timer"

definition list_start :: "'k \<Rightarrow> (retry_timer \<Rightarrow> retry_timer) \<Rightarrow> 'k retry_state \<Rightarrow> 'k retry_state" where
  "list_start k f st =
     st \<lparr> timers := (if running (timer_of st k) then timers st else k # timers st),
          timer_of := (timer_of st)(k := f (timer_of st k)) \<rparr>"

definition list_stop :: "'k \<Rightarrow> u64 \<Rightarrow> 'k retry_state \<Rightarrow> 'k retry_state" where
  "list_stop k now st =
     st \<lparr> timers := (if running (timer_of st k) then remove1 k (timers st) else timers st),
          timer_of := (timer_of st)(k := stop_timer now (timer_of st k)) \<rparr>"

definition due :: "u64 \<Rightarrow> retry_timer \<Rightarrow> bool" where
  "due now t \<longleftrightarrow> now - started t \<ge> timeout t"

definition retry_poll :: "u64 \<Rightarrow> 'k retry_state \<Rightarrow> 'k retry_state \<times> ('k \<times> bool) option" where
  "retry_poll now st =
     (case find (\<lambda>k. due now (timer_of st k)) (timers st) of
        None \<Rightarrow> (st, None)
      | Some k \<Rightarrow>
          let (t, fail) = timer_expired (timer_of st k)
          in (st \<lparr> timers := remove1 k (timers st), timer_of := (timer_of st)(k := t) \<rparr>, Some (k, fail)))"

section \<open>Pending operations\<close>

record pending_operation =
  pending_count :: u32

definition is_pending :: "pending_operation \<Rightarrow> bool" where
  "is_pending p \<longleftrightarrow> pending_count p \<noteq> 0"

definition pending_get :: "pending_operation \<Rightarrow> pending_operation" where
  "pending_get p = p \<lparr> pending_count := pending_count p + 1 \<rparr>"

definition pending_put :: "pending_operation \<Rightarrow> pending_operation" where
  "pending_put p = (if pending_count p \<noteq> 0 then p \<lparr> pending_count := pending_count p - 1 \<rparr> else p)"

section \<open>The list holds exactly the running timers\<close>

definition timers_ok :: "'k retry_state \<Rightarrow> bool" where
  "timers_ok st \<longleftrightarrow> distinct (timers st) \<and> set (timers st) = {k. running (timer_of st k)}"

lemma running_simps [simp]:
  "running (start_timer_fixed now tmo t)"
  "running (start_timer now t)"
  "\<not> running (stop_timer now t)"
  "\<not> running (fst (timer_expired t))"
  by (simp_all add: start_timer_fixed_def start_timer_def stop_timer_def timer_expired_def Let_def)

lemma list_start_ok:
  assumes "timers_ok st" and "\<And>t. running (f t)"
  shows "timers_ok (list_start k f st)"
  using assms by (auto simp: timers_ok_def list_start_def)

lemma list_stop_ok: "timers_ok st \<Longrightarrow> timers_ok (list_stop k now st)"
  by (auto simp: timers_ok_def list_stop_def)

lemma find_remove1:
  assumes "find P xs = Some x"
  shows "x \<in> set xs \<and> P x"
  using assms by (auto simp: find_Some_iff)



section \<open>Backing off and giving up\<close>

text \<open>
  One attempt of a protocol that restarts the timer when it has sent its
  packet: the timer is started and runs until it expires.
\<close>

definition attempt :: "u64 \<Rightarrow> retry_timer \<Rightarrow> retry_timer \<times> bool" where
  "attempt now t = timer_expired (start_timer now t)"

fun attempts :: "u64 list \<Rightarrow> retry_timer \<Rightarrow> retry_timer" where
  "attempts [] t = t"
| "attempts (now # nows) t = attempts nows (fst (attempt now t))"

definition initial_timeout :: "retry_timer \<Rightarrow> nat" where
  "initial_timeout t = max (unat (timeout t)) (unat (effective_min t))"

lemma effective_attempt [simp]:
  "effective_min (fst (attempt now t)) = effective_min t"
  "effective_max (fst (attempt now t)) = effective_max t"
  by (simp_all add: attempt_def timer_expired_def start_timer_def start_timer_fixed_def
      effective_min_def effective_max_def Let_def)

lemma attempt_timeout:
  assumes "unat (effective_max t) < 2 ^ 63" and "initial_timeout t \<le> unat (effective_max t)"
  shows "unat (timeout (fst (attempt now t))) = min (2 * initial_timeout t) (unat (effective_max t))"
    and "snd (attempt now t) \<longleftrightarrow> 2 * initial_timeout t > unat (effective_max t)"
proof -
  define i where "i = (if timeout t < effective_min t then effective_min t else timeout t)"
  have i: "unat i = initial_timeout t"
    by (auto simp: i_def initial_timeout_def word_less_nat_alt max_def)
  define d where "d = push_bit 1 i"
  have d: "unat d = 2 * initial_timeout t"
    using assms i by (simp add: d_def push_bit_eq_mult unat_word_ariths)
  have a: "attempt now t = (let fail = d > effective_max t
      in (t \<lparr> running := False, started := now, retry_count := retry_count t + 1,
            timeout := (if fail then effective_max t else d) \<rparr>, fail))"
    by (simp add: attempt_def timer_expired_def start_timer_def start_timer_fixed_def effective_max_def
        Let_def d_def flip: i_def)
  show "snd (attempt now t) \<longleftrightarrow> 2 * initial_timeout t > unat (effective_max t)"
    unfolding a Let_def snd_conv word_less_nat_alt d ..
  show "unat (timeout (fst (attempt now t))) = min (2 * initial_timeout t) (unat (effective_max t))"
    unfolding a Let_def fst_conv word_less_nat_alt d
    by (cases "unat (effective_max t) < 2 * initial_timeout t") (simp_all add: d min_def)
qed

lemma min_times_power:
  fixes x M p :: nat
  assumes "1 \<le> p"
  shows "min (min (2 * x) M * p) M = min (x * (2 * p)) M"
proof (cases "2 * x \<le> M")
  case True
  then show ?thesis by (simp add: min_def mult.assoc mult.left_commute)
next
  case False
  have "M \<le> M * p" "2 * x \<le> 2 * x * p" using assms by simp_all
  moreover have "x * (2 * p) = 2 * x * p" by simp
  ultimately have "min (M * p) M = M" "min (x * (2 * p)) M = M" "min (2 * x) M = M"
    using False by linarith+
  then show ?thesis by (simp only:)
qed

lemma attempts_timeout:
  assumes "unat (effective_max t) < 2 ^ 63" and "initial_timeout t \<le> unat (effective_max t)"
  shows "initial_timeout (attempts nows t) = min (initial_timeout t * 2 ^ length nows) (unat (effective_max t))
    \<and> effective_max (attempts nows t) = effective_max t"
  using assms
proof (induction nows arbitrary: t)
  case (Cons now nows)
  have i: "initial_timeout (fst (attempt now t)) = min (2 * initial_timeout t) (unat (effective_max t))"
    using attempt_timeout(1) [OF Cons.prems, of now] Cons.prems
    by (auto simp: initial_timeout_def)
  show ?case
    using Cons.IH [of "fst (attempt now t)"] Cons.prems(1) i min_times_power [of "2 ^ length nows"]
    by simp
qed simp

text \<open>
  C23: A protocol that restarts its timer after every expiry doubles the timeout
  each time and is told to give up exactly at the first expiry that would take
  the timeout above the maximum: after \<open>n\<close> earlier expiries the next one reports
  failure if and only if the initial timeout times \<open>2 ^ (n + 1)\<close> exceeds it.
\<close>

theorem retry_gives_up:
  assumes "unat (effective_max t) < 2 ^ 63" and "initial_timeout t \<le> unat (effective_max t)"
  shows "snd (attempt now (attempts nows t)) \<longleftrightarrow>
      initial_timeout t * 2 ^ (length nows + 1) > unat (effective_max t)"
proof -
  let ?t = "attempts nows t"
  have a: "initial_timeout ?t = min (initial_timeout t * 2 ^ length nows) (unat (effective_max t))"
    "effective_max ?t = effective_max t"
    using attempts_timeout [OF assms, of nows] by simp_all
  then have "snd (attempt now ?t) \<longleftrightarrow> 2 * initial_timeout ?t > unat (effective_max t)"
    using attempt_timeout(2) [of ?t now] assms(1) by simp
  moreover have "0 < unat (effective_max t)"
    using assms(2) by (auto simp: initial_timeout_def effective_min_def MIN_TIMEOUT_def
        DEFAULT_MIN_TIMEOUT_def TICKS_PER_SEC_def Let_def word_less_nat_alt split: if_splits)
  ultimately show ?thesis unfolding a by (auto simp: min_def)
qed

theorem retry_gives_up_witness:
  "\<not> snd (attempt 9 (attempts [1, 2, 3, 4] timer_init)) \<and> snd (attempt 9 (attempts [1, 2, 3, 4, 5] timer_init))"
proof -
  have i: "initial_timeout timer_init = 256" "unat (effective_max timer_init) = 10240"
    by (simp_all add: initial_timeout_def effective_min_def effective_max_def timer_init_def MIN_TIMEOUT_def
        DEFAULT_MIN_TIMEOUT_def DEFAULT_MAX_TIMEOUT_def TICKS_PER_SEC_def Let_def)
  show ?thesis
    using retry_gives_up [of timer_init 9 "[1, 2, 3, 4]"] retry_gives_up [of timer_init 9 "[1, 2, 3, 4, 5]"] i
    by simp
qed

section \<open>Adjusting the timeout to the round-trip time\<close>

text \<open>
  Stopping a running timer that never expired since it was last stopped
  replaces the timeout \<open>t\<close> by \<open>t - t/8 + r/2\<close> for the round-trip time \<open>r\<close>,
  without wrapping around, and never takes a timeout of at least seven ticks
  below seven ticks.
\<close>

lemma stop_timer_smooths:
  assumes "running t" and "retry_count t = 0" and "unat (timeout t) < 2 ^ 63"
  shows "unat (timeout (stop_timer now t)) =
      unat (timeout t) - unat (timeout t) div 8 + unat (now - started t) div 2
    \<and> (7 \<le> unat (timeout t) \<longrightarrow> 7 \<le> unat (timeout (stop_timer now t)))"
proof -
  let ?t = "timeout t" and ?r = "now - started t"
  have "unat (?t - drop_bit 3 ?t) = unat ?t - unat ?t div 8"
    by (simp add: unat_sub word_le_nat_alt unat_drop_bit_eq drop_bit_eq_div [where ?'a = nat])
  moreover have "unat (drop_bit 1 ?r) = unat ?r div 2"
    by (simp add: unat_drop_bit_eq drop_bit_eq_div [where ?'a = nat] del: drop_bit_Suc)
  moreover have "unat ?t - unat ?t div 8 + unat ?r div 2 < 2 ^ 64"
    using assms(3) unat_u64_less [of ?r] by simp
  ultimately have s: "unat (timeout (stop_timer now t)) = unat ?t - unat ?t div 8 + unat ?r div 2"
    using assms by (simp add: stop_timer_def Let_def unat_plus_if')
  moreover have "7 \<le> unat ?t \<longrightarrow> 7 \<le> unat (timeout (stop_timer now t))"
    unfolding s by linarith
  ultimately show ?thesis by blast
qed

end
