(* ===== verification/Bytes.thy ===== *)
theory Bytes
  imports Prelude
begin

text \<open>
  The bytes of a multi-byte header field: storing \<open>htons(x)\<close> or \<open>htonl(x)\<close> in a
  packed structure and reading it back through \<open>ntohs\<close> and \<open>ntohl\<close>
  (\<open>include/byteswap.h\<close>).
\<close>

definition htons :: "u16 \<Rightarrow> u8 list" where
  "htons x = [ucast (drop_bit 8 x), ucast x]"

definition htonl :: "u32 \<Rightarrow> u8 list" where
  "htonl x = [ucast (drop_bit 24 x), ucast (drop_bit 16 x), ucast (drop_bit 8 x), ucast x]"

definition ntohs :: "u8 list \<Rightarrow> u16" where
  "ntohs bs = push_bit 8 (ucast (bs ! 0)) OR ucast (bs ! 1)"

definition ntohl :: "u8 list \<Rightarrow> u32" where
  "ntohl bs = push_bit 24 (ucast (bs ! 0)) OR push_bit 16 (ucast (bs ! 1))
     OR push_bit 8 (ucast (bs ! 2)) OR ucast (bs ! 3)"

lemma length_htons [simp]: "length (htons x) = 2"
  by (simp add: htons_def)

lemma length_htonl [simp]: "length (htonl x) = 4"
  by (simp add: htonl_def)

lemma ntohs_append [simp]: "length bs = 2 \<Longrightarrow> ntohs (bs @ cs) = ntohs bs"
  by (simp add: ntohs_def nth_append)

lemma ntohl_append [simp]: "length bs = 4 \<Longrightarrow> ntohl (bs @ cs) = ntohl bs"
  by (simp add: ntohl_def nth_append)

lemma ntohs_htons [simp]: "ntohs (htons x) = x"
  by (rule bit_word_eqI) (auto simp: ntohs_def htons_def bit_simps)

lemma ntohl_htonl [simp]: "ntohl (htonl x) = x"
proof (rule bit_word_eqI)
  fix n assume "n < LENGTH(32)"
  then have n: "n < 32" by simp
  have "n < 8 \<or> 8 \<le> n \<and> n < 16 \<or> 16 \<le> n \<and> n < 24 \<or> 24 \<le> n \<and> n < 32"
    using n by arith
  then show "bit (ntohl (htonl x)) n = bit x n"
    by (elim disjE conjE) (auto simp: ntohl_def htonl_def bit_simps)
qed

end
