(* ===== verification/Tcp.thy ===== *)
theory Tcp
  imports Bytes Checksum Tcpip Retry
begin

text \<open>
  The TCP connection of \<open>net/tcp.c\<close> and \<open>include/ipxe/tcp.h\<close>: the state machine
  kept as flags sent, acknowledged and received, the transmit and receive
  queues, selective acknowledgements, the three timers, opening, closing and
  shutdown.

  An I/O buffer is the list of its data bytes.  What the functions do to the
  world is recorded in the field \<open>events\<close> of the connection: a packet handed to
  \<open>tcpip_tx()\<close>, data handed to the application, data accepted from it, the
  shutdown of its interface.
  The record \<open>tcp_env\<close> holds what TCP calls and does not define: the clock, the
  outcome of an allocation (with the number of queued packets that the cache
  discarder takes from the receive queue meanwhile), the outcome of
  \<open>tcpip_tx()\<close>, the window of the application, and the calls that the
  application makes from within its callbacks.  Debug messages, profiling,
  reference counts and the previous state kept for messages are left out.
\<close>

section \<open>Constants\<close>

definition TCP_ACK :: u32 where "TCP_ACK = 0x10"
definition TCP_PSH :: u32 where "TCP_PSH = 0x08"
definition TCP_RST :: u32 where "TCP_RST = 0x04"
definition TCP_SYN :: u32 where "TCP_SYN = 0x02"
definition TCP_FIN :: u32 where "TCP_FIN = 0x01"

definition TCP_STATE_SENT :: "u32 \<Rightarrow> u32" where "TCP_STATE_SENT fl = fl"
definition TCP_FLAGS_SENT :: "u32 \<Rightarrow> u32" where "TCP_FLAGS_SENT st = st AND 0xff"
definition TCP_STATE_ACKED :: "u32 \<Rightarrow> u32" where "TCP_STATE_ACKED fl = push_bit 8 fl"
definition TCP_FLAGS_ACKED :: "u32 \<Rightarrow> u32" where "TCP_FLAGS_ACKED st = drop_bit 8 st AND 0xff"
definition TCP_STATE_RCVD :: "u32 \<Rightarrow> u32" where "TCP_STATE_RCVD fl = push_bit 16 fl"
definition TCP_FLAGS_SENDING :: "u32 \<Rightarrow> u32" where
  "TCP_FLAGS_SENDING st = TCP_FLAGS_SENT st AND NOT (TCP_FLAGS_ACKED st)"

definition TCP_CLOSED :: u32 where "TCP_CLOSED = TCP_RST"
definition TCP_LISTEN :: u32 where "TCP_LISTEN = 0"
definition TCP_SYN_SENT :: u32 where "TCP_SYN_SENT = TCP_STATE_SENT TCP_SYN"
definition TCP_SYN_RCVD :: u32 where
  "TCP_SYN_RCVD = TCP_STATE_SENT (TCP_SYN OR TCP_ACK) OR TCP_STATE_RCVD TCP_SYN"
definition TCP_ESTABLISHED :: u32 where
  "TCP_ESTABLISHED = TCP_STATE_SENT (TCP_SYN OR TCP_ACK) OR TCP_STATE_ACKED TCP_SYN OR TCP_STATE_RCVD TCP_SYN"
definition TCP_FIN_WAIT_1 :: u32 where
  "TCP_FIN_WAIT_1 = TCP_STATE_SENT (TCP_SYN OR TCP_ACK OR TCP_FIN) OR TCP_STATE_ACKED TCP_SYN
     OR TCP_STATE_RCVD TCP_SYN"
definition TCP_FIN_WAIT_2 :: u32 where
  "TCP_FIN_WAIT_2 = TCP_STATE_SENT (TCP_SYN OR TCP_ACK OR TCP_FIN) OR TCP_STATE_ACKED (TCP_SYN OR TCP_FIN)
     OR TCP_STATE_RCVD TCP_SYN"
definition TCP_CLOSING_OR_LAST_ACK :: u32 where
  "TCP_CLOSING_OR_LAST_ACK = TCP_STATE_SENT (TCP_SYN OR TCP_ACK OR TCP_FIN) OR TCP_STATE_ACKED TCP_SYN
     OR TCP_STATE_RCVD (TCP_SYN OR TCP_FIN)"
definition TCP_TIME_WAIT :: u32 where
  "TCP_TIME_WAIT = TCP_STATE_SENT (TCP_SYN OR TCP_ACK OR TCP_FIN) OR TCP_STATE_ACKED (TCP_SYN OR TCP_FIN)
     OR TCP_STATE_RCVD (TCP_SYN OR TCP_FIN)"
definition TCP_CLOSE_WAIT :: u32 where
  "TCP_CLOSE_WAIT = TCP_STATE_SENT (TCP_SYN OR TCP_ACK) OR TCP_STATE_ACKED TCP_SYN
     OR TCP_STATE_RCVD (TCP_SYN OR TCP_FIN)"

definition TCP_CAN_SEND_DATA :: "u32 \<Rightarrow> bool" where
  "TCP_CAN_SEND_DATA st \<longleftrightarrow>
     st AND (TCP_STATE_ACKED TCP_SYN OR TCP_STATE_SENT TCP_FIN) = TCP_STATE_ACKED TCP_SYN"
definition TCP_HAS_BEEN_ESTABLISHED :: "u32 \<Rightarrow> bool" where
  "TCP_HAS_BEEN_ESTABLISHED st \<longleftrightarrow>
     st AND (TCP_STATE_ACKED TCP_SYN OR TCP_STATE_RCVD TCP_SYN)
       = TCP_STATE_ACKED TCP_SYN OR TCP_STATE_RCVD TCP_SYN"
definition TCP_CLOSED_GRACEFULLY :: "u32 \<Rightarrow> bool" where
  "TCP_CLOSED_GRACEFULLY st \<longleftrightarrow>
     st AND (TCP_STATE_ACKED TCP_FIN OR TCP_STATE_RCVD TCP_FIN)
       = TCP_STATE_ACKED TCP_FIN OR TCP_STATE_RCVD TCP_FIN"

definition TCP_XFER_CLOSED :: u32 where "TCP_XFER_CLOSED = 0x0001"
definition TCP_TS_ENABLED :: u32 where "TCP_TS_ENABLED = 0x0002"
definition TCP_ACK_PENDING :: u32 where "TCP_ACK_PENDING = 0x0004"
definition TCP_SACK_ENABLED :: u32 where "TCP_SACK_ENABLED = 0x0008"

definition TCP_OPTION_END :: u8 where "TCP_OPTION_END = 0"
definition TCP_OPTION_NOP :: u8 where "TCP_OPTION_NOP = 1"
definition TCP_OPTION_MSS :: u8 where "TCP_OPTION_MSS = 2"
definition TCP_OPTION_WS :: u8 where "TCP_OPTION_WS = 3"
definition TCP_OPTION_SACK_PERMITTED :: u8 where "TCP_OPTION_SACK_PERMITTED = 4"
definition TCP_OPTION_SACK :: u8 where "TCP_OPTION_SACK = 5"
definition TCP_OPTION_TS :: u8 where "TCP_OPTION_TS = 8"

definition TCP_RX_WINDOW_SCALE :: u8 where "TCP_RX_WINDOW_SCALE = 9"
definition TCP_SACK_MAX :: nat where "TCP_SACK_MAX = 3"
definition TCP_MASK_HLEN :: u8 where "TCP_MASK_HLEN = 0xf0"
definition TCP_MAX_WINDOW_SIZE :: u32 where "TCP_MAX_WINDOW_SIZE = 256 * 1024"
definition TCP_PATH_MTU :: u64 where "TCP_PATH_MTU = 1280 - 40 - 20 - 12"
definition TCP_MSL :: u64 where "TCP_MSL = 2 * 60 * TICKS_PER_SEC"
definition TCP_KEEPALIVE_DELAY :: u64 where "TCP_KEEPALIVE_DELAY = 15 * TICKS_PER_SEC"
definition SIZEOF_TCP_HEADER :: nat where "SIZEOF_TCP_HEADER = 20"
definition MAX_LL_NET_HEADER_LEN :: nat where "MAX_LL_NET_HEADER_LEN = 64 + 40"
definition TCP_MAX_HEADER_LEN :: nat where
  "TCP_MAX_HEADER_LEN = MAX_LL_NET_HEADER_LEN + SIZEOF_TCP_HEADER + 4 + 4 + 12"

text \<open>The constants as numbers.\<close>

lemmas tcp_flag_defs = TCP_ACK_def TCP_PSH_def TCP_RST_def TCP_SYN_def TCP_FIN_def
lemmas tcp_state_defs = TCP_STATE_SENT_def TCP_FLAGS_SENT_def TCP_STATE_ACKED_def TCP_FLAGS_ACKED_def
  TCP_STATE_RCVD_def TCP_FLAGS_SENDING_def TCP_CLOSED_def TCP_LISTEN_def TCP_SYN_SENT_def TCP_SYN_RCVD_def
  TCP_ESTABLISHED_def TCP_FIN_WAIT_1_def TCP_FIN_WAIT_2_def TCP_CLOSING_OR_LAST_ACK_def
  TCP_TIME_WAIT_def TCP_CLOSE_WAIT_def TCP_CAN_SEND_DATA_def TCP_HAS_BEEN_ESTABLISHED_def
  TCP_CLOSED_GRACEFULLY_def
lemmas tcp_conn_flag_defs = TCP_XFER_CLOSED_def TCP_TS_ENABLED_def TCP_ACK_PENDING_def TCP_SACK_ENABLED_def
lemmas tcp_option_defs = TCP_OPTION_END_def TCP_OPTION_NOP_def TCP_OPTION_MSS_def TCP_OPTION_WS_def
  TCP_OPTION_SACK_PERMITTED_def TCP_OPTION_SACK_def TCP_OPTION_TS_def

text \<open>Testing a flag, setting a flag.\<close>

definition has :: "u32 \<Rightarrow> u32 \<Rightarrow> bool" where
  "has w fl \<longleftrightarrow> w AND fl \<noteq> 0"

section \<open>State\<close>

record tcp_sack_block =
  sack_left :: u32
  sack_right :: u32

record tcp_rx_queued =
  q_seq :: u32
  q_nxt :: u32
  q_flags :: u32
  q_data :: "u8 list"

datatype tcp_event =
    Transmit "u8 list"
  | Deliver "u8 list"
  | Accept "u8 list"
  | Shutdown "errno option"

record tcp_connection =
  conn_flags :: u32
  peer :: sockaddr_tcpip
  local_port :: u16
  mss :: u64
  tcp_state :: u32
  snd_seq :: u32
  snd_sent :: u32
  snd_win :: u32
  rcv_ack :: u32
  rcv_win :: u32
  ts_val :: u32
  ts_recent :: u32
  snd_win_scale :: u8
  rcv_win_scale :: u8
  sack :: "tcp_sack_block list"
  tx_queue :: "u8 list list"
  rx_queue :: "tcp_rx_queued list"
  process :: bool
  timer :: retry_timer
  keepalive :: retry_timer
  wait_timer :: retry_timer
  pending_flags :: pending_operation
  pending_data :: pending_operation
  linked :: bool
  events :: "tcp_event list"

datatype app_call =
    App_send "u8 list"
  | App_close "errno option"

record tcp_env =
  now :: u64
  iob_addr :: u64
  env_alloc :: "tcp_connection \<Rightarrow> nat \<Rightarrow> nat \<times> bool"
  env_tx :: "tcp_connection \<Rightarrow> u8 list \<Rightarrow> errno option"
  env_window :: "tcp_connection \<Rightarrow> u64"
  app_data :: "tcp_connection \<Rightarrow> u8 list \<Rightarrow> app_call list"
  app_window :: "tcp_connection \<Rightarrow> app_call list"

section \<open>Sequence numbers\<close>

definition tcp_cmp :: "u32 \<Rightarrow> u32 \<Rightarrow> int" where
  "tcp_cmp seq1 seq2 = sint (seq1 - seq2)"

definition tcp_in_window :: "u32 \<Rightarrow> u32 \<Rightarrow> u32 \<Rightarrow> bool" where
  "tcp_in_window seq start len \<longleftrightarrow> seq - start < len"

section \<open>Transmit data path\<close>

definition tcp_xmit_win :: "tcp_connection \<Rightarrow> u64" where
  "tcp_xmit_win c =
     (if \<not> TCP_CAN_SEND_DATA (tcp_state c) then 0
      else let len = ucast (snd_win c)
           in if len > TCP_PATH_MTU then TCP_PATH_MTU else len)"

definition tcp_xfer_window :: "tcp_connection \<Rightarrow> u64" where
  "tcp_xfer_window c = (if tx_queue c \<noteq> [] then 0 else tcp_xmit_win c)"

text \<open>The search of \<open>tcp_sack_block()\<close> through the receive queue.\<close>

fun sack_scan :: "u32 \<Rightarrow> tcp_rx_queued list \<Rightarrow> u32 \<Rightarrow> u32 \<Rightarrow> u32 \<times> u32" where
  "sack_scan seq [] lft rgt = (lft, rgt)"
| "sack_scan seq (q # qs) lft rgt =
     (if tcp_cmp (q_seq q) rgt > 0 \<and> tcp_cmp (q_seq q) seq > 0 then (lft, rgt)
      else sack_scan seq qs
             (if tcp_cmp (q_seq q) rgt > 0 then q_seq q else lft)
             (if tcp_cmp (q_nxt q) rgt > 0 then q_nxt q else rgt))"

definition tcp_sack_block :: "tcp_connection \<Rightarrow> u32 \<Rightarrow> tcp_sack_block option" where
  "tcp_sack_block c seq =
     (let (lft, rgt) = sack_scan seq (rx_queue c) (rcv_ack c) (rcv_ack c)
      in if tcp_cmp rgt seq < 0 then None
         else if rgt - lft = 0 then None
         else Some \<lparr> sack_left = lft, sack_right = rgt \<rparr>)"

text \<open>
  The loop of \<open>tcp_sack()\<close> over the old blocks; \<open>new\<close> is the list built so far.
  A block that \<open>tcp_sack_block()\<close> reports with length zero is not counted.
\<close>

fun sack_loop :: "tcp_connection \<Rightarrow> tcp_sack_block list \<Rightarrow> tcp_sack_block list \<Rightarrow> tcp_sack_block list" where
  "sack_loop c [] new = new"
| "sack_loop c (old # olds) new =
     (if length new = TCP_SACK_MAX then new
      else if sack_left old = sack_right old then sack_loop c olds new
      else case tcp_sack_block c (sack_left old) of
          None \<Rightarrow> sack_loop c olds new
        | Some blk \<Rightarrow>
            if \<exists>b \<in> set new. sack_left b = sack_left blk then sack_loop c olds new
            else sack_loop c olds (new @ [blk]))"

definition tcp_sack :: "u32 \<Rightarrow> tcp_connection \<Rightarrow> tcp_connection \<times> nat" where
  "tcp_sack seq c =
     (let first = (case tcp_sack_block c seq of None \<Rightarrow> [] | Some blk \<Rightarrow> [blk]);
          new = sack_loop c (sack c) first
      in (c \<lparr> sack := new @ replicate (TCP_SACK_MAX - length new) \<lparr> sack_left = 0, sack_right = 0 \<rparr> \<rparr>,
          length new))"

text \<open>
  The walk of \<open>tcp_process_tx_queue()\<close>: the bytes processed, the buffers that
  remain, and the number of buffers removed.
\<close>

fun tx_walk :: "nat \<Rightarrow> bool \<Rightarrow> u8 list list \<Rightarrow> u8 list \<times> u8 list list \<times> nat" where
  "tx_walk max_len remove [] = ([], [], 0)"
| "tx_walk max_len remove (iobuf # queue) =
     (let frag_len = (if length iobuf > max_len then max_len else length iobuf);
          (data, queue', n) = tx_walk (max_len - frag_len) remove queue;
          iobuf' = (if remove then drop frag_len iobuf else iobuf)
      in if remove \<and> length iobuf' = 0
         then (take frag_len iobuf @ data, queue', n + 1)
         else (take frag_len iobuf @ data, iobuf' # queue', n))"

definition tcp_process_tx_queue :: "nat \<Rightarrow> bool \<Rightarrow> tcp_connection \<Rightarrow> tcp_connection \<times> u8 list" where
  "tcp_process_tx_queue max_len remove c =
     (let (data, queue, n) = tx_walk max_len remove (tx_queue c)
      in (c \<lparr> tx_queue := queue, pending_data := (pending_put ^^ n) (pending_data c) \<rparr>, data))"

text \<open>The options, in the order in which they stand in the packet.\<close>

definition mss_option :: "tcp_connection \<Rightarrow> u8 list" where
  "mss_option c = [TCP_OPTION_MSS, 4] @ htons (ucast (mss c))"

definition ws_option :: "u8 list" where
  "ws_option = [TCP_OPTION_NOP, TCP_OPTION_WS, 3, TCP_RX_WINDOW_SCALE]"

definition sp_option :: "u8 list" where
  "sp_option = [TCP_OPTION_NOP, TCP_OPTION_NOP, TCP_OPTION_SACK_PERMITTED, 2]"

definition ts_option :: "u64 \<Rightarrow> tcp_connection \<Rightarrow> u8 list" where
  "ts_option ticks c =
     [TCP_OPTION_NOP, TCP_OPTION_NOP, TCP_OPTION_TS, 10] @ htonl (ucast ticks) @ htonl (ts_recent c)"

definition sack_option :: "tcp_sack_block list \<Rightarrow> u8 list" where
  "sack_option blocks =
     [TCP_OPTION_NOP, TCP_OPTION_NOP, TCP_OPTION_SACK, of_nat (2 + 8 * length blocks)]
     @ concat (map (\<lambda>b. htonl (sack_left b) @ htonl (sack_right b)) blocks)"

text \<open>A TCP header with a zero urgent pointer; \<open>csum\<close> is stored as it is.\<close>

definition tcp_header :: "u16 \<Rightarrow> u16 \<Rightarrow> u32 \<Rightarrow> u32 \<Rightarrow> u8 \<Rightarrow> u8 \<Rightarrow> u16 \<Rightarrow> u16 \<Rightarrow> u8 list" where
  "tcp_header src dest seq ack hlen fl win csum =
     (htons src @ htons dest @ htonl seq @ htonl ack @ [hlen, fl] @ htons win)
     @ store_csum csum @ [0, 0]"

text \<open>The expansion of the receive window at the start of a transmission.\<close>

definition expand_rcv_win :: "u64 \<Rightarrow> tcp_connection \<Rightarrow> tcp_connection" where
  "expand_rcv_win window c =
     (let max_rcv_win = ucast window :: u32;
          max_rcv_win = (if max_rcv_win > TCP_MAX_WINDOW_SIZE then TCP_MAX_WINDOW_SIZE else max_rcv_win);
          max_representable_win = push_bit (unat (rcv_win_scale c)) 0xffff;
          max_rcv_win = (if max_rcv_win > max_representable_win then max_representable_win else max_rcv_win);
          max_rcv_win = max_rcv_win AND NOT 0x03
      in if rcv_win c < max_rcv_win then c \<lparr> rcv_win := max_rcv_win \<rparr> else c)"

text \<open>The window of the application: an interface that was shut down has an unlimited one.\<close>

definition xfer_window :: "tcp_env \<Rightarrow> tcp_connection \<Rightarrow> u64" where
  "xfer_window env c = (if has (conn_flags c) TCP_XFER_CLOSED then NOT 0 else env_window env c)"

definition tcp_xmit_options :: "tcp_env \<Rightarrow> u32 \<Rightarrow> u32 \<Rightarrow> tcp_connection \<Rightarrow> tcp_connection \<times> u8 list" where
  "tcp_xmit_options env sack_seq fl c =
     (let syn_opts = (if has fl TCP_SYN then sp_option @ ws_option @ mss_option c else []);
          ts_opts = (if has fl TCP_SYN \<or> has (conn_flags c) TCP_TS_ENABLED then ts_option (now env) c else [])
      in if has (conn_flags c) TCP_SACK_ENABLED \<and> rx_queue c \<noteq> []
         then let (c, sack_count) = tcp_sack sack_seq c
              in (c, (if sack_count \<noteq> 0 then sack_option (take sack_count (sack c)) else []) @ ts_opts @ syn_opts)
         else (c, ts_opts @ syn_opts))"

definition tcp_build :: "tcp_env \<Rightarrow> u32 \<Rightarrow> u8 list \<Rightarrow> u8 list \<Rightarrow> tcp_connection \<Rightarrow> u8 list" where
  "tcp_build env fl opts data c =
     (let fl = (if length data \<noteq> 0 then fl OR TCP_PSH else fl);
          hlen = of_nat ((SIZEOF_TCP_HEADER + length opts) * 4);
          win = ucast (drop_bit (unat (rcv_win_scale c)) (rcv_win c));
          hdr = tcp_header (local_port c) (st_port (peer c)) (snd_seq c) (rcv_ack c) hlen (ucast fl) win;
          csum = tcpip_chksum (iob_addr env) (hdr 0 @ opts @ data)
      in hdr csum @ opts @ data)"

text \<open>The payload length and the sequence space length of the next packet.\<close>

definition xmit_len :: "tcp_connection \<Rightarrow> nat" where
  "xmit_len c =
     (if TCP_CAN_SEND_DATA (tcp_state c)
      then length (snd (tcp_process_tx_queue (unat (tcp_xmit_win c)) False c)) else 0)"

definition xmit_seq_len :: "tcp_connection \<Rightarrow> u32" where
  "xmit_seq_len c = of_nat (xmit_len c)
     + (if has (TCP_FLAGS_SENDING (tcp_state c)) (TCP_SYN OR TCP_FIN) then 1 else 0)"

text \<open>The second half of \<open>tcp_xmit_sack()\<close>: fill the buffer, build the header, hand it over.\<close>

definition xmit_send :: "tcp_env \<Rightarrow> u32 \<Rightarrow> nat \<Rightarrow> tcp_connection \<Rightarrow> tcp_connection" where
  "xmit_send env sack_seq len c =
     (let fl = TCP_FLAGS_SENDING (tcp_state c);
          data = snd (tcp_process_tx_queue len False c);
          c = expand_rcv_win (xfer_window env c) c;
          (c, opts) = tcp_xmit_options env sack_seq fl c;
          pkt = tcp_build env fl opts data c;
          rc = env_tx env c pkt;
          c = c \<lparr> events := events c @ [Transmit pkt] \<rparr>
      in if rc \<noteq> None then c
         else c \<lparr> conn_flags := conn_flags c AND NOT TCP_ACK_PENDING \<rparr>)"

definition tcp_xmit_sack :: "tcp_env \<Rightarrow> u32 \<Rightarrow> tcp_connection \<Rightarrow> tcp_connection" where
  "tcp_xmit_sack env sack_seq c =
     (if timer_running (timer c) then c
      else
        let len = xmit_len c;
            seq_len = xmit_seq_len c;
            c = c \<lparr> snd_sent := seq_len \<rparr>
        in if seq_len = 0 \<and> \<not> has (conn_flags c) TCP_ACK_PENDING then c
           else
             let c = (if seq_len \<noteq> 0 then c \<lparr> timer := start_timer (now env) (timer c) \<rparr> else c);
                 (discarded, allocated) = env_alloc env c (len + TCP_MAX_HEADER_LEN);
                 c = c \<lparr> rx_queue := take (length (rx_queue c) - discarded) (rx_queue c) \<rparr>
             in if \<not> allocated then c else xmit_send env sack_seq len c)"

definition tcp_xmit :: "tcp_env \<Rightarrow> tcp_connection \<Rightarrow> tcp_connection" where
  "tcp_xmit env c = tcp_xmit_sack env (rcv_ack c) c"

definition tcp_xmit_reset :: "tcp_env \<Rightarrow> u8 list \<Rightarrow> tcp_connection \<Rightarrow> tcp_connection" where
  "tcp_xmit_reset env in_hdr c =
     (let (discarded, allocated) = env_alloc env c TCP_MAX_HEADER_LEN;
          c = c \<lparr> rx_queue := take (length (rx_queue c) - discarded) (rx_queue c) \<rparr>
      in if \<not> allocated then c
         else let hdr = tcp_header (ntohs (drop 2 in_hdr)) (ntohs in_hdr) (ntohl (drop 8 in_hdr)) (ntohl (drop 4 in_hdr))
                          (of_nat (SIZEOF_TCP_HEADER div 4 * 16)) (ucast (TCP_RST OR TCP_ACK)) 0;
                  csum = tcpip_chksum (iob_addr env) (hdr 0)
              in c \<lparr> events := events c @ [Transmit (hdr csum)] \<rparr>)"

section \<open>Acknowledgements and closing\<close>

text \<open>The last step of \<open>tcp_rx_ack()\<close>: start sending FIN if all data was acknowledged.\<close>

definition rx_ack_fin :: "tcp_connection \<Rightarrow> tcp_connection" where
  "rx_ack_fin c =
     (if tx_queue c = [] \<and> has (conn_flags c) TCP_XFER_CLOSED
         \<and> \<not> has (tcp_state c) (TCP_STATE_SENT TCP_FIN)
      then c \<lparr> tcp_state := tcp_state c OR TCP_STATE_SENT TCP_FIN,
               pending_flags := pending_get (pending_flags c) \<rparr>
      else c)"

text \<open>The part of \<open>tcp_rx_ack()\<close> for an ACK of something new.\<close>

definition rx_ack_core :: "tcp_env \<Rightarrow> u32 \<Rightarrow> tcp_connection \<Rightarrow> tcp_connection" where
  "rx_ack_core env ack c =
     (let ack_len = ack - snd_seq c;
          acked_flags = TCP_FLAGS_SENDING (tcp_state c) AND (TCP_SYN OR TCP_FIN);
          len = (if acked_flags \<noteq> 0 then unat ack_len - 1 else unat ack_len);
          c = c \<lparr> timer := stop_timer (now env) (timer c),
                  pending_flags := (if acked_flags \<noteq> 0 then pending_put (pending_flags c) else pending_flags c),
                  snd_seq := ack, snd_sent := 0 \<rparr>;
          c = fst (tcp_process_tx_queue len True c)
      in c \<lparr> tcp_state := (if acked_flags \<noteq> 0 then tcp_state c OR TCP_STATE_ACKED acked_flags
                            else tcp_state c) \<rparr>)"

definition rx_ack_new :: "tcp_env \<Rightarrow> u32 \<Rightarrow> tcp_connection \<Rightarrow> tcp_connection" where
  "rx_ack_new env ack c = rx_ack_fin (rx_ack_core env ack c)"

definition tcp_rx_ack :: "tcp_env \<Rightarrow> u32 \<Rightarrow> u32 \<Rightarrow> tcp_connection \<Rightarrow> tcp_connection \<times> errno option" where
  "tcp_rx_ack env ack win c =
     (let ack_len = ack - snd_seq c
      in if ack_len > snd_sent c
         then (c, if TCP_HAS_BEEN_ESTABLISHED (tcp_state c) then None else Some EINVAL)
         else
           let c = c \<lparr> snd_win := win,
                       keepalive := (if \<not> has (tcp_state c) (TCP_STATE_SENT TCP_FIN)
                          then start_timer_fixed (now env) TCP_KEEPALIVE_DELAY (keepalive c) else keepalive c) \<rparr>
           in (if ack_len = 0 then c else rx_ack_new env ack c, None))"

text \<open>\<open>intf_shutdown()\<close> on an interface that is still open informs the application.\<close>

definition intf_shutdown :: "errno option \<Rightarrow> tcp_connection \<Rightarrow> tcp_connection" where
  "intf_shutdown rc c =
     (if has (conn_flags c) TCP_XFER_CLOSED then c
      else c \<lparr> conn_flags := conn_flags c OR TCP_XFER_CLOSED, events := events c @ [Shutdown rc] \<rparr>)"

definition tcp_delete :: "tcp_env \<Rightarrow> tcp_connection \<Rightarrow> tcp_connection" where
  "tcp_delete env c =
     c \<lparr> tcp_state := TCP_CLOSED, rx_queue := [], tx_queue := [],
         pending_data := (pending_put ^^ length (tx_queue c)) (pending_data c),
         pending_flags := pending_put (pending_put (pending_flags c)),
         process := False,
         timer := stop_timer (now env) (timer c),
         keepalive := stop_timer (now env) (keepalive c),
         wait_timer := stop_timer (now env) (wait_timer c),
         linked := False \<rparr>"

definition tcp_close :: "tcp_env \<Rightarrow> errno option \<Rightarrow> tcp_connection \<Rightarrow> tcp_connection" where
  "tcp_close env rc c =
     (let c = intf_shutdown rc c
      in if \<not> has (tcp_state c) (TCP_STATE_RCVD TCP_SYN) then tcp_delete env c
         else
           let c = (if \<not> has (tcp_state c) (TCP_STATE_ACKED TCP_SYN)
                    then fst (tcp_rx_ack env (snd_seq c + 1) 0 c) else c);
               c = c \<lparr> keepalive := stop_timer (now env) (keepalive c) \<rparr>
           in if tx_queue c = [] \<and> \<not> has (tcp_state c) (TCP_STATE_SENT TCP_FIN)
              then c \<lparr> tcp_state := tcp_state c OR TCP_STATE_SENT TCP_FIN, process := True,
                       pending_flags := pending_get (pending_flags c) \<rparr>
              else c)"

section \<open>Calls of the application\<close>

definition tcp_xfer_close :: "tcp_env \<Rightarrow> errno option \<Rightarrow> tcp_connection \<Rightarrow> tcp_connection" where
  "tcp_xfer_close env rc c = tcp_xmit env (tcp_close env rc c)"

definition tcp_xfer_deliver :: "tcp_env \<Rightarrow> u8 list \<Rightarrow> tcp_connection \<Rightarrow> tcp_connection" where
  "tcp_xfer_deliver env iobuf c =
     tcp_xmit env (c \<lparr> tx_queue := tx_queue c @ [iobuf], pending_data := pending_get (pending_data c),
                       events := events c @ [Accept iobuf] \<rparr>)"

text \<open>
  The calls that the application makes from a callback; once the interface is
  shut down they reach the null interface and do nothing.
\<close>

fun run_app :: "tcp_env \<Rightarrow> app_call list \<Rightarrow> tcp_connection \<Rightarrow> tcp_connection" where
  "run_app env [] c = c"
| "run_app env (call # calls) c =
     (if has (conn_flags c) TCP_XFER_CLOSED then c
      else run_app env calls
             (case call of
                App_send iobuf \<Rightarrow> tcp_xfer_deliver env iobuf c
              | App_close rc \<Rightarrow> tcp_xfer_close env rc c))"

section \<open>Receive data path\<close>

record tcp_options =
  wsopt :: "u8 option"
  spopt :: bool
  tsopt :: "u32 option"

definition option_min :: "u8 \<Rightarrow> nat" where
  "option_min kind =
     (if kind = TCP_OPTION_WS then 3 else if kind = TCP_OPTION_SACK_PERMITTED then 2
      else if kind = TCP_OPTION_TS then 10 else 2)"

definition record_option :: "u8 \<Rightarrow> u8 list \<Rightarrow> tcp_options \<Rightarrow> tcp_options" where
  "record_option kind data opts =
     (if kind = TCP_OPTION_WS then opts \<lparr> wsopt := Some (data ! 2) \<rparr>
      else if kind = TCP_OPTION_SACK_PERMITTED then opts \<lparr> spopt := True \<rparr>
      else if kind = TCP_OPTION_TS then opts \<lparr> tsopt := Some (ntohl (drop 2 data)) \<rparr>
      else opts)"

function rx_opts_loop :: "u8 list \<Rightarrow> tcp_options \<Rightarrow> tcp_options result" where
  "rx_opts_loop data opts =
     (if data = [] then Inr opts
      else
        let kind = hd data
        in if kind = TCP_OPTION_END then Inr opts
           else if kind = TCP_OPTION_NOP then rx_opts_loop (tl data) opts
           else if length data < option_min kind then Inl EINVAL
           else if unat (data ! 1) < option_min kind then Inl EINVAL
           else if unat (data ! 1) > length data then Inl EINVAL
           else rx_opts_loop (drop (unat (data ! 1)) data) (record_option kind data opts))"
  by pat_completeness auto
termination
  by (relation "measure (\<lambda>(data, opts). length data)")
    (auto simp: option_min_def split: if_splits)

declare rx_opts_loop.simps [simp del]

definition tcp_rx_opts :: "u8 list \<Rightarrow> nat \<Rightarrow> tcp_options result" where
  "tcp_rx_opts pkt hlen =
     rx_opts_loop (take (hlen - SIZEOF_TCP_HEADER) (drop SIZEOF_TCP_HEADER pkt))
       \<lparr> wsopt = None, spopt = False, tsopt = None \<rparr>"

definition clip_sack :: "u32 \<Rightarrow> tcp_sack_block \<Rightarrow> tcp_sack_block" where
  "clip_sack ack b =
     (if sack_left b = sack_right b then b
      else \<lparr> sack_left = (if tcp_cmp (sack_left b) ack < 0 then ack else sack_left b),
             sack_right = (if tcp_cmp (sack_right b) ack < 0 then ack else sack_right b) \<rparr>)"

definition tcp_rx_seq :: "u32 \<Rightarrow> tcp_connection \<Rightarrow> tcp_connection" where
  "tcp_rx_seq seq_len c =
     (let ack = rcv_ack c + seq_len
      in c \<lparr> rcv_ack := ack,
             rcv_win := (if rcv_win c > seq_len then rcv_win c - seq_len else 0),
             ts_recent := ts_val c,
             sack := map (clip_sack ack) (sack c),
             conn_flags := conn_flags c OR TCP_ACK_PENDING \<rparr>)"

definition tcp_rx_syn :: "u32 \<Rightarrow> tcp_options \<Rightarrow> tcp_connection \<Rightarrow> tcp_connection" where
  "tcp_rx_syn seq opts c =
     (let c = (if \<not> has (tcp_state c) (TCP_STATE_RCVD TCP_SYN)
               then c \<lparr> rcv_ack := seq,
                        conn_flags := conn_flags c
                          OR (if tsopt opts \<noteq> None then TCP_TS_ENABLED else 0)
                          OR (if spopt opts then TCP_SACK_ENABLED else 0),
                        snd_win_scale := (case wsopt opts of Some scale \<Rightarrow> scale | None \<Rightarrow> snd_win_scale c),
                        rcv_win_scale := (case wsopt opts of Some _ \<Rightarrow> TCP_RX_WINDOW_SCALE
                                          | None \<Rightarrow> rcv_win_scale c) \<rparr>
               else c)
      in if seq \<noteq> rcv_ack c then c
         else let c = tcp_rx_seq 1 c
              in c \<lparr> tcp_state := tcp_state c OR (TCP_STATE_SENT TCP_ACK OR TCP_STATE_RCVD TCP_SYN) \<rparr>)"

definition deliver_data :: "tcp_env \<Rightarrow> u8 list \<Rightarrow> tcp_connection \<Rightarrow> tcp_connection" where
  "deliver_data env data c =
     (if has (conn_flags c) TCP_XFER_CLOSED then c
      else run_app env (app_data env c data) (c \<lparr> events := events c @ [Deliver data] \<rparr>))"

definition tcp_rx_data :: "tcp_env \<Rightarrow> u32 \<Rightarrow> u8 list \<Rightarrow> tcp_connection \<Rightarrow> tcp_connection" where
  "tcp_rx_data env seq data c =
     (let already_rcvd = rcv_ack c - seq;
          len = of_nat (length data) :: u32
      in if already_rcvd \<ge> len then c
         else let data = drop (unat already_rcvd) data;
                  c = tcp_rx_seq (len - already_rcvd) c
              in deliver_data env data c)"

definition tcp_rx_fin :: "tcp_env \<Rightarrow> u32 \<Rightarrow> tcp_connection \<Rightarrow> tcp_connection" where
  "tcp_rx_fin env seq c =
     (if seq \<noteq> rcv_ack c then c
      else let c = tcp_rx_seq 1 c;
               c = c \<lparr> tcp_state := tcp_state c OR TCP_STATE_RCVD TCP_FIN \<rparr>
           in tcp_close env None c)"

definition tcp_rx_rst :: "tcp_env \<Rightarrow> u32 \<Rightarrow> tcp_connection \<Rightarrow> tcp_connection \<times> errno option" where
  "tcp_rx_rst env seq c =
     (if (if has (tcp_state c) (TCP_STATE_RCVD TCP_SYN) then \<not> tcp_in_window seq (rcv_ack c) (rcv_win c)
          else \<not> has (tcp_state c) (TCP_STATE_ACKED TCP_SYN))
      then (c, None)
      else (tcp_close env (Some ECONNRESET) (c \<lparr> tcp_state := TCP_CLOSED \<rparr>), Some ECONNRESET))"

fun rx_insert :: "tcp_rx_queued \<Rightarrow> tcp_rx_queued list \<Rightarrow> tcp_rx_queued list" where
  "rx_insert q [] = [q]"
| "rx_insert q (queued # qs) =
     (if tcp_cmp (q_seq q) (q_seq queued) < 0 then q # queued # qs else queued # rx_insert q qs)"

definition tcp_rx_enqueue :: "u32 \<Rightarrow> u32 \<Rightarrow> u8 list \<Rightarrow> tcp_connection \<Rightarrow> tcp_connection" where
  "tcp_rx_enqueue seq fl data c =
     (let fl = fl AND TCP_FIN;
          seq_len = of_nat (length data + (if fl \<noteq> 0 then 1 else 0)) :: u32;
          nxt = seq + seq_len
      in if \<not> has (tcp_state c) (TCP_STATE_RCVD TCP_SYN)
            \<or> tcp_cmp seq (rcv_ack c + rcv_win c) \<ge> 0
            \<or> tcp_cmp nxt (rcv_ack c) < 0
            \<or> seq_len = 0
         then c
         else c \<lparr> rx_queue := rx_insert \<lparr> q_seq = seq, q_nxt = nxt, q_flags = fl, q_data = data \<rparr> (rx_queue c) \<rparr>)"

section \<open>What transmission and the application leave alone\<close>

text \<open>
  Transmitting, handling an acknowledgement, closing, and the calls of the
  application do not move the receive sequence number, hand no data to the
  application, and do nothing to the receive queue but drop packets from its end.
\<close>

definition delivered :: "tcp_connection \<Rightarrow> u8 list" where
  "delivered c = concat (map (\<lambda>e. case e of Deliver d \<Rightarrow> d | _ \<Rightarrow> []) (events c))"

definition rx_frame :: "tcp_connection \<Rightarrow> tcp_connection \<Rightarrow> bool" where
  "rx_frame c c' \<longleftrightarrow> rcv_ack c' = rcv_ack c \<and> delivered c' = delivered c
     \<and> (\<exists>n. rx_queue c' = take n (rx_queue c))
     \<and> (has (conn_flags c) TCP_XFER_CLOSED \<longrightarrow> has (conn_flags c') TCP_XFER_CLOSED)
     \<and> (rcv_win c \<le> TCP_MAX_WINDOW_SIZE \<longrightarrow> rcv_win c' \<le> TCP_MAX_WINDOW_SIZE)
     \<and> (has (tcp_state c') (TCP_STATE_RCVD TCP_SYN) \<longrightarrow> has (tcp_state c) (TCP_STATE_RCVD TCP_SYN))"

lemma rx_frame_refl [intro]: "rx_frame c c"
  by (auto simp: rx_frame_def intro: exI [of _ "length (rx_queue c)"])

lemma rx_frame_trans [trans]: "rx_frame a b \<Longrightarrow> rx_frame b c \<Longrightarrow> rx_frame a c"
  unfolding rx_frame_def by (metis take_take)

lemma rx_frame_same:
  assumes "rcv_ack c' = rcv_ack c" "events c' = events c" "rx_queue c' = rx_queue c" "conn_flags c' = conn_flags c"
    "rcv_win c' = rcv_win c"
    "has (tcp_state c') (TCP_STATE_RCVD TCP_SYN) \<Longrightarrow> has (tcp_state c) (TCP_STATE_RCVD TCP_SYN)"
  shows "rx_frame c c'"
  using assms by (auto simp: rx_frame_def delivered_def intro: exI [of _ "length (rx_queue c)"])

lemma has_or: "has (a OR b) f \<longleftrightarrow> has a f \<or> has b f"
  unfolding has_def by (simp add: bit_eq_iff bit_simps) blast

lemma closed_and_not_pending:
  "has (fl AND NOT TCP_ACK_PENDING) TCP_XFER_CLOSED \<longleftrightarrow> has fl TCP_XFER_CLOSED"
proof -
  have "NOT TCP_ACK_PENDING AND TCP_XFER_CLOSED = TCP_XFER_CLOSED"
    by (simp add: tcp_conn_flag_defs)
  then show ?thesis by (simp add: has_def and.assoc)
qed

lemma expand_rcv_win_fields [simp]:
  "rcv_ack (expand_rcv_win w c) = rcv_ack c" "events (expand_rcv_win w c) = events c"
  "rx_queue (expand_rcv_win w c) = rx_queue c" "conn_flags (expand_rcv_win w c) = conn_flags c"
  "tcp_state (expand_rcv_win w c) = tcp_state c" "tx_queue (expand_rcv_win w c) = tx_queue c"
  "snd_seq (expand_rcv_win w c) = snd_seq c" "snd_sent (expand_rcv_win w c) = snd_sent c"
  "pending_flags (expand_rcv_win w c) = pending_flags c" "pending_data (expand_rcv_win w c) = pending_data c"
  "timer (expand_rcv_win w c) = timer c" "linked (expand_rcv_win w c) = linked c"
  "sack (expand_rcv_win w c) = sack c" "snd_win (expand_rcv_win w c) = snd_win c"
  "snd_win_scale (expand_rcv_win w c) = snd_win_scale c"
  by (simp_all add: expand_rcv_win_def Let_def)

lemma expand_rcv_win_bound:
  "rcv_win c \<le> TCP_MAX_WINDOW_SIZE \<Longrightarrow> rcv_win (expand_rcv_win w c) \<le> TCP_MAX_WINDOW_SIZE"
proof -
  have "x AND NOT 3 \<le> m" if "x \<le> m" for x m :: u32
    using order_trans [OF word_and_le2 that] .
  then show "rcv_win c \<le> TCP_MAX_WINDOW_SIZE \<Longrightarrow> ?thesis"
    by (auto simp: expand_rcv_win_def Let_def not_less intro: order_trans less_imp_le)
qed

lemma xmit_options_fields [simp]:
  "rcv_ack (fst (tcp_xmit_options env q fl c)) = rcv_ack c"
  "events (fst (tcp_xmit_options env q fl c)) = events c"
  "rx_queue (fst (tcp_xmit_options env q fl c)) = rx_queue c"
  "conn_flags (fst (tcp_xmit_options env q fl c)) = conn_flags c"
  "tcp_state (fst (tcp_xmit_options env q fl c)) = tcp_state c"
  "tx_queue (fst (tcp_xmit_options env q fl c)) = tx_queue c"
  "snd_seq (fst (tcp_xmit_options env q fl c)) = snd_seq c"
  "snd_sent (fst (tcp_xmit_options env q fl c)) = snd_sent c"
  "pending_flags (fst (tcp_xmit_options env q fl c)) = pending_flags c"
  "pending_data (fst (tcp_xmit_options env q fl c)) = pending_data c"
  "timer (fst (tcp_xmit_options env q fl c)) = timer c"
  "linked (fst (tcp_xmit_options env q fl c)) = linked c"
  "snd_win (fst (tcp_xmit_options env q fl c)) = snd_win c"
  "snd_win_scale (fst (tcp_xmit_options env q fl c)) = snd_win_scale c"
  "rcv_win (fst (tcp_xmit_options env q fl c)) = rcv_win c"
  by (simp_all add: tcp_xmit_options_def tcp_sack_def Let_def)

text \<open>What a transmission can change.\<close>

definition xmit_frame :: "tcp_connection \<Rightarrow> tcp_connection \<Rightarrow> bool" where
  "xmit_frame c c' \<longleftrightarrow>
     tcp_state c' = tcp_state c \<and> tx_queue c' = tx_queue c \<and> snd_seq c' = snd_seq c
     \<and> pending_flags c' = pending_flags c \<and> pending_data c' = pending_data c
     \<and> linked c' = linked c \<and> rcv_ack c' = rcv_ack c
     \<and> snd_win c' = snd_win c \<and> snd_win_scale c' = snd_win_scale c
     \<and> (rcv_win c \<le> TCP_MAX_WINDOW_SIZE \<longrightarrow> rcv_win c' \<le> TCP_MAX_WINDOW_SIZE)
     \<and> (snd_sent c' = snd_sent c \<or> snd_sent c' = xmit_seq_len c)
     \<and> (\<exists>n. rx_queue c' = take n (rx_queue c))
     \<and> (events c' = events c \<or> (\<exists>pkt. events c' = events c @ [Transmit pkt]))
     \<and> (conn_flags c' = conn_flags c \<or> conn_flags c' = conn_flags c AND NOT TCP_ACK_PENDING)"

lemma xmit_send_frame:
  "let c' = xmit_send env q len c in
     tcp_state c' = tcp_state c \<and> tx_queue c' = tx_queue c \<and> snd_seq c' = snd_seq c
     \<and> pending_flags c' = pending_flags c \<and> pending_data c' = pending_data c
     \<and> linked c' = linked c \<and> rcv_ack c' = rcv_ack c \<and> snd_sent c' = snd_sent c
     \<and> snd_win c' = snd_win c \<and> snd_win_scale c' = snd_win_scale c
     \<and> (rcv_win c \<le> TCP_MAX_WINDOW_SIZE \<longrightarrow> rcv_win c' \<le> TCP_MAX_WINDOW_SIZE)
     \<and> rx_queue c' = rx_queue c \<and> timer c' = timer c
     \<and> (\<exists>pkt. events c' = events c @ [Transmit pkt])
     \<and> (conn_flags c' = conn_flags c \<or> conn_flags c' = conn_flags c AND NOT TCP_ACK_PENDING)"
  by (simp add: xmit_send_def Let_def case_prod_beta expand_rcv_win_bound)

lemma xmit_frame_send:
  assumes "xmit_frame c c3" "events c3 = events c" "conn_flags c3 = conn_flags c"
  shows "xmit_frame c (xmit_send env q len c3)"
  using assms xmit_send_frame [of env q len c3] unfolding xmit_frame_def Let_def by simp

lemma xmit_frame_xmit_sack: "xmit_frame c (tcp_xmit_sack env q c)"
proof -
  define c1 where "c1 = c \<lparr> snd_sent := xmit_seq_len c \<rparr>"
  define c2 where "c2 = (if xmit_seq_len c \<noteq> 0 then c1 \<lparr> timer := start_timer (now env) (timer c1) \<rparr> else c1)"
  obtain n ok where a: "env_alloc env c2 (xmit_len c + TCP_MAX_HEADER_LEN) = (n, ok)" by fastforce
  define c3 where "c3 = c2 \<lparr> rx_queue := take (length (rx_queue c2) - n) (rx_queue c2) \<rparr>"
  have f3: "xmit_frame c c3" and f1: "xmit_frame c c1" and f0: "xmit_frame c c"
    by (auto simp: xmit_frame_def c3_def c2_def c1_def intro: exI [of _ "length (rx_queue c)"])
  have "xmit_frame c (xmit_send env q (xmit_len c) c3)"
    by (rule xmit_frame_send [OF f3]) (simp_all add: c3_def c2_def c1_def)
  moreover have "tcp_xmit_sack env q c = (if timer_running (timer c) then c
      else if xmit_seq_len c = 0 \<and> \<not> has (conn_flags c1) TCP_ACK_PENDING then c1
      else if \<not> ok then c3 else xmit_send env q (xmit_len c) c3)"
    unfolding tcp_xmit_sack_def Let_def c1_def [symmetric]
    unfolding c2_def [symmetric] a prod.case c3_def [symmetric] ..
  ultimately show ?thesis using f0 f1 f3 by simp
qed

lemma rx_frame_xmit: "xmit_frame c c' \<Longrightarrow> rx_frame c c'"
  unfolding xmit_frame_def rx_frame_def delivered_def
  by (auto simp: closed_and_not_pending)

lemma process_tx_queue_fields [simp]:
  "fst (tcp_process_tx_queue n r c) = c \<lparr> tx_queue := fst (snd (tx_walk n r (tx_queue c))),
     pending_data := (pending_put ^^ snd (snd (tx_walk n r (tx_queue c)))) (pending_data c) \<rparr>"
  "snd (tcp_process_tx_queue n r c) = fst (tx_walk n r (tx_queue c))"
  by (simp_all add: tcp_process_tx_queue_def case_prod_beta Let_def)

lemma rx_ack_fin_fields [simp]:
  "rcv_ack (rx_ack_fin c) = rcv_ack c" "events (rx_ack_fin c) = events c"
  "rx_queue (rx_ack_fin c) = rx_queue c" "conn_flags (rx_ack_fin c) = conn_flags c"
  "linked (rx_ack_fin c) = linked c" "tx_queue (rx_ack_fin c) = tx_queue c"
  "snd_seq (rx_ack_fin c) = snd_seq c" "snd_sent (rx_ack_fin c) = snd_sent c"
  "timer (rx_ack_fin c) = timer c" "pending_data (rx_ack_fin c) = pending_data c"
  by (simp_all add: rx_ack_fin_def)

lemma rx_ack_core_fields [simp]:
  "rcv_ack (rx_ack_core env ack c) = rcv_ack c" "events (rx_ack_core env ack c) = events c"
  "rx_queue (rx_ack_core env ack c) = rx_queue c" "conn_flags (rx_ack_core env ack c) = conn_flags c"
  "linked (rx_ack_core env ack c) = linked c" "snd_seq (rx_ack_core env ack c) = ack"
  "snd_sent (rx_ack_core env ack c) = 0" "timer (rx_ack_core env ack c) = stop_timer (now env) (timer c)"
  "keepalive (rx_ack_core env ack c) = keepalive c"
  by (simp_all add: rx_ack_core_def Let_def)

lemma rx_ack_new_fields [simp]:
  "rcv_ack (rx_ack_new env ack c) = rcv_ack c" "events (rx_ack_new env ack c) = events c"
  "rx_queue (rx_ack_new env ack c) = rx_queue c" "conn_flags (rx_ack_new env ack c) = conn_flags c"
  "linked (rx_ack_new env ack c) = linked c" "snd_seq (rx_ack_new env ack c) = ack"
  "snd_sent (rx_ack_new env ack c) = 0"
  by (simp_all add: rx_ack_new_def)

lemma rsyn_or:
  "has (st OR TCP_STATE_ACKED (x AND (TCP_SYN OR TCP_FIN))) (TCP_STATE_RCVD TCP_SYN) \<longleftrightarrow> has st (TCP_STATE_RCVD TCP_SYN)"
  "has (st OR TCP_STATE_SENT TCP_FIN) (TCP_STATE_RCVD TCP_SYN) \<longleftrightarrow> has st (TCP_STATE_RCVD TCP_SYN)"
proof -
  have z: "TCP_STATE_ACKED (x AND (TCP_SYN OR TCP_FIN)) AND TCP_STATE_RCVD TCP_SYN = 0"
  proof -
    have "push_bit 8 (x AND 3) AND 0x20000 = push_bit 8 x AND (0x300 AND 0x20000)" for x :: u32
      by (simp add: push_bit_and and.assoc)
    then show ?thesis by (simp add: tcp_flag_defs tcp_state_defs)
  qed
  show "has (st OR TCP_STATE_ACKED (x AND (TCP_SYN OR TCP_FIN))) (TCP_STATE_RCVD TCP_SYN) \<longleftrightarrow> has st (TCP_STATE_RCVD TCP_SYN)"
    unfolding has_or using z by (simp add: has_def)
  show "has (st OR TCP_STATE_SENT TCP_FIN) (TCP_STATE_RCVD TCP_SYN) \<longleftrightarrow> has st (TCP_STATE_RCVD TCP_SYN)"
    unfolding has_or by (simp add: has_def tcp_flag_defs tcp_state_defs)
qed

lemma rx_ack_core_rsyn [simp]:
  "has (tcp_state (rx_ack_core env ack c)) (TCP_STATE_RCVD TCP_SYN) \<longleftrightarrow> has (tcp_state c) (TCP_STATE_RCVD TCP_SYN)"
  "rcv_win (rx_ack_core env ack c) = rcv_win c"
  by (simp_all add: rx_ack_core_def Let_def rsyn_or)

lemma rx_ack_fin_rsyn [simp]:
  "has (tcp_state (rx_ack_fin c)) (TCP_STATE_RCVD TCP_SYN) \<longleftrightarrow> has (tcp_state c) (TCP_STATE_RCVD TCP_SYN)"
  "rcv_win (rx_ack_fin c) = rcv_win c"
  by (simp_all add: rx_ack_fin_def rsyn_or)

lemma rx_ack_rsyn [simp]:
  "has (tcp_state (fst (tcp_rx_ack env ack win c))) (TCP_STATE_RCVD TCP_SYN) \<longleftrightarrow> has (tcp_state c) (TCP_STATE_RCVD TCP_SYN)"
  "rcv_win (fst (tcp_rx_ack env ack win c)) = rcv_win c"
  by (simp_all add: tcp_rx_ack_def rx_ack_new_def Let_def)

lemma rx_ack_fields [simp]:
  "rcv_ack (fst (tcp_rx_ack env ack win c)) = rcv_ack c"
  "events (fst (tcp_rx_ack env ack win c)) = events c"
  "rx_queue (fst (tcp_rx_ack env ack win c)) = rx_queue c"
  "conn_flags (fst (tcp_rx_ack env ack win c)) = conn_flags c"
  "linked (fst (tcp_rx_ack env ack win c)) = linked c"
  by (simp_all add: tcp_rx_ack_def Let_def)

lemma rx_frame_close: "rx_frame c (tcp_close env rc c)"
proof -
  have 1: "rx_frame c (intf_shutdown rc c)"
    by (auto simp: rx_frame_def intf_shutdown_def delivered_def has_or intro: exI [of _ "length (rx_queue c)"])
  have 2: "rx_frame c1 (tcp_delete env c1)" for c1
    by (auto simp: rx_frame_def tcp_delete_def delivered_def has_def tcp_flag_defs tcp_state_defs intro: exI [of _ 0])
  have "rx_frame (intf_shutdown rc c) (tcp_close env rc c)"
    unfolding tcp_close_def Let_def by (simp add: 2) (auto intro!: rx_frame_same simp: rsyn_or)
  with 1 show ?thesis by (rule rx_frame_trans)
qed

lemma rx_frame_app:
  "rx_frame c (tcp_xmit env c)"
  "rx_frame c (tcp_xfer_close env rc c)"
  "rx_frame c (tcp_xfer_deliver env iobuf c)"
proof -
  show x: "rx_frame c (tcp_xmit env c)" for c
    by (simp add: tcp_xmit_def rx_frame_xmit xmit_frame_xmit_sack)
  show "rx_frame c (tcp_xfer_close env rc c)"
    unfolding tcp_xfer_close_def by (rule rx_frame_trans [OF rx_frame_close x])
  show "rx_frame c (tcp_xfer_deliver env iobuf c)"
    unfolding tcp_xfer_deliver_def by (rule rx_frame_trans [OF _ x]) (auto simp: rx_frame_def delivered_def intro: exI [of _ "length (rx_queue c)"])
qed

lemma rx_frame_run_app: "rx_frame c (run_app env calls c)"
proof (induction calls arbitrary: c)
  case (Cons call calls)
  have "rx_frame c (case call of App_send iobuf \<Rightarrow> tcp_xfer_deliver env iobuf c
      | App_close rc \<Rightarrow> tcp_xfer_close env rc c)"
    by (cases call) (simp_all add: rx_frame_app)
  then show ?case using rx_frame_trans [OF _ Cons.IH] by auto
qed auto

section \<open>The receive queue\<close>

lemma rx_seq_fields [simp]:
  "rx_queue (tcp_rx_seq n c) = rx_queue c" "events (tcp_rx_seq n c) = events c"
  "rcv_ack (tcp_rx_seq n c) = rcv_ack c + n"
  by (simp_all add: tcp_rx_seq_def Let_def)

lemma rx_frame_deliver_data: "rx_frame (if has (conn_flags c) TCP_XFER_CLOSED then c
    else c \<lparr> events := events c @ [Deliver data] \<rparr>) (deliver_data env data c)"
  using rx_frame_run_app by (simp add: deliver_data_def rx_frame_refl)

lemma deliver_data_queue: "\<exists>n. rx_queue (deliver_data env data c) = take n (rx_queue c)"
  using rx_frame_deliver_data [of c data env] unfolding rx_frame_def by (auto split: if_splits)

lemma rx_data_queue: "\<exists>n. rx_queue (tcp_rx_data env seq data c) = take n (rx_queue c)"
proof (cases "rcv_ack c - seq \<ge> (of_nat (length data) :: u32)")
  case True
  then show ?thesis by (auto simp: tcp_rx_data_def intro: exI [of _ "length (rx_queue c)"])
next
  case False
  then show ?thesis
    using deliver_data_queue [of env _ "tcp_rx_seq _ c"] by (simp add: tcp_rx_data_def Let_def)
qed

lemma rx_fin_queue: "\<exists>n. rx_queue (tcp_rx_fin env seq c) = take n (rx_queue c)"
proof (cases "seq = rcv_ack c")
  case True
  let ?c = "tcp_rx_seq 1 c"
  let ?c' = "?c \<lparr> tcp_state := tcp_state ?c OR TCP_STATE_RCVD TCP_FIN \<rparr>"
  have "\<exists>n. rx_queue (tcp_close env None ?c') = take n (rx_queue ?c')"
    using rx_frame_close [of ?c' env None] by (simp only: rx_frame_def)
  with True show ?thesis by (simp add: tcp_rx_fin_def Let_def)
qed (auto simp: tcp_rx_fin_def intro: exI [of _ "length (rx_queue c)"])

text \<open>
  One round of the loop of \<open>tcp_process_rx_queue()\<close>, for the first queued packet
  once it has been taken off the queue.
\<close>

definition process_queued :: "tcp_env \<Rightarrow> tcp_rx_queued \<Rightarrow> tcp_connection \<Rightarrow> tcp_connection" where
  "process_queued env q c =
     (let c = tcp_rx_data env (q_seq q) (q_data q) c;
          seq = q_seq q + of_nat (length (q_data q))
      in if has (q_flags q) TCP_FIN then tcp_rx_fin env seq c else c)"

lemma process_queued_queue: "\<exists>n. rx_queue (process_queued env q c) = take n (rx_queue c)"
proof -
  obtain n where n: "rx_queue (tcp_rx_data env (q_seq q) (q_data q) c) = take n (rx_queue c)"
    using rx_data_queue by blast
  obtain m where "rx_queue (tcp_rx_fin env (q_seq q + of_nat (length (q_data q)))
      (tcp_rx_data env (q_seq q) (q_data q) c)) = take m (rx_queue (tcp_rx_data env (q_seq q) (q_data q) c))"
    using rx_fin_queue by blast
  with n have "\<exists>k. rx_queue (tcp_rx_fin env (q_seq q + of_nat (length (q_data q)))
      (tcp_rx_data env (q_seq q) (q_data q) c)) = take k (rx_queue c)" by auto
  with n show ?thesis unfolding process_queued_def Let_def by auto
qed

function tcp_process_rx_queue :: "tcp_env \<Rightarrow> tcp_connection \<Rightarrow> tcp_connection" where
  "tcp_process_rx_queue env c =
     (case rx_queue c of
        [] \<Rightarrow> c
      | q # qs \<Rightarrow>
          if tcp_cmp (q_seq q) (rcv_ack c) > 0 then c
          else tcp_process_rx_queue env (process_queued env q (c \<lparr> rx_queue := qs \<rparr>)))"
  by pat_completeness auto
termination
proof (relation "measure (\<lambda>(env, c). length (rx_queue c))", goal_cases)
  case (2 env c q qs)
  then show ?case
    using process_queued_queue [of env q "c \<lparr> rx_queue := qs \<rparr>"] by auto
qed simp

declare tcp_process_rx_queue.simps [simp del]

section \<open>A received segment\<close>

definition notify_window :: "tcp_env \<Rightarrow> u64 \<Rightarrow> tcp_connection \<Rightarrow> tcp_connection" where
  "notify_window env old_xfer_window c =
     (if tcp_xfer_window c \<noteq> old_xfer_window then run_app env (app_window env c) c else c)"

text \<open>
  The part of \<open>tcp_rx()\<close> after ACK, SYN and RST have been handled: queue the
  payload, process the queue, schedule the answer.
\<close>

definition rx_content :: "tcp_env \<Rightarrow> u32 \<Rightarrow> u32 \<Rightarrow> u8 list \<Rightarrow> u64 \<Rightarrow> tcp_connection \<Rightarrow> tcp_connection" where
  "rx_content env seq fl data old_xfer_window c =
     (let c = tcp_rx_enqueue seq fl data c;
          c = tcp_process_rx_queue env c;
          c = (if rx_queue c = [] then c \<lparr> process := True \<rparr> else tcp_xmit_sack env seq c);
          c = (if TCP_CLOSED_GRACEFULLY (tcp_state c)
               then c \<lparr> wait_timer := start_timer_fixed (now env) (2 * TCP_MSL) (stop_timer (now env) (wait_timer c)) \<rparr>
               else c)
      in notify_window env old_xfer_window c)"

text \<open>The part for the SYN and RST flags.\<close>

definition rx_flags ::
    "tcp_env \<Rightarrow> u32 \<Rightarrow> u32 \<Rightarrow> tcp_options \<Rightarrow> u8 list \<Rightarrow> u64 \<Rightarrow> tcp_connection \<Rightarrow> tcp_connection \<times> errno option" where
  "rx_flags env seq fl opts data old_xfer_window c =
     (let c = (if has (tcp_state c) (TCP_STATE_RCVD TCP_SYN) \<and> seq \<noteq> rcv_ack c
               then c \<lparr> conn_flags := conn_flags c OR TCP_ACK_PENDING \<rparr> else c);
          c = (if has fl TCP_SYN then tcp_rx_syn seq opts c else c);
          seq = (if has fl TCP_SYN then seq + 1 else seq);
          (c, rc) = (if has fl TCP_RST then tcp_rx_rst env seq c else (c, None))
      in if rc \<noteq> None then (c, rc) else (rx_content env seq fl data old_xfer_window c, None))"

text \<open>
  The shift by the peer's window scale is the x86 instruction, which uses the
  low five bits of the count.
\<close>

definition tcp_rx_segment :: "tcp_env \<Rightarrow> u8 list \<Rightarrow> nat \<Rightarrow> tcp_options \<Rightarrow> tcp_connection \<Rightarrow> tcp_connection \<times> errno option" where
  "tcp_rx_segment env pkt hlen opts c =
     (let seq = ntohl (drop 4 pkt);
          ack = ntohl (drop 8 pkt);
          raw_win = ntohs (drop 14 pkt);
          fl = ucast (pkt ! 13) :: u32;
          data = drop hlen pkt;
          c = (case tsopt opts of Some tsval \<Rightarrow> c \<lparr> ts_val := tsval \<rparr> | None \<Rightarrow> c);
          old_xfer_window = tcp_xfer_window c;
          win = push_bit (unat (snd_win_scale c) mod 32) (ucast raw_win);
          (c, rc) = (if has fl TCP_ACK then tcp_rx_ack env ack win c else (c, None))
      in if rc \<noteq> None then (tcp_xmit_reset env pkt c, rc)
         else rx_flags env seq fl opts data old_xfer_window c)"

section \<open>The list of connections\<close>

type_synonym tcp_conns = "tcp_connection list"

definition tcp_demux :: "u16 \<Rightarrow> tcp_conns \<Rightarrow> tcp_connection option" where
  "tcp_demux port conns = find (\<lambda>c. local_port c = port) conns"

text \<open>Replace the first connection with the given port; a deleted connection leaves the list.\<close>

fun replace_conn :: "u16 \<Rightarrow> tcp_connection \<Rightarrow> tcp_conns \<Rightarrow> tcp_conns" where
  "replace_conn port c' [] = []"
| "replace_conn port c' (c # conns) =
     (if local_port c = port then (if linked c' then c' # conns else conns)
      else c # replace_conn port c' conns)"

definition tcp_rx :: "tcp_env \<Rightarrow> u8 list \<Rightarrow> u16 \<Rightarrow> tcp_conns \<Rightarrow> tcp_conns \<times> errno option" where
  "tcp_rx env pkt pshdr_csum conns =
     (if length pkt < SIZEOF_TCP_HEADER then (conns, Some EINVAL)
      else
        let hlen = unat ((pkt ! 12) AND TCP_MASK_HLEN) div 16 * 4
        in if hlen < SIZEOF_TCP_HEADER then (conns, Some EINVAL)
           else if hlen > length pkt then (conns, Some EINVAL)
           else if tcpip_continue_chksum pshdr_csum (iob_addr env) pkt \<noteq> 0 then (conns, Some EINVAL)
           else
             let port = ntohs (drop 2 pkt)
             in case tcp_rx_opts pkt hlen of
                  Inl e \<Rightarrow> (conns, Some e)
                | Inr opts \<Rightarrow>
                    (case tcp_demux port conns of
                       None \<Rightarrow> (conns, Some ENOTCONN)
                     | Some c \<Rightarrow>
                         let (c', rc) = tcp_rx_segment env pkt hlen opts c
                         in (replace_conn port c' conns, rc)))"

definition tcp_port_available :: "tcp_conns \<Rightarrow> u16 \<Rightarrow> u16 result" where
  "tcp_port_available conns port = (if tcp_demux port conns \<noteq> None then Inl EADDRINUSE else Inr port)"

definition new_connection :: "tcp_env \<Rightarrow> u32 \<Rightarrow> sockaddr_tcpip \<Rightarrow> u64 \<Rightarrow> u16 \<Rightarrow> tcp_connection" where
  "new_connection env seq st_peer mtu port =
     \<lparr> conn_flags = 0, peer = st_peer, local_port = port, mss = mtu - of_nat SIZEOF_TCP_HEADER,
       tcp_state = TCP_STATE_SENT TCP_SYN, snd_seq = seq, snd_sent = 0, snd_win = 0, rcv_ack = 0, rcv_win = 0,
       ts_val = 0, ts_recent = 0, snd_win_scale = 0, rcv_win_scale = 0,
       sack = replicate TCP_SACK_MAX \<lparr> sack_left = 0, sack_right = 0 \<rparr>,
       tx_queue = [], rx_queue = [], process = False,
       timer = start_timer_nodelay (now env) timer_init, keepalive = timer_init, wait_timer = timer_init,
       pending_flags = pending_get \<lparr> pending_count = 0 \<rparr>, pending_data = \<lparr> pending_count = 0 \<rparr>,
       linked = True, events = [] \<rparr>"

text \<open>
  Opening a connection; \<open>allocated\<close> says whether the structure could be
  allocated, \<open>mtu\<close> is what \<open>tcpip_mtu()\<close> returns for the peer, \<open>seq\<close> and \<open>offset\<close>
  are the random numbers.
\<close>

definition tcp_open ::
    "tcp_env \<Rightarrow> bool \<Rightarrow> u64 \<Rightarrow> u32 \<Rightarrow> u32 \<Rightarrow> sockaddr_tcpip \<Rightarrow> sockaddr_tcpip option \<Rightarrow> tcp_conns
      \<Rightarrow> tcp_conns \<times> errno option" where
  "tcp_open env allocated mtu seq offset st_peer st_local conns =
     (if \<not> allocated then (conns, Some ENOMEM)
      else if mtu = 0 then (conns, Some ENETUNREACH)
      else case tcpip_bind st_local (tcp_port_available conns) offset of
          Inl e \<Rightarrow> (conns, Some e)
        | Inr port \<Rightarrow> (new_connection env seq st_peer mtu port # conns, None))"

section \<open>Timers\<close>

definition tcp_expired :: "tcp_env \<Rightarrow> bool \<Rightarrow> tcp_connection \<Rightarrow> tcp_connection" where
  "tcp_expired env over c =
     (if over then tcp_close env (Some ETIMEDOUT) (c \<lparr> tcp_state := TCP_CLOSED \<rparr>)
      else tcp_xmit env c)"

definition tcp_keepalive_expired :: "tcp_env \<Rightarrow> tcp_connection \<Rightarrow> tcp_connection" where
  "tcp_keepalive_expired env c =
     tcp_xmit env (c \<lparr> keepalive := start_timer_fixed (now env) TCP_KEEPALIVE_DELAY (keepalive c),
                       conn_flags := conn_flags c OR TCP_ACK_PENDING \<rparr>)"

definition tcp_wait_expired :: "tcp_env \<Rightarrow> tcp_connection \<Rightarrow> tcp_connection" where
  "tcp_wait_expired env c = tcp_close env None (c \<lparr> tcp_state := TCP_CLOSED \<rparr>)"

section \<open>Cache discarder and shutdown\<close>

fun tcp_discard :: "tcp_conns \<Rightarrow> tcp_conns \<times> nat" where
  "tcp_discard [] = ([], 0)"
| "tcp_discard (c # conns) =
     (let (conns', discarded) = tcp_discard conns
      in if rx_queue c = [] then (c # conns', discarded)
         else (c \<lparr> rx_queue := butlast (rx_queue c) \<rparr> # conns', discarded + 1))"

definition tcp_first_unclosed :: "tcp_conns \<Rightarrow> tcp_connection option" where
  "tcp_first_unclosed conns = find (\<lambda>c. \<not> has (conn_flags c) TCP_XFER_CLOSED) conns"

definition tcp_first_unfinished :: "tcp_conns \<Rightarrow> tcp_connection option" where
  "tcp_first_unfinished conns = find (\<lambda>c. \<not> TCP_CLOSED_GRACEFULLY (tcp_state c) \<or> process c) conns"

text \<open>
  Closing touches only the connection closed, so the loops of \<open>tcp_shutdown()\<close>
  pass along the list; \<open>wait\<close> is the middle loop, which runs the other
  processes for at most \<open>TCP_FINISH_TIMEOUT\<close>. The last loop would run for ever
  (\<open>None\<close>) if closing left the first connection on the list.
\<close>

fun close_unclosed :: "tcp_env \<Rightarrow> tcp_conns \<Rightarrow> tcp_conns" where
  "close_unclosed env [] = []"
| "close_unclosed env (c # conns) =
     (if has (conn_flags c) TCP_XFER_CLOSED then c # close_unclosed env conns
      else let c' = tcp_close env (Some ECANCELED) c
           in if linked c' then c' # close_unclosed env conns else close_unclosed env conns)"

fun force_close :: "tcp_env \<Rightarrow> tcp_conns \<Rightarrow> tcp_conns option" where
  "force_close env [] = Some []"
| "force_close env (c # conns) =
     (let c' = tcp_close env (Some ECANCELED) (c \<lparr> tcp_state := TCP_CLOSED \<rparr>)
      in if linked c' then None else force_close env conns)"

definition tcp_shutdown :: "tcp_env \<Rightarrow> (tcp_conns \<Rightarrow> tcp_conns) \<Rightarrow> tcp_conns \<Rightarrow> tcp_conns option" where
  "tcp_shutdown env wait conns = force_close env (wait (close_unclosed env conns))"

definition tcp_progress :: "tcp_connection \<Rightarrow> string" where
  "tcp_progress c = (if \<not> TCP_HAS_BEEN_ESTABLISHED (tcp_state c) then ''connecting'' else '''')"

end
