(* ===== verification/Tcp_State.thy ===== *)
theory Tcp_State
  imports Tcp
begin

text \<open>
  The state machine of a TCP connection: the events that can happen to it as a
  step relation, and an invariant over all histories from the moment the first
  SYN has been handed to the network.
\<close>

section \<open>Histories of a connection\<close>

text \<open>
  An event is a segment for the connection, the expiry of one of its three
  timers, a run of its transmission process, calls of the application, or a
  visit of the cache discarder.
\<close>

inductive tcp_internal :: "tcp_connection \<Rightarrow> tcp_connection \<Rightarrow> bool" where
  int_timer: "linked c \<Longrightarrow> running (timer c) \<Longrightarrow> timer_expired (timer c) = (t, over) \<Longrightarrow>
    tcp_internal c (tcp_expired env over (c \<lparr> timer := t \<rparr>))"
| int_keepalive: "linked c \<Longrightarrow> running (keepalive c) \<Longrightarrow> timer_expired (keepalive c) = (t, over) \<Longrightarrow>
    tcp_internal c (tcp_keepalive_expired env (c \<lparr> keepalive := t \<rparr>))"
| int_wait: "linked c \<Longrightarrow> running (wait_timer c) \<Longrightarrow> timer_expired (wait_timer c) = (t, over) \<Longrightarrow>
    tcp_internal c (tcp_wait_expired env (c \<lparr> wait_timer := t \<rparr>))"
| int_process: "linked c \<Longrightarrow> process c \<Longrightarrow> tcp_internal c (tcp_xmit env (c \<lparr> process := False \<rparr>))"
| int_app: "linked c \<Longrightarrow> tcp_internal c (run_app env calls c)"
| int_discard: "linked c \<Longrightarrow> tcp_internal c (c \<lparr> rx_queue := butlast (rx_queue c) \<rparr>)"

inductive tcp_step :: "tcp_connection \<Rightarrow> tcp_connection \<Rightarrow> bool" where
  step_rx: "linked c \<Longrightarrow> tcp_step c (fst (tcp_rx_segment env pkt hlen opts c))"
| step_internal: "tcp_internal c c' \<Longrightarrow> tcp_step c c'"

text \<open>The first expiry of the timer that \<open>tcp_open()\<close> starts without delay sends the SYN.\<close>

definition first_xmit :: "tcp_env \<Rightarrow> tcp_connection \<Rightarrow> tcp_connection" where
  "first_xmit env c = tcp_expired env False (c \<lparr> timer := fst (timer_expired (timer c)) \<rparr>)"

inductive tcp_reach :: "tcp_connection \<Rightarrow> bool" where
  reach_open: "tcp_reach (first_xmit env' (new_connection env seq st_peer mtu port))"
| reach_step: "tcp_reach c \<Longrightarrow> tcp_step c c' \<Longrightarrow> tcp_reach c'"

section \<open>The states as numbers\<close>

lemma tcp_nums [simp]:
  "TCP_SYN = 2" "TCP_FIN = 1" "TCP_RST = 4" "TCP_ACK = 16" "TCP_PSH = 8"
  "TCP_STATE_SENT f = f" "TCP_STATE_ACKED 2 = 0x200" "TCP_STATE_ACKED 1 = 0x100"
  "TCP_STATE_RCVD 2 = 0x20000" "TCP_STATE_RCVD 1 = 0x10000"
  "TCP_CLOSED = 4" "TCP_XFER_CLOSED = 1" "TCP_ACK_PENDING = 4"
  by (simp_all add: tcp_flag_defs tcp_state_defs tcp_conn_flag_defs)

lemma tcp_state_nums:
  "TCP_SYN_SENT = 0x02" "TCP_SYN_RCVD = 0x20012" "TCP_ESTABLISHED = 0x20212" "TCP_FIN_WAIT_1 = 0x20213"
  "TCP_FIN_WAIT_2 = 0x20313" "TCP_CLOSING_OR_LAST_ACK = 0x30213" "TCP_TIME_WAIT = 0x30313"
  "TCP_CLOSE_WAIT = 0x30212"
  by (simp_all add: tcp_flag_defs tcp_state_defs)

text \<open>Our SYN was acknowledged, but no SYN was received.\<close>

definition SYN_ACKED_ONLY :: u32 where
  "SYN_ACKED_ONLY = TCP_STATE_SENT TCP_SYN OR TCP_STATE_ACKED TCP_SYN"

definition live_states :: "u32 set" where
  "live_states = {TCP_SYN_SENT, SYN_ACKED_ONLY, TCP_SYN_RCVD, TCP_ESTABLISHED, TCP_FIN_WAIT_1, TCP_FIN_WAIT_2,
     TCP_CLOSING_OR_LAST_ACK, TCP_TIME_WAIT, TCP_CLOSE_WAIT}"

lemma live_states_nums:
  "live_states = {0x02, 0x202, 0x20012, 0x20212, 0x20213, 0x20313, 0x30213, 0x30313, 0x30212}"
  by (simp add: live_states_def tcp_state_nums SYN_ACKED_ONLY_def)

section \<open>The invariant\<close>

abbreviation rsyn :: "tcp_connection \<Rightarrow> bool" where
  "rsyn c \<equiv> has (tcp_state c) 0x20000"

abbreviation closed :: "tcp_connection \<Rightarrow> bool" where
  "closed c \<equiv> has (conn_flags c) 1"

definition sending :: "tcp_connection \<Rightarrow> u32" where
  "sending c = TCP_FLAGS_SENDING (tcp_state c)"

text \<open>
  \<open>conn_inv0\<close> is the invariant with one transient state more: FIN received
  while our SYN is not acknowledged, in which \<open>tcp_rx_fin()\<close> calls \<open>tcp_close()\<close>.
\<close>

definition conn_inv0 :: "u32 set \<Rightarrow> tcp_connection \<Rightarrow> bool" where
  "conn_inv0 S c \<longleftrightarrow>
     (linked c \<longrightarrow> tcp_state c \<in> S)
     \<and> (\<not> linked c \<longrightarrow> tcp_state c = 4 \<and> tx_queue c = [] \<and> closed c)
     \<and> (has (sending c) 2 \<longrightarrow> snd_sent c = 1)
     \<and> (rx_queue c \<noteq> [] \<longrightarrow> rsyn c)
     \<and> (has (tcp_state c) 1 \<longrightarrow> closed c \<and> tx_queue c = [])
     \<and> (closed c \<and> linked c \<longrightarrow> rsyn c)
     \<and> pending_count (pending_flags c) = (if has (sending c) 3 then 1 else 0)"

definition conn_inv :: "tcp_connection \<Rightarrow> bool" where
  "conn_inv c = conn_inv0 live_states c"

definition conn_inv' :: "tcp_connection \<Rightarrow> bool" where
  "conn_inv' c = conn_inv0 (insert 0x30012 live_states) c"

lemma conn_inv_weaken: "conn_inv c \<Longrightarrow> conn_inv' c"
  by (auto simp: conn_inv_def conn_inv'_def conn_inv0_def)

lemma state_cases:
  assumes "conn_inv' c"
  shows "tcp_state c \<in> {0x02, 0x202, 0x20012, 0x20212, 0x20213, 0x20313, 0x30213, 0x30313, 0x30212, 0x30012, 4}"
  using assms by (auto simp: conn_inv'_def conn_inv0_def live_states_nums)

lemma sending_nums:
  "TCP_FLAGS_SENDING 0x02 = 2" "TCP_FLAGS_SENDING 0x202 = 0" "TCP_FLAGS_SENDING 0x20012 = 0x12"
  "TCP_FLAGS_SENDING 0x20212 = 0x10" "TCP_FLAGS_SENDING 0x20213 = 0x11" "TCP_FLAGS_SENDING 0x20313 = 0x10"
  "TCP_FLAGS_SENDING 0x30213 = 0x11" "TCP_FLAGS_SENDING 0x30313 = 0x10" "TCP_FLAGS_SENDING 0x30212 = 0x10"
  "TCP_FLAGS_SENDING 0x30012 = 0x12" "TCP_FLAGS_SENDING 4 = 4"
  by (simp_all add: TCP_FLAGS_SENDING_def TCP_FLAGS_SENT_def TCP_FLAGS_ACKED_def)

lemma can_send_nums:
  "\<not> TCP_CAN_SEND_DATA 0x02" "TCP_CAN_SEND_DATA 0x202" "\<not> TCP_CAN_SEND_DATA 0x20012"
  "TCP_CAN_SEND_DATA 0x20212" "\<not> TCP_CAN_SEND_DATA 0x20213" "\<not> TCP_CAN_SEND_DATA 0x20313"
  "\<not> TCP_CAN_SEND_DATA 0x30213" "\<not> TCP_CAN_SEND_DATA 0x30313" "TCP_CAN_SEND_DATA 0x30212"
  "\<not> TCP_CAN_SEND_DATA 0x30012" "\<not> TCP_CAN_SEND_DATA 4"
  by (simp_all add: TCP_CAN_SEND_DATA_def)

section \<open>Every operation keeps the invariant\<close>

lemma has_nums:
  "has w 0 \<longleftrightarrow> False" "has 0 w \<longleftrightarrow> False"
  by (simp_all add: has_def)

lemma xmit_seq_len_syn:
  assumes "conn_inv' c" "has (sending c) 2"
  shows "xmit_seq_len c = 1"
  using state_cases [OF assms(1)] assms(2)
  by (auto simp: sending_def sending_nums has_def xmit_seq_len_def xmit_len_def can_send_nums)

lemma closed_xmit_frame: "xmit_frame c c' \<Longrightarrow> closed c' \<longleftrightarrow> closed c"
  using closed_and_not_pending [of "conn_flags c"] by (auto simp: xmit_frame_def)

lemma inv0_xmit_frame:
  assumes "conn_inv0 S c" "conn_inv' c" "xmit_frame c c'"
  shows "conn_inv0 S c'"
proof -
  have f: "tcp_state c' = tcp_state c" "tx_queue c' = tx_queue c" "pending_flags c' = pending_flags c"
    "linked c' = linked c" "rx_queue c' \<noteq> [] \<longrightarrow> rx_queue c \<noteq> []" "closed c' \<longleftrightarrow> closed c"
    "snd_sent c' = snd_sent c \<or> snd_sent c' = xmit_seq_len c"
    using assms(3) closed_xmit_frame [OF assms(3)] by (auto simp: xmit_frame_def)
  then show ?thesis
    using assms(1) xmit_seq_len_syn [OF assms(2)]
    unfolding conn_inv0_def sending_def by auto
qed

lemma inv_xmit: "conn_inv c \<Longrightarrow> conn_inv (tcp_xmit_sack env q c)"
  using inv0_xmit_frame [OF _ conn_inv_weaken xmit_frame_xmit_sack] by (simp add: conn_inv_def)

lemma inv'_xmit: "conn_inv' c \<Longrightarrow> conn_inv' (tcp_xmit_sack env q c)"
  using inv0_xmit_frame [OF _ _ xmit_frame_xmit_sack] by (auto simp: conn_inv'_def)

text \<open>The flags after an acknowledgement of something new.\<close>

definition ack_state :: "u32 \<Rightarrow> u32" where
  "ack_state st = st OR TCP_STATE_ACKED (TCP_FLAGS_SENDING st AND 3)"

lemma ack_state_nums:
  "ack_state 0x02 = 0x202" "ack_state 0x202 = 0x202" "ack_state 0x20012 = 0x20212"
  "ack_state 0x20212 = 0x20212" "ack_state 0x20213 = 0x20313" "ack_state 0x20313 = 0x20313"
  "ack_state 0x30213 = 0x30313" "ack_state 0x30313 = 0x30313" "ack_state 0x30212 = 0x30212"
  "ack_state 0x30012 = 0x30212"
  by (simp_all add: ack_state_def sending_nums TCP_STATE_ACKED_def)

lemma rx_ack_core_state:
  "tcp_state (rx_ack_core env ack c) = ack_state (tcp_state c)"
  "pending_flags (rx_ack_core env ack c) =
     (if has (sending c) 3 then pending_put (pending_flags c) else pending_flags c)"
proof -
  show "tcp_state (rx_ack_core env ack c) = ack_state (tcp_state c)"
    by (cases "TCP_FLAGS_SENDING (tcp_state c) AND 3 = 0")
      (simp_all add: rx_ack_core_def Let_def ack_state_def TCP_STATE_ACKED_def)
  show "pending_flags (rx_ack_core env ack c) =
     (if has (sending c) 3 then pending_put (pending_flags c) else pending_flags c)"
    by (simp add: rx_ack_core_def Let_def sending_def has_def)
qed

lemma tx_walk_nil: "tx_walk n True [] = ([], [], 0)"
  by simp

lemma rx_ack_core_queue: "tx_queue c = [] \<Longrightarrow> tx_queue (rx_ack_core env ack c) = []"
  by (simp add: rx_ack_core_def Let_def)

lemma inv_rx_ack_core:
  assumes "conn_inv' c" "linked c"
  shows "conn_inv (rx_ack_core env ack c)"
proof -
  have st: "tcp_state c \<in> {0x02, 0x202, 0x20012, 0x20212, 0x20213, 0x20313, 0x30213, 0x30313, 0x30212, 0x30012}"
    using assms by (auto simp: conn_inv'_def conn_inv0_def live_states_nums)
  have inv: "has (tcp_state c) 1 \<longrightarrow> closed c \<and> tx_queue c = []" "closed c \<longrightarrow> rsyn c"
      "rx_queue c \<noteq> [] \<longrightarrow> rsyn c"
      "pending_count (pending_flags c) = (if has (sending c) 3 then 1 else 0)"
    using assms by (auto simp: conn_inv'_def conn_inv0_def)
  then show ?thesis
    using st assms(2) rx_ack_core_queue [of c env ack]
    unfolding conn_inv_def conn_inv0_def sending_def rx_ack_core_state
    by (elim insertE emptyE)
      (simp_all add: ack_state_nums sending_nums live_states_nums has_def sending_def pending_put_def)
qed

lemma inv_rx_ack_fin:
  assumes "conn_inv c" "linked c" "has (tcp_state c) 0x200"
  shows "conn_inv (rx_ack_fin c)"
proof (cases "tx_queue c = [] \<and> closed c \<and> \<not> has (tcp_state c) 1")
  case True
  have st: "tcp_state c \<in> {0x20212, 0x30212}"
    using assms True by (auto simp: conn_inv_def conn_inv0_def live_states_nums has_def)
  have "pending_count (pending_flags c) = (if has (sending c) 3 then 1 else 0)"
    using assms by (auto simp: conn_inv_def conn_inv0_def)
  with st True assms(2) show ?thesis
    unfolding conn_inv_def conn_inv0_def sending_def
    by (elim insertE emptyE)
      (simp_all add: rx_ack_fin_def sending_nums live_states_nums has_def sending_def pending_get_def)
next
  case False
  with assms(1) show ?thesis by (auto simp: rx_ack_fin_def)
qed

lemma ack_state_acked:
  assumes "conn_inv' c" "linked c"
  shows "has (ack_state (tcp_state c)) 0x200"
proof -
  have "tcp_state c \<in> {0x02, 0x202, 0x20012, 0x20212, 0x20213, 0x20313, 0x30213, 0x30313, 0x30212, 0x30012}"
    using assms by (auto simp: conn_inv'_def conn_inv0_def live_states_nums)
  then show ?thesis by (elim insertE emptyE) (simp_all add: ack_state_nums has_def)
qed

lemma inv_rx_ack_new:
  assumes "conn_inv' c" "linked c"
  shows "conn_inv (rx_ack_new env ack c)"
  unfolding rx_ack_new_def
  by (rule inv_rx_ack_fin [OF inv_rx_ack_core [OF assms]]) (use assms ack_state_acked [OF assms] in \<open>simp_all add: rx_ack_core_state\<close>)

lemma inv0_window:
  "conn_inv0 S (c \<lparr> snd_win := w, keepalive := k \<rparr>) \<longleftrightarrow> conn_inv0 S c"
  by (simp add: conn_inv0_def sending_def)

lemma inv_rx_ack:
  assumes "conn_inv c" "linked c"
  shows "conn_inv (fst (tcp_rx_ack env ack win c))"
proof -
  let ?c = "c \<lparr> snd_win := win, keepalive := (if \<not> has (tcp_state c) (TCP_STATE_SENT TCP_FIN)
       then start_timer_fixed (now env) TCP_KEEPALIVE_DELAY (keepalive c) else keepalive c) \<rparr>"
  have i: "conn_inv ?c" using assms(1) unfolding conn_inv_def inv0_window .
  have "conn_inv (rx_ack_new env ack ?c)"
    by (rule inv_rx_ack_new [OF conn_inv_weaken [OF i]]) (use assms(2) in simp)
  with i assms(1) show ?thesis
    unfolding tcp_rx_ack_def Let_def by (simp only: fst_conv split: if_split) blast
qed

text \<open>The acknowledgement that \<open>tcp_close()\<close> pretends to have received.\<close>

lemma inv_pretend_ack:
  assumes "conn_inv' c" "linked c" "rsyn c" "\<not> has (tcp_state c) 0x200"
  shows "conn_inv (fst (tcp_rx_ack env (snd_seq c + 1) 0 c))"
    and "has (tcp_state (fst (tcp_rx_ack env (snd_seq c + 1) 0 c))) 0x200"
proof -
  let ?c = "c \<lparr> snd_win := 0, keepalive := (if \<not> has (tcp_state c) (TCP_STATE_SENT TCP_FIN)
       then start_timer_fixed (now env) TCP_KEEPALIVE_DELAY (keepalive c) else keepalive c) \<rparr>"
  have st: "tcp_state c \<in> {0x20012, 0x30012}"
    using state_cases [OF assms(1)] assms(3,4) by (auto simp: has_def)
  then have "snd_sent c = 1"
    using assms(1) by (auto simp: conn_inv'_def conn_inv0_def sending_def sending_nums has_def)
  then have e: "fst (tcp_rx_ack env (snd_seq c + 1) 0 c) = rx_ack_new env (snd_seq c + 1) ?c"
    by (simp add: tcp_rx_ack_def Let_def)
  have i: "conn_inv' ?c" using assms(1) unfolding conn_inv'_def inv0_window .
  show "conn_inv (fst (tcp_rx_ack env (snd_seq c + 1) 0 c))"
    unfolding e by (rule inv_rx_ack_new [OF i]) (use assms(2) in simp)
  show "has (tcp_state (fst (tcp_rx_ack env (snd_seq c + 1) 0 c))) 0x200"
    unfolding e rx_ack_new_def using ack_state_acked [OF i] assms(2)
    by (simp add: rx_ack_fin_def rx_ack_core_state has_or)
qed

lemma intf_shutdown_fields [simp]:
  "tcp_state (intf_shutdown rc c) = tcp_state c" "tx_queue (intf_shutdown rc c) = tx_queue c"
  "rx_queue (intf_shutdown rc c) = rx_queue c" "snd_sent (intf_shutdown rc c) = snd_sent c"
  "snd_seq (intf_shutdown rc c) = snd_seq c" "pending_flags (intf_shutdown rc c) = pending_flags c"
  "pending_data (intf_shutdown rc c) = pending_data c" "linked (intf_shutdown rc c) = linked c"
  "closed (intf_shutdown rc c)"
  by (simp_all add: intf_shutdown_def has_or) (simp add: has_def)

lemma inv_delete:
  assumes "closed c" "pending_count (pending_flags c) \<le> 1"
  shows "conn_inv (tcp_delete env c)"
proof -
  have "pending_count (pending_flags c) = 0 \<or> pending_count (pending_flags c) = 1"
    using assms(2) by (metis word_le_less_eq word_less_1)
  with assms(1) show ?thesis
    by (auto simp: conn_inv_def conn_inv0_def tcp_delete_def sending_def sending_nums has_def pending_put_def)
qed

lemma pending_le: "conn_inv' c \<Longrightarrow> pending_count (pending_flags c) \<le> 1"
  by (simp add: conn_inv'_def conn_inv0_def split: if_splits)

lemma inv_close:
  assumes "conn_inv' c" "linked c"
  shows "conn_inv (tcp_close env rc c)" and "rsyn c \<longrightarrow> linked (tcp_close env rc c) \<and> rsyn (tcp_close env rc c)"
proof -
  let ?d = "intf_shutdown rc c"
  have "conn_inv (tcp_close env rc c) \<and> (rsyn c \<longrightarrow> linked (tcp_close env rc c) \<and> rsyn (tcp_close env rc c))"
  proof (cases "rsyn c")
    case False
    have "conn_inv (tcp_delete env ?d)"
      by (rule inv_delete) (use pending_le [OF assms(1)] in simp_all)
    with False show ?thesis by (simp add: tcp_close_def Let_def)
  next
    case True
    have d: "conn_inv' ?d" "linked ?d" "rsyn ?d"
      using assms True by (auto simp: conn_inv'_def conn_inv0_def sending_def)
    define e where "e = (if \<not> has (tcp_state ?d) 0x200 then fst (tcp_rx_ack env (snd_seq ?d + 1) 0 ?d) else ?d)"
    have e: "conn_inv e" "has (tcp_state e) 0x200" "linked e" "closed e"
    proof -
      have "conn_inv ?d" if "has (tcp_state ?d) 0x200"
        using d(1) that by (auto simp: conn_inv_def conn_inv'_def conn_inv0_def has_def)
      then show "conn_inv e" "has (tcp_state e) 0x200"
        using inv_pretend_ack [OF d, of env] by (auto simp: e_def)
      show "linked e" "closed e" using d(2) intf_shutdown_fields(9) [of rc c] by (simp_all add: e_def)
    qed
    then have re: "rsyn e" and pe: "pending_count (pending_flags e) = (if has (sending e) 3 then 1 else 0)"
      by (auto simp: conn_inv_def conn_inv0_def)
    define f where "f = e \<lparr> keepalive := stop_timer (now env) (keepalive e) \<rparr>"
    have f: "conn_inv f" "linked f" "rsyn f"
      using e re by (simp_all add: f_def conn_inv_def conn_inv0_def sending_def)
    have close: "tcp_close env rc c = (if tx_queue f = [] \<and> \<not> has (tcp_state f) 1
        then f \<lparr> tcp_state := tcp_state f OR 1, process := True, pending_flags := pending_get (pending_flags f) \<rparr>
        else f)"
      using True by (simp add: tcp_close_def Let_def e_def f_def)
    show ?thesis
    proof (cases "tx_queue f = [] \<and> \<not> has (tcp_state f) 1")
      case False
      with f show ?thesis unfolding close by auto
    next
      case q: True
      have "tcp_state f \<in> {0x20212, 0x30212}"
        using e re q by (auto simp: f_def conn_inv_def conn_inv0_def live_states_nums has_def)
      then show ?thesis
        using q e pe unfolding close conn_inv_def conn_inv0_def sending_def f_def
        by (elim insertE emptyE)
          (simp_all add: sending_nums live_states_nums has_def sending_def pending_get_def)
    qed
  qed
  then show "conn_inv (tcp_close env rc c)"
    "rsyn c \<longrightarrow> linked (tcp_close env rc c) \<and> rsyn (tcp_close env rc c)" by blast+
qed

lemma inv_abort:
  assumes "conn_inv' c"
  shows "conn_inv (tcp_close env rc (c \<lparr> tcp_state := TCP_CLOSED \<rparr>))"
proof -
  let ?d = "intf_shutdown rc (c \<lparr> tcp_state := 4 \<rparr>)"
  have "conn_inv (tcp_delete env ?d)"
    by (rule inv_delete) (use pending_le [OF assms(1)] in simp_all)
  then show ?thesis by (simp add: tcp_close_def Let_def has_def)
qed

text \<open>\<open>keeps c c'\<close>: the invariant holds, and a connection that had received a SYN is still there.\<close>

definition keeps :: "tcp_connection \<Rightarrow> tcp_connection \<Rightarrow> bool" where
  "keeps c c' \<longleftrightarrow> conn_inv c' \<and> (linked c \<and> rsyn c \<longrightarrow> linked c' \<and> rsyn c')"

lemma keeps_trans: "keeps a b \<Longrightarrow> keeps b c \<Longrightarrow> keeps a c"
  by (auto simp: keeps_def)

lemma keeps_refl: "conn_inv c \<Longrightarrow> keeps c c"
  by (simp add: keeps_def)

lemma unlinked_closed: "conn_inv c \<Longrightarrow> \<not> linked c \<Longrightarrow> closed c"
  by (simp add: conn_inv_def conn_inv0_def)

lemma keeps_xmit: "conn_inv c \<Longrightarrow> keeps c (tcp_xmit_sack env q c)"
  using inv_xmit [of c env q] xmit_frame_xmit_sack [of c env q] by (simp add: keeps_def xmit_frame_def)

lemma keeps_close: "conn_inv c \<Longrightarrow> linked c \<Longrightarrow> keeps c (tcp_close env rc c)"
  using inv_close [OF conn_inv_weaken] by (simp add: keeps_def)

lemma keeps_run_app: "conn_inv c \<Longrightarrow> keeps c (run_app env calls c)"
proof (induction calls arbitrary: c)
  case (Cons call calls)
  show ?case
  proof (cases "closed c")
    case False
    then have l: "linked c" using Cons.prems unlinked_closed by blast
    let ?s = "case call of App_send iobuf \<Rightarrow> tcp_xfer_deliver env iobuf c
      | App_close rc \<Rightarrow> tcp_xfer_close env rc c"
    have "keeps c ?s"
    proof (cases call)
      case (App_send d)
      let ?c = "c \<lparr> tx_queue := tx_queue c @ [d], pending_data := pending_get (pending_data c),
          events := events c @ [Accept d] \<rparr>"
      have "conn_inv ?c"
        using Cons.prems False l by (auto simp: conn_inv_def conn_inv0_def sending_def)
      from keeps_xmit [OF this] App_send show ?thesis
        by (simp add: tcp_xfer_deliver_def tcp_xmit_def keeps_def)
    next
      case (App_close rc)
      have k: "keeps c (tcp_close env rc c)" by (rule keeps_close [OF Cons.prems l])
      then have "keeps (tcp_close env rc c) (tcp_xfer_close env rc c)"
        unfolding tcp_xfer_close_def tcp_xmit_def by (intro keeps_xmit) (simp add: keeps_def)
      with k App_close show ?thesis by (auto intro: keeps_trans)
    qed
    moreover have "keeps ?s (run_app env calls ?s)"
      by (rule Cons.IH) (use \<open>keeps c ?s\<close> in \<open>simp add: keeps_def\<close>)
    ultimately have "keeps c (run_app env calls ?s)" by (rule keeps_trans)
    with False show ?thesis by simp
  qed (simp add: Cons.prems keeps_refl)
qed (simp add: keeps_refl)

lemma closed_or_pending: "has (fl OR 4) 1 \<longleftrightarrow> has fl 1"
  unfolding has_or by (simp add: has_def)

lemma keeps_rx_seq: "conn_inv c \<Longrightarrow> keeps c (tcp_rx_seq n c)"
  by (simp add: keeps_def conn_inv_def conn_inv0_def sending_def tcp_rx_seq_def Let_def closed_or_pending)

lemma keeps_deliver_data:
  assumes "conn_inv c"
  shows "keeps c (deliver_data env data c)"
proof -
  let ?c = "c \<lparr> events := events c @ [Deliver data] \<rparr>"
  have "conn_inv ?c" using assms by (simp add: conn_inv_def conn_inv0_def sending_def)
  from keeps_run_app [OF this, of env "app_data env c data"] show ?thesis
    using assms by (simp add: deliver_data_def keeps_def)
qed

lemma keeps_rx_data: "conn_inv c \<Longrightarrow> keeps c (tcp_rx_data env seq data c)"
proof -
  assume i: "conn_inv c"
  have "keeps c (deliver_data env d (tcp_rx_seq n c))" for d n
    by (rule keeps_trans [OF keeps_rx_seq [OF i] keeps_deliver_data])
      (use keeps_rx_seq [OF i] in \<open>simp add: keeps_def\<close>)
  with i show ?thesis by (simp add: tcp_rx_data_def Let_def keeps_refl)
qed

lemma keeps_rx_fin:
  assumes "conn_inv c" "linked c" "rsyn c"
  shows "keeps c (tcp_rx_fin env seq c)"
proof (cases "seq = rcv_ack c")
  case True
  define d where "d = tcp_rx_seq 1 c"
  have d: "conn_inv d" "linked d" "rsyn d"
    using keeps_rx_seq [OF assms(1), of 1] assms(2,3) by (auto simp: d_def keeps_def)
  define e where "e = d \<lparr> tcp_state := tcp_state d OR 0x10000 \<rparr>"
  have st: "tcp_state d \<in> {0x20012, 0x20212, 0x20213, 0x20313, 0x30213, 0x30313, 0x30212}"
    using d by (auto simp: conn_inv_def conn_inv0_def live_states_nums has_def)
  then have "conn_inv' e"
    using d unfolding e_def conn_inv'_def conn_inv_def conn_inv0_def sending_def
    by (elim insertE emptyE) (simp_all add: sending_nums live_states_nums has_def)
  moreover have "linked e" "rsyn e" using d by (simp_all add: e_def has_or)
  ultimately have "conn_inv (tcp_close env None e) \<and> linked (tcp_close env None e) \<and> rsyn (tcp_close env None e)"
    using inv_close by blast
  moreover have "tcp_rx_fin env seq c = tcp_close env None e"
    using True by (simp add: tcp_rx_fin_def Let_def e_def d_def)
  ultimately show ?thesis by (simp add: keeps_def)
qed (simp add: tcp_rx_fin_def keeps_refl assms)

lemma keeps_process_queued:
  assumes "conn_inv c" "linked c" "rsyn c"
  shows "keeps c (process_queued env q c)"
proof -
  let ?d = "tcp_rx_data env (q_seq q) (q_data q) c"
  have k: "keeps c ?d" by (rule keeps_rx_data [OF assms(1)])
  then have "keeps ?d (tcp_rx_fin env seq ?d)" for seq
    by (intro keeps_rx_fin) (use assms in \<open>simp_all add: keeps_def\<close>)
  with k show ?thesis
    by (auto simp: process_queued_def Let_def intro: keeps_trans)
qed

lemma keeps_process_rx_queue: "conn_inv c \<Longrightarrow> linked c \<Longrightarrow> keeps c (tcp_process_rx_queue env c)"
proof (induction env c rule: tcp_process_rx_queue.induct)
  case (1 env c)
  show ?case
  proof (cases "rx_queue c = [] \<or> tcp_cmp (q_seq (hd (rx_queue c))) (rcv_ack c) > 0")
    case True
    then show ?thesis
      using 1 by (auto simp: tcp_process_rx_queue.simps [of env c] keeps_refl split: list.splits)
  next
    case False
    then obtain q qs where q: "rx_queue c = q # qs" by (cases "rx_queue c") auto
    let ?c = "c \<lparr> rx_queue := qs \<rparr>"
    have r: "rsyn c" using 1 q by (auto simp: conn_inv_def conn_inv0_def)
    have i: "conn_inv ?c" "linked ?c" "rsyn ?c"
      using 1 r by (auto simp: conn_inv_def conn_inv0_def sending_def)
    have k: "keeps ?c (process_queued env q ?c)" by (rule keeps_process_queued [OF i])
    then have "keeps (process_queued env q ?c) (tcp_process_rx_queue env (process_queued env q ?c))"
      using False q i by (intro "1.IH" [OF q]) (simp_all add: keeps_def)
    with k have "keeps ?c (tcp_process_rx_queue env (process_queued env q ?c))" by (rule keeps_trans)
    with False q r 1 show ?thesis
      by (simp add: tcp_process_rx_queue.simps [of env c] keeps_def)
  qed
qed

lemma rx_insert_not_Nil [simp]: "rx_insert q qs \<noteq> []"
  by (cases qs) simp_all

lemma inv_rx_enqueue: "conn_inv c \<Longrightarrow> conn_inv (tcp_rx_enqueue seq fl data c)"
  by (simp add: tcp_rx_enqueue_def Let_def conn_inv_def conn_inv0_def sending_def)

lemma inv_irrelevant:
  assumes "conn_inv c" "linked c' = linked c" "tcp_state c' = tcp_state c" "tx_queue c' = tx_queue c"
    "closed c' \<longleftrightarrow> closed c" "snd_sent c' = snd_sent c" "rx_queue c' = rx_queue c"
    "pending_flags c' = pending_flags c"
  shows "conn_inv c'"
  using assms by (simp add: conn_inv_def conn_inv0_def sending_def)

lemma inv_rx_content:
  assumes "conn_inv c" "linked c"
  shows "conn_inv (rx_content env seq fl data w c)"
proof -
  let ?a = "tcp_rx_enqueue seq fl data c"
  let ?b = "tcp_process_rx_queue env ?a"
  define d where "d = (if rx_queue ?b = [] then ?b \<lparr> process := True \<rparr> else tcp_xmit_sack env seq ?b)"
  define e where "e = (if TCP_CLOSED_GRACEFULLY (tcp_state d)
      then d \<lparr> wait_timer := start_timer_fixed (now env) (2 * TCP_MSL) (stop_timer (now env) (wait_timer d)) \<rparr> else d)"
  have "linked ?a" using assms(2) by (simp add: tcp_rx_enqueue_def Let_def)
  then have b: "conn_inv ?b"
    using keeps_process_rx_queue [OF inv_rx_enqueue [OF assms(1)], of seq fl data env] by (simp add: keeps_def)
  have "conn_inv (?b \<lparr> process := True \<rparr>)" by (rule inv_irrelevant [OF b]) simp_all
  then have d: "conn_inv d" unfolding d_def using inv_xmit [OF b] by auto
  then have "conn_inv e" unfolding e_def by (auto intro: inv_irrelevant [OF d])
  then have "conn_inv (notify_window env w e)"
    using keeps_run_app [of e env "app_window env e"] by (simp add: notify_window_def keeps_def)
  then show ?thesis
    unfolding rx_content_def Let_def d_def [symmetric] unfolding e_def [symmetric] .
qed

lemma inv_rx_syn:
  assumes "conn_inv c" "linked c"
  shows "conn_inv (tcp_rx_syn seq opts c)"
proof -
  have st: "tcp_state c \<in> {0x02, 0x202, 0x20012, 0x20212, 0x20213, 0x20313, 0x30213, 0x30313, 0x30212}"
    using assms by (auto simp: conn_inv_def conn_inv0_def live_states_nums)
  have c1: "has (fl OR 10) 1 \<longleftrightarrow> has fl 1" "has (fl OR 2) 1 \<longleftrightarrow> has fl 1" "has (fl OR 8) 1 \<longleftrightarrow> has fl 1" for fl
    unfolding has_or by (simp_all add: has_def)
  define d where "d = (if \<not> rsyn c
      then c \<lparr> rcv_ack := seq,
               conn_flags := conn_flags c OR (if tsopt opts \<noteq> None then TCP_TS_ENABLED else 0)
                          OR (if spopt opts then TCP_SACK_ENABLED else 0),
               snd_win_scale := (case wsopt opts of Some scale \<Rightarrow> scale | None \<Rightarrow> snd_win_scale c),
               rcv_win_scale := (case wsopt opts of Some _ \<Rightarrow> TCP_RX_WINDOW_SCALE | None \<Rightarrow> rcv_win_scale c) \<rparr>
      else c)"
  have d: "linked d" "tcp_state d = tcp_state c" using assms(2) by (simp_all add: d_def)
  have di: "conn_inv d"
    by (rule inv_irrelevant [OF assms(1)])
      (simp_all add: d_def c1 TCP_TS_ENABLED_def TCP_SACK_ENABLED_def)
  define e where "e = tcp_rx_seq 1 d"
  have e: "conn_inv e" "linked e" "tcp_state e = tcp_state c"
    using keeps_rx_seq [OF di, of 1] d by (simp_all add: keeps_def e_def tcp_rx_seq_def Let_def)
  have "conn_inv (e \<lparr> tcp_state := tcp_state e OR 0x20010 \<rparr>)"
    using st e unfolding conn_inv_def conn_inv0_def sending_def
    by (elim insertE emptyE) (simp_all add: sending_nums live_states_nums has_def)
  moreover have "tcp_rx_syn seq opts c = (if seq \<noteq> rcv_ack d then d else e \<lparr> tcp_state := tcp_state e OR 0x20010 \<rparr>)"
    unfolding tcp_rx_syn_def Let_def tcp_nums d_def [symmetric] e_def [symmetric] by simp
  ultimately show ?thesis using di by simp
qed

lemma inv_rx_rst: "conn_inv c \<Longrightarrow> conn_inv (fst (tcp_rx_rst env seq c))"
  using inv_abort [OF conn_inv_weaken, of c env "Some ECONNRESET"] by (simp add: tcp_rx_rst_def)

lemma rx_rst_linked: "snd (tcp_rx_rst env seq c) = None \<Longrightarrow> fst (tcp_rx_rst env seq c) = c"
  by (simp add: tcp_rx_rst_def split: if_splits)

lemma inv_rx_flags:
  assumes "conn_inv c" "linked c"
  shows "conn_inv (fst (rx_flags env seq fl opts data w c))"
proof -
  define a where "a = (if has (tcp_state c) (TCP_STATE_RCVD TCP_SYN) \<and> seq \<noteq> rcv_ack c
               then c \<lparr> conn_flags := conn_flags c OR TCP_ACK_PENDING \<rparr> else c)"
  define b where "b = (if has fl TCP_SYN then tcp_rx_syn seq opts a else a)"
  define seq' where "seq' = (if has fl TCP_SYN then seq + 1 else seq)"
  define r where "r = (if has fl TCP_RST then tcp_rx_rst env seq' b else (b, None))"
  have a: "conn_inv a" "linked a"
    using assms by (auto intro: inv_irrelevant [OF assms(1)] simp: a_def closed_or_pending)
  have b: "conn_inv b" using a inv_rx_syn by (simp add: b_def)
  have lb: "linked b" using a by (simp add: b_def tcp_rx_syn_def Let_def tcp_rx_seq_def)
  have r: "conn_inv (fst r)" "snd r = None \<longrightarrow> fst r = b"
    using b inv_rx_rst [OF b] rx_rst_linked by (auto simp: r_def)
  have "rx_flags env seq fl opts data w c =
      (if snd r \<noteq> None then (fst r, snd r) else (rx_content env seq' fl data w (fst r), None))"
    unfolding rx_flags_def Let_def a_def [symmetric] unfolding b_def [symmetric] unfolding seq'_def [symmetric]
    unfolding r_def [symmetric] case_prod_beta ..
  with r lb inv_rx_content [OF b] show ?thesis by auto
qed

lemma inv_rx_segment:
  assumes "conn_inv c" "linked c"
  shows "conn_inv (fst (tcp_rx_segment env pkt hlen opts c))"
proof -
  define a where "a = (case tsopt opts of Some tsval \<Rightarrow> c \<lparr> ts_val := tsval \<rparr> | None \<Rightarrow> c)"
  have a: "conn_inv a" "linked a"
    using assms by (auto intro: inv_irrelevant [OF assms(1)] simp: a_def split: option.splits)
  have x: "conn_inv (tcp_xmit_reset env pkt b)" if b: "conn_inv b" for b
  proof -
    have "conn_inv (b \<lparr> rx_queue := take n (rx_queue b) \<rparr>)"
      "conn_inv (b \<lparr> rx_queue := take n (rx_queue b), events := ev \<rparr>)" for n ev
      using b by (auto simp: conn_inv_def conn_inv0_def sending_def)
    then show ?thesis by (simp add: tcp_xmit_reset_def Let_def split: prod.split)
  qed
  have ack: "conn_inv (fst (tcp_rx_ack env k w a))" "linked (fst (tcp_rx_ack env k w a))" for k w
    using inv_rx_ack [OF a] a by simp_all
  show ?thesis
    unfolding tcp_rx_segment_def Let_def a_def [symmetric] case_prod_beta
    using x [OF ack(1)] x [OF a(1)] inv_rx_flags [OF ack] inv_rx_flags [OF a] by simp
qed

lemma inv_internal: "tcp_internal c c' \<Longrightarrow> conn_inv c \<Longrightarrow> conn_inv c'"
proof (induction rule: tcp_internal.induct)
  case (int_timer c t over env)
  have "conn_inv (c \<lparr> timer := t \<rparr>)" by (rule inv_irrelevant [OF int_timer.prems]) simp_all
  then show ?case
    using inv_abort [OF conn_inv_weaken, of "c \<lparr> timer := t \<rparr>"] by (simp add: tcp_expired_def tcp_xmit_def inv_xmit)
next
  case (int_keepalive c t over env)
  show ?case
    unfolding tcp_keepalive_expired_def tcp_xmit_def
    by (rule inv_xmit, rule inv_irrelevant [OF int_keepalive.prems]) (simp_all add: closed_or_pending)
next
  case (int_wait c t over env)
  have "conn_inv (c \<lparr> wait_timer := t \<rparr>)" by (rule inv_irrelevant [OF int_wait.prems]) simp_all
  then show ?case
    using inv_abort [OF conn_inv_weaken, of "c \<lparr> wait_timer := t \<rparr>"] by (simp add: tcp_wait_expired_def)
next
  case (int_process c env)
  show ?case
    unfolding tcp_xmit_def by (rule inv_xmit, rule inv_irrelevant [OF int_process.prems]) simp_all
next
  case (int_app c env calls)
  then show ?case using keeps_run_app by (simp add: keeps_def)
next
  case (int_discard c)
  then show ?case by (auto simp: conn_inv_def conn_inv0_def sending_def)
qed

lemma inv_step: "tcp_step c c' \<Longrightarrow> conn_inv c \<Longrightarrow> conn_inv c'"
  by (induction rule: tcp_step.induct) (simp_all add: inv_rx_segment inv_internal)

section \<open>Histories keep the invariant\<close>

lemma xmit_sack_snd_sent:
  assumes "\<not> timer_running (timer c)"
  shows "snd_sent (tcp_xmit_sack env q c) = xmit_seq_len c"
proof -
  define c1 where "c1 = c \<lparr> snd_sent := xmit_seq_len c \<rparr>"
  have s: "snd_sent (xmit_send env q n d) = snd_sent d" for n d
    using xmit_send_frame [of env q n d] by (simp add: Let_def)
  show ?thesis
    using assms unfolding tcp_xmit_sack_def Let_def c1_def [symmetric]
    by (simp add: s case_prod_beta) (simp add: c1_def)
qed

lemma new_connection_fields [simp]:
  "tcp_state (new_connection env seq p m port) = 2" "tx_queue (new_connection env seq p m port) = []"
  "rx_queue (new_connection env seq p m port) = []" "linked (new_connection env seq p m port)"
  "snd_seq (new_connection env seq p m port) = seq" "snd_sent (new_connection env seq p m port) = 0"
  "\<not> closed (new_connection env seq p m port)" "events (new_connection env seq p m port) = []"
  "conn_flags (new_connection env seq p m port) = 0"
  "pending_count (pending_flags (new_connection env seq p m port)) = 1"
  "rcv_win (new_connection env seq p m port) = 0" "snd_win_scale (new_connection env seq p m port) = 0"
  by (simp_all add: new_connection_def pending_get_def has_def)

lemma inv_first_xmit: "conn_inv (first_xmit env' (new_connection env seq p m port))"
proof -
  let ?n = "new_connection env seq p m port"
  define c where "c = ?n \<lparr> timer := fst (timer_expired (timer ?n)) \<rparr>"
  define d where "d = tcp_xmit_sack env' (rcv_ack c) c"
  have "xmit_seq_len c = 1"
    by (simp add: c_def xmit_seq_len_def xmit_len_def can_send_nums sending_nums has_def)
  then have s: "snd_sent d = 1"
    using xmit_sack_snd_sent [of c env'] by (simp add: d_def c_def timer_running_def)
  have f: "xmit_frame c d" unfolding d_def by (rule xmit_frame_xmit_sack)
  have "\<not> closed d" using closed_xmit_frame [OF f] by (simp add: c_def has_nums)
  then have "conn_inv d"
    using f s by (auto simp: xmit_frame_def conn_inv_def conn_inv0_def c_def live_states_nums sending_def sending_nums has_def)
  then show ?thesis
    by (simp add: first_xmit_def tcp_expired_def tcp_xmit_def d_def c_def)
qed

lemma reach_inv: "tcp_reach c \<Longrightarrow> conn_inv c"
  by (induction rule: tcp_reach.induct) (simp_all add: inv_first_xmit inv_step)

text \<open>
  C9: Along every history of a connection from its first transmission, whatever
  the peer sends, whatever the application does and whichever allocations and
  transmissions fail: a connection on the list is in one of the states of
  RFC 793 (or has had its SYN acknowledged without receiving one), it never
  sends SYN and FIN in one segment, and the pending-operation counter of its
  flags is exactly one while a SYN or FIN is unacknowledged and zero otherwise;
  a deleted connection is closed, with nothing queued and nothing pending.
\<close>

theorem tcp_state_machine:
  assumes "tcp_reach c"
  shows "if linked c
    then tcp_state c \<in> live_states
      \<and> \<not> (has (TCP_FLAGS_SENDING (tcp_state c)) TCP_SYN \<and> has (TCP_FLAGS_SENDING (tcp_state c)) TCP_FIN)
      \<and> pending_count (pending_flags c)
          = (if has (TCP_FLAGS_SENDING (tcp_state c)) (TCP_SYN OR TCP_FIN) then 1 else 0)
      \<and> (has (tcp_state c) (TCP_STATE_SENT TCP_FIN) \<longrightarrow> tx_queue c = [])
    else tcp_state c = TCP_CLOSED \<and> tx_queue c = [] \<and> rx_queue c = [] \<and> \<not> is_pending (pending_flags c)"
proof -
  have i: "conn_inv c" by (rule reach_inv [OF assms])
  have "\<not> (has (TCP_FLAGS_SENDING st) 2 \<and> has (TCP_FLAGS_SENDING st) 1)" if "st \<in> live_states" for st
    using that by (auto simp: live_states_nums sending_nums has_def)
  then show ?thesis
    using i by (auto simp: conn_inv_def conn_inv0_def sending_def is_pending_def sending_nums has_def)
qed

text \<open>A concrete environment: allocations and transmissions succeed.\<close>

definition quiet_env :: tcp_env where
  "quiet_env = \<lparr> now = 0, iob_addr = 0, env_alloc = (\<lambda>_ _. (0, True)), env_tx = (\<lambda>_ _. None),
     env_window = (\<lambda>_. 0x10000), app_data = (\<lambda>_ _. []), app_window = (\<lambda>_. []) \<rparr>"

definition no_peer :: sockaddr_tcpip where
  "no_peer = \<lparr> st_family = 2, st_flags = 0, st_port = 80, st_scope_id = 0, st_pad = [] \<rparr>"

definition fresh :: tcp_connection where
  "fresh = first_xmit quiet_env (new_connection quiet_env 1000 no_peer 1480 2048)"

lemma reach_fresh: "tcp_reach fresh"
  unfolding fresh_def by (rule reach_open)

lemma fresh_fields [simp]:
  "tcp_state fresh = 2" "tx_queue fresh = []" "rx_queue fresh = []" "linked fresh" "snd_seq fresh = 1000"
  "snd_sent fresh = 1" "conn_flags fresh = 0" "snd_win_scale fresh = 0"
proof -
  let ?n = "new_connection quiet_env 1000 no_peer 1480 2048"
  define c where "c = ?n \<lparr> timer := fst (timer_expired (timer ?n)) \<rparr>"
  have e: "fresh = tcp_xmit_sack quiet_env (rcv_ack c) c"
    by (simp add: fresh_def first_xmit_def tcp_expired_def tcp_xmit_def c_def)
  have "conn_flags c = 0" by (simp add: c_def)
  with xmit_frame_xmit_sack [of c quiet_env "rcv_ack c"]
  show "tcp_state fresh = 2" "tx_queue fresh = []" "rx_queue fresh = []" "linked fresh" "snd_seq fresh = 1000"
    "conn_flags fresh = 0" "snd_win_scale fresh = 0"
    unfolding e xmit_frame_def by (auto simp: c_def)
  show "snd_sent fresh = 1"
    unfolding e using xmit_sack_snd_sent [of c quiet_env]
    by (simp add: c_def timer_running_def xmit_seq_len_def xmit_len_def can_send_nums sending_nums has_def)
qed

theorem tcp_state_machine_witness: "tcp_state fresh \<in> live_states \<and> pending_count (pending_flags fresh) = 1"
  using tcp_state_machine [OF reach_fresh] by (simp add: sending_nums has_def)

section \<open>Closing before the first transmission\<close>

text \<open>
  A segment with only the given flags, sequence and acknowledgement numbers and window.
\<close>

definition bare_segment :: "u32 \<Rightarrow> u32 \<Rightarrow> u8 \<Rightarrow> u16 \<Rightarrow> u8 list" where
  "bare_segment seq ack fl win = tcp_header 80 2048 seq ack 0x50 fl win 0"

definition no_options :: tcp_options where
  "no_options = \<lparr> wsopt = None, spopt = False, tsopt = None \<rparr>"

lemma bare_segment_fields [simp]:
  "ntohl (drop 4 (bare_segment seq ack fl win)) = seq" "ntohl (drop 8 (bare_segment seq ack fl win)) = ack"
  "ntohs (drop 14 (bare_segment seq ack fl win)) = win" "bare_segment seq ack fl win ! 13 = fl"
  "drop 20 (bare_segment seq ack fl win) = []"
  by (simp_all add: bare_segment_def tcp_header_def nth_append store_csum_def)

lemma rx_bare_syn:
  assumes "tcp_state c = 2" "tx_queue c = []" "rx_queue c = []"
    and c': "c' = fst (tcp_rx_segment quiet_env (bare_segment seq ack 2 win) 20 no_options c)"
  shows "tcp_state c' = 0x20012" "tx_queue c' = []" "snd_seq c' = snd_seq c" "snd_sent c' = snd_sent c"
    "timer c' = timer c" "linked c' = linked c" "conn_flags c' = conn_flags c OR 4"
    "rcv_ack c' = seq + 1" "rx_queue c' = []" "events c' = events c" "1 < rcv_win c \<Longrightarrow> rcv_win c' = rcv_win c - 1"
proof -
  define d where "d = tcp_rx_syn seq no_options c"
  have d: "tcp_state d = 0x20012" "tx_queue d = []" "rx_queue d = []" "snd_seq d = snd_seq c"
    "snd_sent d = snd_sent c" "timer d = timer c" "linked d = linked c" "conn_flags d = conn_flags c OR 4"
    "rcv_ack d = seq + 1" "events d = events c" "1 < rcv_win c \<Longrightarrow> rcv_win d = rcv_win c - 1"
    using assms(1,2,3) by (simp_all add: d_def tcp_rx_syn_def Let_def tcp_rx_seq_def has_def no_options_def)
  have "rx_content quiet_env (seq + 1) 2 [] (tcp_xfer_window c) d = d \<lparr> process := True \<rparr>"
    using d assms(1,2)
    by (simp add: rx_content_def Let_def tcp_rx_enqueue_def tcp_process_rx_queue.simps notify_window_def
        tcp_xfer_window_def tcp_xmit_win_def can_send_nums TCP_CLOSED_GRACEFULLY_def)
  then have "c' = d \<lparr> process := True \<rparr>"
    using assms(1) by (simp add: c' tcp_rx_segment_def rx_flags_def Let_def no_options_def has_def d_def)
  with d show "tcp_state c' = 0x20012" "tx_queue c' = []" "snd_seq c' = snd_seq c" "snd_sent c' = snd_sent c"
    "timer c' = timer c" "linked c' = linked c" "conn_flags c' = conn_flags c OR 4"
    "rcv_ack c' = seq + 1" "rx_queue c' = []" "events c' = events c" "1 < rcv_win c \<Longrightarrow> rcv_win c' = rcv_win c - 1"
    by simp_all
qed

lemma close_before_xmit:
  assumes "tcp_state c = 0x20012" "tx_queue c = []" "snd_sent c = 0" "running (timer c)" "\<not> closed c"
  shows "tcp_state (run_app quiet_env [App_close None] c) = 0x20013"
proof -
  have "tcp_rx_ack quiet_env (snd_seq d + 1) 0 d = (d, Some EINVAL)" if "tcp_state d = 0x20012" "snd_sent d = 0" for d
    using that by (simp add: tcp_rx_ack_def Let_def TCP_HAS_BEEN_ESTABLISHED_def)
  note ack = this
  let ?d = "intf_shutdown None c"
  have t: "timer ?d = timer c" by (simp add: intf_shutdown_def)
  have "tcp_state (tcp_close quiet_env None c) = 0x20013" "timer (tcp_close quiet_env None c) = timer c"
    using assms ack [of ?d] t by (simp_all add: tcp_close_def Let_def has_def)
  with assms(4,5) show ?thesis
    by (simp add: tcp_xfer_close_def tcp_xmit_def tcp_xmit_sack_def timer_running_def)
qed


section \<open>An acknowledgement without a SYN\<close>

text \<open>The states in which \<open>tcp_expired()\<close> asserts that the retransmission timer can expire.\<close>

definition expiry_states :: "u32 set" where
  "expiry_states = {TCP_SYN_SENT, TCP_SYN_RCVD, TCP_ESTABLISHED, TCP_FIN_WAIT_1, TCP_CLOSE_WAIT,
     TCP_CLOSING_OR_LAST_ACK}"

definition eager_env :: tcp_env where
  "eager_env = quiet_env \<lparr> app_window := (\<lambda>_. [App_send [0x41]]) \<rparr>"

lemma xmit_sack_timer:
  assumes "\<not> timer_running (timer c)" "xmit_seq_len c \<noteq> 0"
  shows "running (timer (tcp_xmit_sack env q c))"
proof -
  define c1 where "c1 = c \<lparr> snd_sent := xmit_seq_len c, timer := start_timer (now env) (timer c) \<rparr>"
  have t: "timer (xmit_send env q n d) = timer d" for n d
    using xmit_send_frame [of env q n d] by (simp add: Let_def)
  show ?thesis
    using assms unfolding tcp_xmit_sack_def Let_def by (simp add: t case_prod_beta)
qed

lemma ack_opens_window:
  assumes "tcp_state c = 2" "tx_queue c = []" "rx_queue c = []" "snd_seq c = 1000" "snd_sent c = 1"
    "conn_flags c = 0" "snd_win_scale c = 0" "linked c"
    and c': "c' = fst (tcp_rx_segment eager_env (bare_segment 0 1001 0x10 1000) 20 no_options c)"
  shows "tcp_state c' = 0x202" "linked c'" "running (timer c')"
proof -
  define d where "d = fst (tcp_rx_ack eager_env 1001 1000 c)"
  have d: "tcp_state d = 0x202" "tx_queue d = []" "rx_queue d = []" "linked d" "conn_flags d = 0"
      "snd_win d = 1000" "\<not> running (timer d)" "snd (tcp_rx_ack eager_env 1001 1000 c) = None"
    using assms(1-8)
    by (simp_all add: d_def tcp_rx_ack_def Let_def rx_ack_new_def rx_ack_fin_def rx_ack_core_def sending_nums has_def)
  define e where "e = d \<lparr> process := True, tx_queue := [[0x41]], pending_data := pending_get (pending_data d),
      events := events d @ [Accept [0x41]] \<rparr>"
  have "rx_content eager_env 0 0x10 [] 0 d = tcp_xmit_sack eager_env (rcv_ack d) e"
    using d by (simp add: rx_content_def Let_def tcp_rx_enqueue_def has_def tcp_process_rx_queue.simps
        TCP_CLOSED_GRACEFULLY_def notify_window_def tcp_xfer_window_def tcp_xmit_win_def can_send_nums TCP_PATH_MTU_def
        eager_env_def tcp_xfer_deliver_def tcp_xmit_def e_def)
  then have c'e: "c' = tcp_xmit_sack eager_env (rcv_ack d) e"
    using assms(1,2,7) d
    by (simp add: c' tcp_rx_segment_def rx_flags_def Let_def no_options_def tcp_xfer_window_def tcp_xmit_win_def
        can_send_nums case_prod_beta flip: d_def) (simp add: has_def)
  have "xmit_seq_len e = 1"
    using d by (simp add: e_def xmit_seq_len_def xmit_len_def can_send_nums sending_nums has_def tcp_xmit_win_def TCP_PATH_MTU_def)
  then show "running (timer c')"
    unfolding c'e using d by (intro xmit_sack_timer) (simp_all add: e_def timer_running_def)
  show "tcp_state c' = 0x202" "linked c'"
    using xmit_frame_xmit_sack [of e eager_env "rcv_ack d"] d unfolding c'e xmit_frame_def by (simp_all add: e_def)
qed

text \<open>
  An acknowledgement of our SYN in a segment that carries no SYN opens the
  send window although no SYN was received; data sent then starts the
  retransmission timer in a state that the assertion in \<open>tcp_expired()\<close> does
  not allow.
\<close>

lemma tcp_expiry_outside_assertion:
  "\<exists>c. tcp_reach c \<and> linked c \<and> running (timer c) \<and> tcp_state c = SYN_ACKED_ONLY \<and> tcp_state c \<notin> expiry_states"
proof -
  define c where "c = fst (tcp_rx_segment eager_env (bare_segment 0 1001 0x10 1000) 20 no_options fresh)"
  have "tcp_reach c"
    unfolding c_def by (rule reach_step [OF reach_fresh]) (rule step_rx, simp)
  then show ?thesis
    using ack_opens_window [OF _ _ _ _ _ _ _ _ c_def]
    by (intro exI [of _ c]) (simp add: SYN_ACKED_ONLY_def expiry_states_def tcp_state_nums)
qed

end
