(* ===== verification/Tcp_Stream.thy ===== *)
theory Tcp_Stream
  imports Tcp_State "HOL-Library.Sublist"
begin

text \<open>
  The byte streams of a TCP connection.  Receiving: whatever order, loss and
  duplication the network adds to the segments of the peer, the data handed to
  the application is a prefix of the peer's stream.  The proof relates the
  32-bit sequence numbers of the queued packets to offsets in the stream.
\<close>

section \<open>Sequence numbers as offsets\<close>

lemma tcp_cmp_offsets:
  fixes b :: u32 and m n :: nat
  assumes "m < n + 2 ^ 31" "n \<le> m + 2 ^ 31"
  shows "tcp_cmp (b + of_nat m) (b + of_nat n) = int m - int n"
proof -
  have "b + of_nat m - (b + of_nat n) = word_of_int (int m - int n)"
    by simp
  moreover have "sint (word_of_int (int m - int n) :: u32) = int m - int n"
    unfolding sint_sbintrunc' by (rule signed_take_bit_int_eq_self) (use assms in simp_all)
  ultimately show ?thesis by (simp add: tcp_cmp_def)
qed

lemma seq_diff_offsets:
  fixes b :: u32
  assumes "n \<le> m" "m - n < 2 ^ 32"
  shows "unat (b + of_nat m - (b + of_nat n)) = m - n"
proof -
  have "b + of_nat m - (b + of_nat n) = of_nat (m - n)" using assms(1) by (simp add: of_nat_diff)
  then show ?thesis using assms(2) by (simp add: unat_of_nat)
qed

section \<open>Honest segments\<close>

text \<open>
  A piece of the peer's stream \<open>S\<close> at offset \<open>n\<close>; FIN follows the last byte.
\<close>

definition piece :: "u32 \<Rightarrow> u8 list \<Rightarrow> u32 \<Rightarrow> u32 \<Rightarrow> u8 list \<Rightarrow> nat \<Rightarrow> bool" where
  "piece irs S seq fl data n \<longleftrightarrow>
     seq = irs + 1 + of_nat n \<and> n + length data \<le> length S \<and> data = take (length data) (drop n S)
     \<and> length data < 2 ^ 16 \<and> (has fl TCP_FIN \<longrightarrow> n + length data = length S)"

definition queued_piece :: "u32 \<Rightarrow> u8 list \<Rightarrow> tcp_rx_queued \<Rightarrow> nat \<Rightarrow> bool" where
  "queued_piece irs S q n \<longleftrightarrow> piece irs S (q_seq q) (q_flags q) (q_data q) n"

text \<open>
  The peer numbers its stream from \<open>irs\<close>, the number of its SYN, and a segment
  that reaches an open connection is not older or newer than the receiver's
  position by \<open>2 ^ 30\<close> bytes or more.
\<close>

definition honest :: "u32 \<Rightarrow> u8 list \<Rightarrow> tcp_connection \<Rightarrow> u8 list \<Rightarrow> nat \<Rightarrow> bool" where
  "honest irs S c pkt hlen \<longleftrightarrow>
     (let fl = ucast (pkt ! 13); seq = ntohl (drop 4 pkt)
      in \<exists>n. (has fl TCP_SYN \<longrightarrow> seq = irs \<and> n = 0)
            \<and> piece irs S (if has fl TCP_SYN then seq + 1 else seq) fl (drop hlen pkt) n
            \<and> n < length (delivered c) + 2 ^ 30 \<and> length (delivered c) < n + 2 ^ 30)"

inductive rx_history :: "u32 \<Rightarrow> u8 list \<Rightarrow> tcp_connection \<Rightarrow> bool" for irs S where
  rx_open: "rx_history irs S (first_xmit env' (new_connection env seq st_peer mtu port))"
| rx_segment: "rx_history irs S c \<Longrightarrow> linked c \<Longrightarrow> honest irs S c pkt hlen \<Longrightarrow>
    rx_history irs S (fst (tcp_rx_segment env pkt hlen opts c))"
| rx_internal: "rx_history irs S c \<Longrightarrow> tcp_internal c c' \<Longrightarrow> rx_history irs S c'"

section \<open>The invariant of the receive queue\<close>

definition queue_ok :: "u32 \<Rightarrow> u8 list \<Rightarrow> tcp_rx_queued list \<Rightarrow> nat list \<Rightarrow> bool" where
  "queue_ok irs S qs ns \<longleftrightarrow> list_all2 (queued_piece irs S) qs ns \<and> sorted ns"

text \<open>
  \<open>rx_at irs S lo c\<close>: an open connection has delivered the first \<open>k\<close> bytes, its
  receive sequence number stands at offset \<open>k\<close>, and the queued packets are in
  order, between \<open>lo\<close> bytes behind \<open>k\<close> and \<open>2 ^ 19\<close> bytes ahead.
\<close>

definition rx_at :: "u32 \<Rightarrow> u8 list \<Rightarrow> nat \<Rightarrow> tcp_connection \<Rightarrow> bool" where
  "rx_at irs S lo c \<longleftrightarrow>
     (let k = length (delivered c)
      in rcv_ack c = irs + 1 + of_nat k
         \<and> (\<exists>ns. queue_ok irs S (rx_queue c) ns \<and> (\<forall>n \<in> set ns. k < n + lo \<and> n < k + 2 ^ 19)))"

definition rx_inv :: "u32 \<Rightarrow> u8 list \<Rightarrow> tcp_connection \<Rightarrow> bool" where
  "rx_inv irs S c \<longleftrightarrow> prefix (delivered c) S \<and> rcv_win c \<le> TCP_MAX_WINDOW_SIZE
     \<and> (\<not> closed c \<longrightarrow> (if rsyn c then rx_at irs S 0 c else delivered c = []))"

lemma queue_ok_take: "queue_ok irs S qs ns \<Longrightarrow> queue_ok irs S (take m qs) (take m ns)"
  by (auto simp: queue_ok_def intro: list_all2_takeI sorted_wrt_take)

lemma rx_at_frame:
  assumes "rx_at irs S lo c" "rx_frame c c'"
  shows "rx_at irs S lo c'"
proof -
  obtain m where m: "rx_queue c' = take m (rx_queue c)" using assms(2) by (auto simp: rx_frame_def)
  obtain ns where "queue_ok irs S (rx_queue c) ns"
      "\<forall>n \<in> set ns. length (delivered c) < n + lo \<and> n < length (delivered c) + 2 ^ 19"
    using assms(1) by (auto simp: rx_at_def Let_def)
  then have "queue_ok irs S (rx_queue c') (take m ns)"
      "\<forall>n \<in> set (take m ns). length (delivered c) < n + lo \<and> n < length (delivered c) + 2 ^ 19"
    using queue_ok_take m by (auto dest: in_set_takeD)
  with assms show ?thesis unfolding rx_at_def rx_frame_def Let_def by auto
qed

lemma rx_inv_frame:
  assumes "rx_inv irs S c" "rx_frame c c'" "rsyn c \<Longrightarrow> \<not> closed c' \<Longrightarrow> rsyn c'"
  shows "rx_inv irs S c'"
  using assms rx_at_frame [of irs S 0 c c'] unfolding rx_inv_def rx_frame_def by (auto split: if_splits)

section \<open>Processing the queue\<close>

text \<open>
  The invariant of the loop: the packets still queued may start up to \<open>2 ^ 17\<close>
  bytes before the receiver's position.
\<close>

definition rx_loop :: "u32 \<Rightarrow> u8 list \<Rightarrow> tcp_connection \<Rightarrow> bool" where
  "rx_loop irs S c \<longleftrightarrow> prefix (delivered c) S \<and> (closed c \<or> rx_at irs S (2 ^ 17) c)"

lemma delivered_append: "delivered (c \<lparr> events := events c @ [Deliver d] \<rparr>) = delivered c @ d"
  by (simp add: delivered_def)

lemma closed_rx_seq [simp]: "closed (tcp_rx_seq m c) \<longleftrightarrow> closed c"
  by (simp add: tcp_rx_seq_def Let_def closed_or_pending)

lemma delivered_rx_seq [simp]: "delivered (tcp_rx_seq m c) = delivered c"
  by (simp add: delivered_def)

lemma piece_rest:
  assumes "piece irs S seq fl data n" "n \<le> k" "k < n + length data" "prefix dl S" "length dl = k"
  shows "prefix (dl @ drop (k - n) data) S" and "length (dl @ drop (k - n) data) = n + length data"
proof -
  have dl: "dl = take k S" using assms(4,5) by (metis append_eq_conv_conj prefix_def)
  have "drop (k - n) data = take (n + length data - k) (drop k S)"
    using assms(1-3) by (subst piece_def [THEN iffD1, OF assms(1), THEN conjunct2, THEN conjunct2, THEN conjunct1])
      (simp add: drop_take add.commute)
  then have "dl @ drop (k - n) data = take (n + length data) S"
    using assms(3) take_add [of k "n + length data - k" S] by (simp add: dl)
  then show "prefix (dl @ drop (k - n) data) S" by (simp add: take_is_prefix)
  show "length (dl @ drop (k - n) data) = n + length data"
    using assms(2,3,5) by simp
qed

lemma rx_loop_data:
  assumes p: "piece irs S seq fl data n" and l: "rx_loop irs S c"
    and near: "\<not> closed c \<Longrightarrow> n \<le> length (delivered c) \<and> length (delivered c) < n + 2 ^ 17"
    and ns: "\<not> closed c \<Longrightarrow> queue_ok irs S (rx_queue c) ns
      \<and> (\<forall>m \<in> set ns. n \<le> m \<and> m < length (delivered c) + 2 ^ 19)"
  shows "rx_loop irs S (tcp_rx_data env seq data c)"
proof -
  let ?k = "length (delivered c)" and ?L = "of_nat (length data) :: u32"
  have len: "unat ?L = length data" "length data < 2 ^ 16"
    using p by (auto simp: piece_def unat_of_nat)
  show ?thesis
  proof (cases "rcv_ack c - seq \<ge> ?L")
    case True
    then show ?thesis using l by (simp add: tcp_rx_data_def)
  next
    case False
    define d where "d = tcp_rx_seq (?L - (rcv_ack c - seq)) c"
    have e: "tcp_rx_data env seq data c = deliver_data env (drop (unat (rcv_ack c - seq)) data) d"
      using False by (simp add: tcp_rx_data_def Let_def d_def)
    show ?thesis
    proof (cases "closed c")
      case True
      then show ?thesis using l unfolding e by (simp add: deliver_data_def d_def rx_loop_def)
    next
      case open_c: False
      then have at: "rx_at irs S (2 ^ 17) c" and pre: "prefix (delivered c) S"
        using l by (auto simp: rx_loop_def)
      have seq: "seq = irs + 1 + of_nat n" "rcv_ack c = irs + 1 + of_nat ?k"
        using p at by (auto simp: piece_def rx_at_def Let_def)
      have nk: "n \<le> ?k" "?k < n + 2 ^ 17" using near [OF open_c] by auto
      have already: "unat (rcv_ack c - seq) = ?k - n"
        unfolding seq by (rule seq_diff_offsets) (use nk in auto)
      have kn: "?k < n + length data"
        using False nk len(1) unfolding word_le_nat_alt already by simp
      define dt where "dt = drop (?k - n) data"
      define f where "f = d \<lparr> events := events d @ [Deliver dt] \<rparr>"
      have f: "delivered f = delivered c @ dt" "rx_queue f = rx_queue c" "closed f \<longleftrightarrow> closed c"
        "rcv_ack f = rcv_ack c + (?L - (rcv_ack c - seq))"
        using delivered_append [of d dt] by (simp_all add: f_def [symmetric]) (simp_all add: f_def d_def)
      have lf: "length (delivered f) = n + length data" and pf: "prefix (delivered f) S"
        unfolding f dt_def using piece_rest [OF p nk(1) kn pre] by simp_all
      have rf: "rcv_ack f = irs + 1 + of_nat (n + length data)"
        unfolding f(4) seq(1) by (simp add: add.assoc)
      have "\<forall>m \<in> set ns. n + length data < m + 2 ^ 17 \<and> m < n + length data + 2 ^ 19"
      proof (intro ballI conjI)
        fix m assume m: "m \<in> set ns"
        then have "n \<le> m" "m < ?k + 2 ^ 19" using ns [OF open_c] by auto
        then show "n + length data < m + 2 ^ 17" "m < n + length data + 2 ^ 19" using kn len(2) by simp_all
      qed
      then have atf: "rx_at irs S (2 ^ 17) f"
        unfolding rx_at_def Let_def lf rf f(2) using ns [OF open_c] by blast
      have r: "rx_frame f (deliver_data env dt d)"
        using rx_frame_deliver_data [of d dt env] open_c by (simp add: f_def d_def)
      show ?thesis
        unfolding e already dt_def [symmetric] rx_loop_def
        using rx_at_frame [OF atf r] pf r by (simp add: rx_frame_def)
    qed
  qed
qed

lemma closed_close [simp]: "closed (tcp_close env rc c)"
  using intf_shutdown_fields(9) [of rc c] by (simp add: tcp_close_def Let_def tcp_delete_def)

lemma delivered_close [simp]: "delivered (tcp_close env rc c) = delivered c"
  using rx_frame_close by (auto simp: rx_frame_def)

lemma rx_fin_cases: "tcp_rx_fin env seq c = c \<or>
    closed (tcp_rx_fin env seq c) \<and> delivered (tcp_rx_fin env seq c) = delivered c"
  by (simp add: tcp_rx_fin_def Let_def) (simp add: delivered_def)

lemma closed_process_queued:
  assumes "closed c"
  shows "closed (process_queued env q c) \<and> delivered (process_queued env q c) = delivered c"
proof -
  have "closed (tcp_rx_data env s d c) \<and> delivered (tcp_rx_data env s d c) = delivered c" for s d
    using assms by (simp add: tcp_rx_data_def Let_def deliver_data_def)
  then show ?thesis
    using rx_fin_cases [of env "q_seq q + of_nat (length (q_data q))" "tcp_rx_data env (q_seq q) (q_data q) c"]
    by (auto simp: process_queued_def Let_def)
qed

lemma rx_loop_process_queued:
  assumes "queued_piece irs S q n" "rx_loop irs S c"
    and "\<not> closed c \<Longrightarrow> n \<le> length (delivered c) \<and> length (delivered c) < n + 2 ^ 17"
    and "\<not> closed c \<Longrightarrow> queue_ok irs S (rx_queue c) ns
      \<and> (\<forall>m \<in> set ns. n \<le> m \<and> m < length (delivered c) + 2 ^ 19)"
  shows "rx_loop irs S (process_queued env q c)"
proof -
  let ?d = "tcp_rx_data env (q_seq q) (q_data q) c"
  have d: "rx_loop irs S ?d"
    using assms(1) by (intro rx_loop_data [OF _ assms(2-4)]) (auto simp: queued_piece_def)
  then have "rx_loop irs S (tcp_rx_fin env s ?d)" for s
    using rx_fin_cases [of env s ?d] by (auto simp: rx_loop_def)
  with d show ?thesis by (simp add: process_queued_def Let_def)
qed

lemma queue_ok_Cons:
  "queue_ok irs S (q # qs) ns \<Longrightarrow> \<exists>n ms. ns = n # ms \<and> queued_piece irs S q n \<and> queue_ok irs S qs ms
     \<and> (\<forall>m \<in> set ms. n \<le> m)"
  by (auto simp: queue_ok_def list_all2_Cons1)

lemma rx_loop_head:
  assumes "rx_loop irs S c" "\<not> closed c" "rx_queue c = q # qs"
  defines "k \<equiv> length (delivered c)"
  obtains n ms where "queued_piece irs S q n" "queue_ok irs S qs ms" "\<forall>m \<in> set ms. n \<le> m"
    "rcv_ack c = irs + 1 + of_nat k" "\<forall>m \<in> insert n (set ms). k < m + 2 ^ 17 \<and> m < k + 2 ^ 19"
proof -
  obtain ns where ns: "queue_ok irs S (q # qs) ns" "\<forall>m \<in> set ns. k < m + 2 ^ 17 \<and> m < k + 2 ^ 19"
    and r: "rcv_ack c = irs + 1 + of_nat k"
    using assms by (auto simp: rx_loop_def rx_at_def Let_def)
  from queue_ok_Cons [OF ns(1)] obtain n ms where "ns = n # ms" "queued_piece irs S q n"
    "queue_ok irs S qs ms" "\<forall>m \<in> set ms. n \<le> m" by blast
  with ns(2) r show thesis by (intro that [of n ms]) simp_all
qed

lemma rx_loop_process:
  "rx_loop irs S c \<Longrightarrow> prefix (delivered (tcp_process_rx_queue env c)) S
     \<and> (closed (tcp_process_rx_queue env c) \<or> rx_at irs S 0 (tcp_process_rx_queue env c))"
proof (induction env c rule: tcp_process_rx_queue.induct)
  case (1 env c)
  show ?case
  proof (cases "rx_queue c")
    case Nil
    then show ?thesis
      using "1.prems" by (auto simp: tcp_process_rx_queue.simps [of env c] rx_loop_def rx_at_def queue_ok_def)
  next
    case (Cons q qs)
    let ?c = "c \<lparr> rx_queue := qs \<rparr>" and ?k = "length (delivered c)"
    have fields: "delivered ?c = delivered c" by (simp add: delivered_def)
    show ?thesis
    proof (cases "tcp_cmp (q_seq q) (rcv_ack c) > 0")
      case True
      have "rx_at irs S 0 c" if open_c: "\<not> closed c"
      proof -
        obtain n ms where n: "queued_piece irs S q n" "queue_ok irs S qs ms" "\<forall>m \<in> set ms. n \<le> m"
          "rcv_ack c = irs + 1 + of_nat ?k" "\<forall>m \<in> insert n (set ms). ?k < m + 2 ^ 17 \<and> m < ?k + 2 ^ 19"
          using rx_loop_head [OF "1.prems" open_c Cons] by blast
        have "tcp_cmp (irs + 1 + of_nat n) (irs + 1 + of_nat ?k) = int n - int ?k"
          by (rule tcp_cmp_offsets) (use n(5) in auto)
        with True n(1,4) have "?k < n" by (auto simp: queued_piece_def piece_def)
        moreover have "queue_ok irs S (rx_queue c) (n # ms)"
          using n Cons by (auto simp: queue_ok_def)
        ultimately show ?thesis
          using n unfolding rx_at_def Let_def by (intro conjI exI [of _ "n # ms"]) auto
      qed
      with True Cons "1.prems" show ?thesis
        by (auto simp: tcp_process_rx_queue.simps [of env c] rx_loop_def)
    next
      case False
      have "rx_loop irs S (process_queued env q ?c)"
      proof (cases "closed c")
        case True
        then show ?thesis
          using closed_process_queued [of ?c env q] "1.prems" fields by (simp add: rx_loop_def)
      next
        case open_c: False
        then obtain n ms where n: "queued_piece irs S q n" "queue_ok irs S qs ms" "\<forall>m \<in> set ms. n \<le> m"
          "rcv_ack c = irs + 1 + of_nat ?k" "\<forall>m \<in> insert n (set ms). ?k < m + 2 ^ 17 \<and> m < ?k + 2 ^ 19"
          using rx_loop_head [OF "1.prems" open_c Cons] by blast
        have "tcp_cmp (irs + 1 + of_nat n) (irs + 1 + of_nat ?k) = int n - int ?k"
          by (rule tcp_cmp_offsets) (use n(5) in auto)
        with False n(1,4) have nk: "n \<le> ?k" by (auto simp: queued_piece_def piece_def)
        have "rx_loop irs S ?c"
          using "1.prems" n by (auto simp: rx_loop_def rx_at_def Let_def fields)
        then show ?thesis
          by (rule rx_loop_process_queued [OF n(1)]) (use n nk fields in auto)
      qed
      from "1.IH" [OF Cons False this] show ?thesis
        using Cons False by (simp add: tcp_process_rx_queue.simps [of env c])
    qed
  qed
qed

section \<open>Queueing a packet\<close>

lemma rx_insert_ok:
  assumes "queue_ok irs S qs ns" "queued_piece irs S q n"
    "\<forall>m \<in> insert n (set ns). k < m + 2 ^ 17 \<and> m < k + 2 ^ 19"
  shows "\<exists>ms. queue_ok irs S (rx_insert q qs) ms \<and> set ms = insert n (set ns)"
  using assms
proof (induction qs arbitrary: ns)
  case Nil
  then show ?case by (intro exI [of _ "[n]"]) (auto simp: queue_ok_def)
next
  case (Cons p qs)
  from queue_ok_Cons [OF Cons.prems(1)] obtain m ms where m: "ns = m # ms" "queued_piece irs S p m"
    "queue_ok irs S qs ms" "\<forall>x \<in> set ms. m \<le> x" by blast
  have "tcp_cmp (irs + 1 + of_nat n) (irs + 1 + of_nat m) = int n - int m"
    by (rule tcp_cmp_offsets) (use Cons.prems(3) m(1) in auto)
  then have lt: "tcp_cmp (q_seq q) (q_seq p) < 0 \<longleftrightarrow> n < m"
    using m(2) Cons.prems(2) by (simp add: queued_piece_def piece_def)
  show ?case
  proof (cases "n < m")
    case True
    then show ?thesis
      using m Cons.prems lt by (intro exI [of _ "n # m # ms"]) (auto simp: queue_ok_def)
  next
    case False
    obtain xs where xs: "queue_ok irs S (rx_insert q qs) xs" "set xs = insert n (set ms)"
      using Cons.IH [OF m(3) Cons.prems(2)] Cons.prems(3) m(1) by auto
    then show ?thesis
      using False lt m by (intro exI [of _ "m # xs"]) (auto simp: queue_ok_def)
  qed
qed

lemma has_and_self: "has (fl AND 1) 1 \<longleftrightarrow> has fl 1"
  by (simp add: has_def)

lemma rx_enqueue_fields [simp]:
  "delivered (tcp_rx_enqueue seq fl data c) = delivered c" "rcv_ack (tcp_rx_enqueue seq fl data c) = rcv_ack c"
  "conn_flags (tcp_rx_enqueue seq fl data c) = conn_flags c" "tcp_state (tcp_rx_enqueue seq fl data c) = tcp_state c"
  "rcv_win (tcp_rx_enqueue seq fl data c) = rcv_win c" "linked (tcp_rx_enqueue seq fl data c) = linked c"
  by (simp_all add: tcp_rx_enqueue_def Let_def delivered_def)

lemma rx_loop_enqueue:
  assumes at: "rx_at irs S 0 c" and pre: "prefix (delivered c) S" and win: "rcv_win c \<le> TCP_MAX_WINDOW_SIZE"
    and p: "piece irs S seq fl data n"
    and near: "n < length (delivered c) + 2 ^ 30" "length (delivered c) < n + 2 ^ 30"
  shows "rx_loop irs S (tcp_rx_enqueue seq fl data c)"
proof -
  let ?k = "length (delivered c)"
  define f where "f = (if fl AND TCP_FIN \<noteq> 0 then 1 else 0 :: nat)"
  define q where "q = \<lparr> q_seq = seq, q_nxt = seq + of_nat (length data + f), q_flags = fl AND TCP_FIN, q_data = data \<rparr>"
  have q: "queued_piece irs S q n"
    using p by (simp add: queued_piece_def q_def piece_def has_and_self)
  obtain ns where ns: "queue_ok irs S (rx_queue c) ns" "\<forall>m \<in> set ns. ?k < m \<and> m < ?k + 2 ^ 19"
    and ack: "rcv_ack c = irs + 1 + of_nat ?k"
    using at by (auto simp: rx_at_def Let_def)
  have loop: "rx_loop irs S c"
    using ns ack pre unfolding rx_loop_def rx_at_def Let_def by fastforce
  show ?thesis
  proof (cases "tcp_cmp seq (rcv_ack c + rcv_win c) \<ge> 0 \<or> tcp_cmp (seq + of_nat (length data + f)) (rcv_ack c) < 0
      \<or> \<not> has (tcp_state c) (TCP_STATE_RCVD TCP_SYN) \<or> (of_nat (length data + f) :: u32) = 0")
    case True
    then have "tcp_rx_enqueue seq fl data c = c"
      unfolding tcp_rx_enqueue_def Let_def f_def [symmetric] by auto
    with loop show ?thesis by simp
  next
    case False
    let ?w = "unat (rcv_win c)"
    have w: "?w \<le> 2 ^ 18" using win by (simp add: TCP_MAX_WINDOW_SIZE_def word_le_nat_alt)
    have seq: "seq = irs + 1 + of_nat n" "length data < 2 ^ 16" using p by (auto simp: piece_def)
    have a: "rcv_ack c + rcv_win c = irs + 1 + of_nat (?k + ?w)" by (simp add: ack add.assoc)
    have "tcp_cmp seq (rcv_ack c + rcv_win c) = int n - int (?k + ?w)"
      unfolding a seq(1) by (rule tcp_cmp_offsets) (use near w in auto)
    moreover have "\<not> tcp_cmp seq (rcv_ack c + rcv_win c) \<ge> 0" using False by blast
    ultimately have hi: "n < ?k + ?w" by linarith
    have b: "seq + of_nat (length data + f) = irs + 1 + of_nat (n + length data + f)" by (simp add: seq(1) add.assoc)
    have "tcp_cmp (seq + of_nat (length data + f)) (rcv_ack c) = int (n + length data + f) - int ?k"
      unfolding b ack by (rule tcp_cmp_offsets) (use near seq(2) in \<open>auto simp: f_def\<close>)
    moreover have "\<not> tcp_cmp (seq + of_nat (length data + f)) (rcv_ack c) < 0" using False by blast
    ultimately have lo: "?k \<le> n + length data + f" by linarith
    have range: "\<forall>m \<in> insert n (set ns). ?k < m + 2 ^ 17 \<and> m < ?k + 2 ^ 19"
      using ns(2) hi lo w seq(2) by (auto simp: f_def split: if_splits)
    obtain ms where "queue_ok irs S (rx_insert q (rx_queue c)) ms" "set ms = insert n (set ns)"
      using rx_insert_ok [OF ns(1) q range] by blast
    moreover have "rx_queue (tcp_rx_enqueue seq fl data c) = rx_insert q (rx_queue c)"
      using False unfolding tcp_rx_enqueue_def Let_def f_def [symmetric] q_def by auto
    ultimately have "rx_at irs S (2 ^ 17) (tcp_rx_enqueue seq fl data c)"
      using range ack unfolding rx_at_def Let_def by (intro conjI exI [of _ ms]) simp_all
    with pre show ?thesis by (simp add: rx_loop_def)
  qed
qed

section \<open>The whole segment\<close>

definition win_ok :: "tcp_connection \<Rightarrow> bool" where
  "win_ok c \<longleftrightarrow> rcv_win c \<le> TCP_MAX_WINDOW_SIZE"

lemma win_ok_frame: "rx_frame c c' \<Longrightarrow> win_ok c \<Longrightarrow> win_ok c'"
  by (simp add: rx_frame_def win_ok_def)

lemma win_ok_rx_seq: "win_ok c \<Longrightarrow> win_ok (tcp_rx_seq n c)"
  unfolding win_ok_def tcp_rx_seq_def Let_def
  by simp (meson order.trans word_sub_le less_imp_le)

lemma win_ok_rx_data: "win_ok c \<Longrightarrow> win_ok (tcp_rx_data env seq data c)"
proof -
  have "win_ok (deliver_data env d c)" if "win_ok c" for d c
    using win_ok_frame [OF rx_frame_deliver_data] that by (simp add: win_ok_def)
  then show "win_ok c \<Longrightarrow> win_ok (tcp_rx_data env seq data c)"
    by (simp add: tcp_rx_data_def Let_def win_ok_rx_seq)
qed

lemma win_ok_rx_fin:
  assumes "win_ok c"
  shows "win_ok (tcp_rx_fin env seq c)"
proof -
  have "win_ok (tcp_close env None d)" if "win_ok d" for d
    using that win_ok_frame rx_frame_close by blast
  moreover have "win_ok (d \<lparr> tcp_state := st \<rparr>) \<longleftrightarrow> win_ok d" for d st by (simp add: win_ok_def)
  ultimately show ?thesis
    using assms win_ok_rx_seq by (simp add: tcp_rx_fin_def Let_def)
qed

lemma win_ok_process: "win_ok c \<Longrightarrow> win_ok (tcp_process_rx_queue env c)"
proof (induction env c rule: tcp_process_rx_queue.induct)
  case (1 env c)
  have "win_ok (process_queued env q (c \<lparr> rx_queue := qs \<rparr>))" for q qs
    using "1.prems" win_ok_rx_data [of "c \<lparr> rx_queue := qs \<rparr>"] win_ok_rx_fin
    by (simp add: process_queued_def Let_def) (simp add: win_ok_def)
  then show ?case
    using 1 by (simp add: tcp_process_rx_queue.simps [of env c] split: list.split)
qed

lemma rx_invI:
  assumes "prefix (delivered c) S" "win_ok c" "rsyn c" "closed c \<or> rx_at irs S 0 c"
  shows "rx_inv irs S c"
  using assms unfolding rx_inv_def win_ok_def by (metis (full_types))

lemma rx_inv_process:
  assumes inv: "rx_inv irs S c" and ci: "conn_inv c" and link: "linked c"
    and p: "piece irs S seq fl data n"
    and near: "n < length (delivered c) + 2 ^ 30" "length (delivered c) < n + 2 ^ 30"
  shows "rx_inv irs S (tcp_process_rx_queue env (tcp_rx_enqueue seq fl data c))"
proof -
  let ?a = "tcp_rx_enqueue seq fl data c"
  define b where "b = tcp_process_rx_queue env ?a"
  have "rx_inv irs S b"
  proof (cases "rsyn c")
    case True
    have k: "keeps ?a b" using keeps_process_rx_queue inv_rx_enqueue ci link by (simp add: b_def)
    have "rx_loop irs S ?a"
    proof (cases "closed c")
      case True
      then show ?thesis using inv by (simp add: rx_loop_def rx_inv_def)
    next
      case False
      then show ?thesis
        using inv True by (intro rx_loop_enqueue [OF _ _ _ p near]) (simp_all add: rx_inv_def)
    qed
    then have "prefix (delivered b) S" "closed b \<or> rx_at irs S 0 b" unfolding b_def using rx_loop_process by blast+
    moreover have "win_ok b" using inv unfolding b_def by (intro win_ok_process) (simp add: win_ok_def rx_inv_def)
    moreover have "rsyn b"
    proof -
      have "linked ?a" "rsyn ?a" using True link by simp_all
      with k show ?thesis by (simp only: keeps_def)
    qed
    ultimately show ?thesis using rx_invI by blast
  next
    case False
    then have a: "?a = c" by (simp add: tcp_rx_enqueue_def Let_def)
    have q: "rx_queue c = []" using False ci unfolding conn_inv_def conn_inv0_def by blast
    have "b = c" unfolding b_def a by (subst tcp_process_rx_queue.simps) (simp add: q)
    with inv show ?thesis by simp
  qed
  then show ?thesis by (simp add: b_def)
qed

lemma rx_inv_keeps:
  assumes "rx_inv irs S c" "rx_frame c c'" "keeps c c'" "linked c \<or> closed c"
  shows "rx_inv irs S c'"
  by (rule rx_inv_frame [OF assms(1,2)]) (use assms(2-4) in \<open>auto simp: keeps_def rx_frame_def\<close>)

lemma rx_content_inv:
  assumes inv: "rx_inv irs S c" and ci: "conn_inv c" and link: "linked c"
    and p: "piece irs S seq fl data n"
    and near: "n < length (delivered c) + 2 ^ 30" "length (delivered c) < n + 2 ^ 30"
  shows "rx_inv irs S (rx_content env seq fl data w c)"
proof -
  let ?a = "tcp_rx_enqueue seq fl data c"
  define b where "b = tcp_process_rx_queue env ?a"
  define d where "d = (if rx_queue b = [] then b \<lparr> process := True \<rparr> else tcp_xmit_sack env seq b)"
  define e where "e = (if TCP_CLOSED_GRACEFULLY (tcp_state d)
      then d \<lparr> wait_timer := start_timer_fixed (now env) (2 * TCP_MSL) (stop_timer (now env) (wait_timer d)) \<rparr> else d)"
  have rb: "rx_inv irs S b" unfolding b_def by (rule rx_inv_process [OF assms])
  have cb: "conn_inv b"
    using keeps_process_rx_queue [OF inv_rx_enqueue [OF ci], of seq fl data env] link by (simp add: keeps_def b_def)
  have lc: "linked x \<or> closed x" if "conn_inv x" for x using that by (auto simp: conn_inv_def conn_inv0_def)
  have bd: "rx_frame b d" "keeps b d"
    using cb keeps_xmit [OF cb] by (auto simp: d_def rx_frame_xmit xmit_frame_xmit_sack keeps_def
      intro: rx_frame_same inv_irrelevant [OF cb])
  have rd: "rx_inv irs S d" "conn_inv d"
    using rx_inv_keeps [OF rb bd lc [OF cb]] bd(2) by (simp_all add: keeps_def)
  have de: "rx_frame d e" "keeps d e"
    using rd(2) by (auto simp: e_def keeps_def rx_frame_refl intro: rx_frame_same inv_irrelevant [OF rd(2)])
  have re: "rx_inv irs S e" "conn_inv e"
    using rx_inv_keeps [OF rd(1) de lc [OF rd(2)]] de(2) by (simp_all add: keeps_def)
  have "rx_frame e (notify_window env w e)" "keeps e (notify_window env w e)"
    using rx_frame_run_app keeps_run_app [OF re(2)] keeps_refl [OF re(2)] by (auto simp: notify_window_def)
  then have "rx_inv irs S (notify_window env w e)" using rx_inv_keeps [OF re(1)] lc [OF re(2)] by blast
  then show ?thesis
    unfolding rx_content_def Let_def b_def [symmetric] unfolding d_def [symmetric] unfolding e_def [symmetric] .
qed

text \<open>The SYN of the peer sets the receiver to offset 0; a repeated SYN changes nothing of the stream.\<close>

lemma rx_syn_fields [simp]:
  "events (tcp_rx_syn seq opts c) = events c" "linked (tcp_rx_syn seq opts c) = linked c"
  "rx_queue (tcp_rx_syn seq opts c) = rx_queue c"
  by (simp_all add: tcp_rx_syn_def Let_def tcp_rx_seq_def)

lemma closed_or_bits: "has (fl OR 2) 1 \<longleftrightarrow> has fl 1" "has (fl OR 8) 1 \<longleftrightarrow> has fl 1" "has (fl OR 10) 1 \<longleftrightarrow> has fl 1"
  unfolding has_or by (simp_all add: has_def)

lemma rx_syn_inv:
  assumes inv: "rx_inv irs S c" and ci: "conn_inv c" and far: "length (delivered c) < 2 ^ 30"
  shows "rx_inv irs S (tcp_rx_syn irs opts c)"
proof (cases "rsyn c")
  case True
  show ?thesis
  proof (cases "irs = rcv_ack c")
    case False
    then have "tcp_rx_syn irs opts c = c" using True by (simp add: tcp_rx_syn_def)
    with inv show ?thesis by simp
  next
    case eq: True
    have "closed c"
    proof (rule ccontr)
      assume "\<not> closed c"
      then have "rcv_ack c = irs + of_nat (Suc (length (delivered c)))"
        using inv True by (simp add: rx_inv_def rx_at_def Let_def)
      then have "(of_nat (Suc (length (delivered c))) :: u32) = 0" using eq by simp
      then have "unat (of_nat (Suc (length (delivered c))) :: u32) = 0" by (simp only: unat_0)
      then show False using far by (simp add: unat_of_nat del: of_nat_Suc)
    qed
    moreover have "tcp_rx_syn irs opts c = (tcp_rx_seq 1 c) \<lparr> tcp_state := tcp_state (tcp_rx_seq 1 c) OR 0x20010 \<rparr>"
      using True eq by (simp add: tcp_rx_syn_def Let_def)
    moreover have "win_ok (tcp_rx_seq 1 c)" using inv by (intro win_ok_rx_seq) (simp add: win_ok_def rx_inv_def)
    ultimately show ?thesis using inv by (simp add: rx_inv_def win_ok_def delivered_def)
  qed
next
  case False
  define d where "d = c \<lparr> rcv_ack := irs,
               conn_flags := conn_flags c OR (if tsopt opts \<noteq> None then TCP_TS_ENABLED else 0)
                          OR (if spopt opts then TCP_SACK_ENABLED else 0),
               snd_win_scale := (case wsopt opts of Some scale \<Rightarrow> scale | None \<Rightarrow> snd_win_scale c),
               rcv_win_scale := (case wsopt opts of Some _ \<Rightarrow> TCP_RX_WINDOW_SCALE | None \<Rightarrow> rcv_win_scale c) \<rparr>"
  define e where "e = tcp_rx_seq 1 d"
  have rd: "rcv_ack d = irs" by (simp add: d_def)
  have t: "tcp_rx_syn irs opts c = e \<lparr> tcp_state := tcp_state e OR 0x20010 \<rparr>"
    using False unfolding tcp_rx_syn_def Let_def d_def [symmetric] by (simp add: rd e_def)
  have q: "rx_queue c = []" using False ci unfolding conn_inv_def conn_inv0_def by blast
  have d: "closed d \<longleftrightarrow> closed c" "delivered d = delivered c" "rcv_ack d = irs" "rx_queue d = []" "win_ok d"
    using inv q unfolding win_ok_def rx_inv_def delivered_def
    by (simp_all add: d_def closed_or_bits TCP_TS_ENABLED_def TCP_SACK_ENABLED_def)
  have e: "closed e \<longleftrightarrow> closed c" "delivered e = delivered c" "rcv_ack e = irs + 1" "rx_queue e = []" "win_ok e"
    using d win_ok_rx_seq [OF d(5)] by (simp_all add: e_def)
  have "closed c \<or> delivered c = []" using inv False by (auto simp: rx_inv_def)
  then show ?thesis
  proof -
    define f where "f = e \<lparr> tcp_state := tcp_state e OR 0x20010 \<rparr>"
    have f: "closed f \<longleftrightarrow> closed c" "delivered f = delivered c" "rcv_ack f = irs + 1" "rx_queue f = []" "win_ok f" "rsyn f"
      using e by (simp_all add: f_def win_ok_def delivered_def has_or) (simp add: has_def)
    have "rx_at irs S 0 f" if "delivered c = []"
      unfolding rx_at_def Let_def f that by (simp add: queue_ok_def)
    moreover have "prefix (delivered f) S" using inv by (simp add: f rx_inv_def)
    moreover assume "closed c \<or> delivered c = []"
    ultimately have "rx_inv irs S f" using f by (intro rx_invI) auto
    then show ?thesis by (simp add: t f_def)
  qed
qed

lemma rx_frame_rst: "rx_frame c (fst (tcp_rx_rst env seq c))"
proof -
  have "rx_frame c (c \<lparr> tcp_state := TCP_CLOSED \<rparr>)" by (rule rx_frame_same) (simp_all add: has_def)
  then show ?thesis using rx_frame_trans [OF _ rx_frame_close] by (auto simp: tcp_rx_rst_def)
qed

lemma closed_rst: "snd (tcp_rx_rst env seq c) \<noteq> None \<Longrightarrow> closed (fst (tcp_rx_rst env seq c))"
  by (simp add: tcp_rx_rst_def split: if_splits)

lemma rx_flags_inv:
  assumes inv: "rx_inv irs S c" and ci: "conn_inv c" and link: "linked c"
    and syn: "has fl TCP_SYN \<Longrightarrow> seq = irs \<and> n = 0"
    and p: "piece irs S (if has fl TCP_SYN then seq + 1 else seq) fl data n"
    and near: "n < length (delivered c) + 2 ^ 30" "length (delivered c) < n + 2 ^ 30"
  shows "rx_inv irs S (fst (rx_flags env seq fl opts data w c))"
proof -
  define a where "a = (if has (tcp_state c) (TCP_STATE_RCVD TCP_SYN) \<and> seq \<noteq> rcv_ack c
               then c \<lparr> conn_flags := conn_flags c OR TCP_ACK_PENDING \<rparr> else c)"
  define b where "b = (if has fl TCP_SYN then tcp_rx_syn seq opts a else a)"
  define seq' where "seq' = (if has fl TCP_SYN then seq + 1 else seq)"
  define r where "r = (if has fl TCP_RST then tcp_rx_rst env seq' b else (b, None))"
  have a: "conn_inv a" "linked a"
    using ci link by (auto intro: inv_irrelevant [OF ci] simp: a_def closed_or_pending)
  have af: "events a = events c" by (simp add: a_def)
  then have da: "delivered a = delivered c" by (simp add: delivered_def)
  have "rx_frame c a" "rsyn c \<Longrightarrow> rsyn a"
    by (auto simp: a_def rx_frame_def delivered_def closed_or_pending intro: exI [of _ "length (rx_queue c)"])
  then have ia: "rx_inv irs S a" using rx_inv_frame [OF inv] by blast
  have ib: "rx_inv irs S b" using rx_syn_inv [OF ia a(1)] syn near ia by (auto simp: b_def da)
  have cb: "conn_inv b" "linked b" using a inv_rx_syn by (simp_all add: b_def)
  have db: "delivered b = delivered c" using da by (simp add: b_def delivered_def)
  have "rx_inv irs S (fst r)"
    using ib rx_inv_frame [OF ib rx_frame_rst] closed_rst rx_rst_linked unfolding r_def by (metis fst_conv)
  moreover have "snd r = None \<Longrightarrow> fst r = b" using rx_rst_linked by (auto simp: r_def)
  moreover have "rx_inv irs S (rx_content env seq' fl data w b)"
    by (rule rx_content_inv [OF ib cb p [folded seq'_def]]) (use near db in simp_all)
  moreover have "rx_flags env seq fl opts data w c =
      (if snd r \<noteq> None then (fst r, snd r) else (rx_content env seq' fl data w (fst r), None))"
    unfolding rx_flags_def Let_def a_def [symmetric] unfolding b_def [symmetric] unfolding seq'_def [symmetric]
    unfolding r_def [symmetric] case_prod_beta ..
  ultimately show ?thesis by auto
qed

lemma rsyn_rx_ack: "rsyn (fst (tcp_rx_ack env ack win c)) \<longleftrightarrow> rsyn c"
  using rx_ack_rsyn(1) [of env ack win c] by (simp only: tcp_nums)

lemma rx_segment_inv:
  assumes inv: "rx_inv irs S c" and ci: "conn_inv c" and link: "linked c" and h: "honest irs S c pkt hlen"
  shows "rx_inv irs S (fst (tcp_rx_segment env pkt hlen opts c))"
proof -
  let ?fl = "ucast (pkt ! 13) :: u32" and ?seq = "ntohl (drop 4 pkt)"
  obtain n where h': "(has ?fl TCP_SYN \<longrightarrow> ?seq = irs \<and> n = 0)
    \<and> piece irs S (if has ?fl TCP_SYN then ?seq + 1 else ?seq) ?fl (drop hlen pkt) n
    \<and> n < length (delivered c) + 2 ^ 30 \<and> length (delivered c) < n + 2 ^ 30"
    using h unfolding honest_def Let_def by (elim exE)
  note n = h' [THEN conjunct1, THEN mp] h' [THEN conjunct2, THEN conjunct1]
    h' [THEN conjunct2, THEN conjunct2, THEN conjunct1] h' [THEN conjunct2, THEN conjunct2, THEN conjunct2]
  define a where "a = (case tsopt opts of Some tsval \<Rightarrow> c \<lparr> ts_val := tsval \<rparr> | None \<Rightarrow> c)"
  have a: "conn_inv a" "linked a"
    using ci link by (auto intro: inv_irrelevant [OF ci] simp: a_def split: option.splits)
  have "rx_frame c a" "tcp_state a = tcp_state c"
    by (auto simp: a_def intro: rx_frame_same split: option.split)
  then have ia: "rx_inv irs S a" "delivered a = delivered c"
    using rx_inv_frame [OF inv, of a] by (auto simp: rx_frame_def)
  have ack: "conn_inv (fst (tcp_rx_ack env k w a))" "linked (fst (tcp_rx_ack env k w a))" for k w
    using inv_rx_ack [OF a] a by simp_all
  have fr: "rx_frame a (fst (tcp_rx_ack env k w a))" for k w by (rule rx_frame_same) (simp_all only: rx_ack_rsyn rx_ack_fields)
  have iack: "rx_inv irs S (fst (tcp_rx_ack env k w a))" for k w
    by (rule rx_inv_frame [OF ia(1) fr]) (simp only: rsyn_rx_ack)
  have x: "rx_inv irs S (tcp_xmit_reset env pkt b)" if "rx_inv irs S b" for b
  proof -
    have "rx_frame b (tcp_xmit_reset env pkt b)" "tcp_state (tcp_xmit_reset env pkt b) = tcp_state b"
      by (auto simp: tcp_xmit_reset_def Let_def rx_frame_def delivered_def split: prod.split)
    then show ?thesis using rx_inv_frame [OF that] by simp
  qed
  have dack: "delivered (fst (tcp_rx_ack env k w a)) = delivered c" for k w
    using ia(2) by (simp add: delivered_def)
  have flags: "rx_inv irs S (fst (rx_flags env ?seq ?fl opts (drop hlen pkt) w b))"
    if "rx_inv irs S b" "conn_inv b" "linked b" "delivered b = delivered c" for w b
    by (rule rx_flags_inv [OF that(1-3) n(1,2)]) (use n(3,4) that(4) in simp_all)
  show ?thesis
    unfolding tcp_rx_segment_def Let_def a_def [symmetric] case_prod_beta
    using x [OF iack] x [OF ia(1)] flags [OF iack ack dack] flags [OF ia(1) a ia(2)] by simp
qed

lemma closed_abort: "closed (tcp_close env rc (c \<lparr> tcp_state := TCP_CLOSED \<rparr>))"
  by simp

lemma xmit_state [simp]: "tcp_state (tcp_xmit env c) = tcp_state c"
  using xmit_frame_xmit_sack [of c env] by (simp add: tcp_xmit_def xmit_frame_def)

lemma internal_frame:
  "tcp_internal c c' \<Longrightarrow> conn_inv c \<Longrightarrow> rx_frame c c' \<and> (rsyn c \<longrightarrow> closed c' \<or> rsyn c')"
proof (induction rule: tcp_internal.induct)
  case (int_timer c t over env)
  let ?d = "c \<lparr> timer := t \<rparr>"
  have 1: "rx_frame c ?d" by (rule rx_frame_same) simp_all
  have 2: "rx_frame ?d (?d \<lparr> tcp_state := TCP_CLOSED \<rparr>)" by (rule rx_frame_same) (simp_all add: has_def)
  show ?case
    using rx_frame_trans [OF 1 rx_frame_app(1)] rx_frame_trans [OF rx_frame_trans [OF 1 2] rx_frame_close]
    by (simp add: tcp_expired_def)
next
  case (int_keepalive c t over env)
  let ?d = "c \<lparr> keepalive := start_timer_fixed (now env) TCP_KEEPALIVE_DELAY t, conn_flags := conn_flags c OR TCP_ACK_PENDING \<rparr>"
  have 1: "rx_frame c ?d"
    by (auto simp: rx_frame_def delivered_def closed_or_pending intro: exI [of _ "length (rx_queue c)"])
  show ?case
    using rx_frame_trans [OF 1 rx_frame_app(1)] by (simp add: tcp_keepalive_expired_def)
next
  case (int_wait c t over env)
  let ?d = "c \<lparr> wait_timer := t, tcp_state := TCP_CLOSED \<rparr>"
  have "rx_frame c ?d" by (rule rx_frame_same) (simp_all add: has_def)
  then show ?case
    using rx_frame_trans [OF _ rx_frame_close] by (simp add: tcp_wait_expired_def)
next
  case (int_process c env)
  have "rx_frame c (c \<lparr> process := False \<rparr>)" by (rule rx_frame_same) simp_all
  then show ?case
    using rx_frame_trans [OF _ rx_frame_app(1)] by simp
next
  case (int_app c env calls)
  then show ?case using rx_frame_run_app keeps_run_app by (simp add: keeps_def)
next
  case (int_discard c)
  then show ?case
    by (auto simp: rx_frame_def delivered_def butlast_conv_take)
qed

lemma rx_history_inv:
  assumes "rx_history irs S c"
  shows "conn_inv c \<and> rx_inv irs S c"
  using assms
proof (induction rule: rx_history.induct)
  case (rx_open env' env seq st_peer mtu port)
  let ?n = "new_connection env seq st_peer mtu port"
  define d where "d = ?n \<lparr> timer := fst (timer_expired (timer ?n)) \<rparr>"
  have e: "first_xmit env' ?n = tcp_xmit_sack env' (rcv_ack d) d"
    by (simp add: first_xmit_def tcp_expired_def tcp_xmit_def d_def)
  have i: "rx_inv irs S d"
    by (simp add: d_def rx_inv_def delivered_def has_def)
  have n: "\<not> rsyn d" by (simp add: d_def has_def)
  have "rx_inv irs S (first_xmit env' ?n)"
    unfolding e by (rule rx_inv_frame [OF i rx_frame_xmit [OF xmit_frame_xmit_sack]]) (erule notE [OF n])
  then show ?case using inv_first_xmit by blast
next
  case (rx_segment c pkt hlen env opts)
  then show ?case using inv_rx_segment rx_segment_inv by blast
next
  case (rx_internal c c')
  then show ?case
    using inv_internal internal_frame rx_inv_frame by blast
qed

lemma rx_at_waiting:
  assumes "rx_at irs S 0 c" "q \<in> set (rx_queue c)"
  shows "tcp_cmp (q_seq q) (rcv_ack c) > 0"
proof -
  let ?k = "length (delivered c)"
  obtain ns where ns: "list_all2 (queued_piece irs S) (rx_queue c) ns" "\<forall>n \<in> set ns. ?k < n \<and> n < ?k + 2 ^ 19"
    and ack: "rcv_ack c = irs + 1 + of_nat ?k"
    using assms(1) by (auto simp: rx_at_def Let_def queue_ok_def)
  obtain n where n: "n \<in> set ns" "queued_piece irs S q n"
    using list_all2_nthD [OF ns(1)] list_all2_lengthD [OF ns(1)] assms(2) by (metis in_set_conv_nth)
  have "tcp_cmp (irs + 1 + of_nat n) (irs + 1 + of_nat ?k) = int n - int ?k"
    by (rule tcp_cmp_offsets) (use ns(2) n(1) in auto)
  with n ns(2) ack show ?thesis by (auto simp: queued_piece_def piece_def)
qed

text \<open>
  C1: Let the peer send a stream of bytes from its initial sequence number, cut
  into segments in any way, and let the network lose, repeat, delay and reorder
  them (by less than 2^30 bytes), in any interleaving with timers, the cache
  discarder and the application.  Then the bytes handed to the application are a
  prefix of the peer's stream; while the connection is open and the peer's SYN
  has arrived, the acknowledgement number names exactly the next byte after
  that prefix; and every queued packet lies beyond it, so no data that could be
  delivered waits in the queue.
\<close>

theorem tcp_receives_prefix:
  assumes "rx_history irs S c"
  shows "prefix (delivered c) S
    \<and> (\<not> has (conn_flags c) TCP_XFER_CLOSED \<and> has (tcp_state c) (TCP_STATE_RCVD TCP_SYN) \<longrightarrow>
        rcv_ack c = irs + 1 + of_nat (length (delivered c))
        \<and> (\<forall>q \<in> set (rx_queue c). tcp_cmp (q_seq q) (rcv_ack c) > 0))"
proof -
  have i: "rx_inv irs S c" using rx_history_inv [OF assms] by blast
  have "rx_at irs S 0 c" if "\<not> closed c" "rsyn c" using i that by (simp add: rx_inv_def)
  with i rx_at_waiting [of irs S c] show ?thesis
    by (auto simp: rx_inv_def) (simp add: rx_at_def Let_def)
qed

text \<open>A peer that opens the connection and then sends two bytes.\<close>

lemma rcv_win_xmit_send: "rcv_win (xmit_send env q n c) = rcv_win (expand_rcv_win (xfer_window env c) c)"
  by (simp add: xmit_send_def Let_def case_prod_beta)

lemma fresh_rcv_win [simp]: "rcv_win fresh = 0xfffc"
proof -
  let ?n = "new_connection quiet_env 1000 no_peer 1480 2048"
  define c where "c = ?n \<lparr> timer := fst (timer_expired (timer ?n)) \<rparr>"
  have e: "fresh = tcp_xmit_sack quiet_env (rcv_ack c) c"
    by (simp add: fresh_def first_xmit_def tcp_expired_def tcp_xmit_def c_def)
  have c: "conn_flags c = 0" "rcv_win c = 0" "rcv_win_scale c = 0" "\<not> timer_running (timer c)" "xmit_seq_len c = 1"
    by (simp_all add: c_def timer_running_def xmit_seq_len_def xmit_len_def can_send_nums sending_nums has_def)
      (simp_all add: new_connection_def)
  show ?thesis
    unfolding e using c
    by (simp add: tcp_xmit_sack_def Let_def rcv_win_xmit_send quiet_env_def expand_rcv_win_def xfer_window_def has_def
        TCP_MAX_WINDOW_SIZE_def)
qed

lemma fresh_delivered [simp]: "delivered fresh = []"
proof -
  let ?n = "new_connection quiet_env 1000 no_peer 1480 2048"
  define c where "c = ?n \<lparr> timer := fst (timer_expired (timer ?n)) \<rparr>"
  have "rx_frame c (tcp_xmit quiet_env c)" by (rule rx_frame_app)
  moreover have "fresh = tcp_xmit quiet_env c" by (simp add: fresh_def first_xmit_def tcp_expired_def c_def)
  ultimately show ?thesis by (simp add: rx_frame_def) (simp add: c_def delivered_def)
qed

lemma bare_segment_data [simp]:
  "length (bare_segment s a f w) = 20" "ntohl (drop 4 (bare_segment s a f w) @ d) = s"
  "(bare_segment s a f w @ d) ! 13 = f"
  by (simp_all add: bare_segment_def tcp_header_def store_csum_def nth_append)

lemma rx_bare_data:
  assumes "tcp_state c = 0x20012" "tx_queue c = []" "rx_queue c = []" "rcv_ack c = 5001" "rcv_win c = 0xfffb"
    "\<not> closed c"
  shows "delivered (fst (tcp_rx_segment quiet_env (bare_segment 5001 0 0 8192 @ [104, 105]) 20 no_options c))
    = delivered c @ [104, 105]"
proof -
  have h: "\<not> has 0 m" "has 0x20012 0x20000" for m by (simp_all add: has_def)
  have "delivered (rx_content quiet_env 5001 0 [104, 105] 0 c) = delivered c @ [104, 105]"
    using assms
    by (simp add: rx_content_def Let_def tcp_rx_enqueue_def tcp_process_rx_queue.simps notify_window_def
        tcp_xfer_window_def tcp_xmit_win_def can_send_nums TCP_CLOSED_GRACEFULLY_def process_queued_def tcp_rx_data_def
        deliver_data_def delivered_def h tcp_cmp_def quiet_env_def)
  then show ?thesis
    using assms by (simp add: tcp_rx_segment_def rx_flags_def Let_def no_options_def h
       tcp_xfer_window_def tcp_xmit_win_def can_send_nums)
qed

definition greeted :: tcp_connection where
  "greeted = fst (tcp_rx_segment quiet_env (bare_segment 5001 0 0 8192 @ [104, 105]) 20 no_options
     (fst (tcp_rx_segment quiet_env (bare_segment 5000 0 2 8192) 20 no_options fresh)))"

theorem tcp_receives_prefix_witness: "prefix (delivered greeted) [104, 105, 106] \<and> delivered greeted = [104, 105]"
proof -
  define c where "c = fst (tcp_rx_segment quiet_env (bare_segment 5000 0 2 8192) 20 no_options fresh)"
  have h0: "rx_history 5000 [104, 105, 106] fresh" unfolding fresh_def by (rule rx_open)
  have h1: "rx_history 5000 [104, 105, 106] c"
    unfolding c_def by (rule rx_segment [OF h0]) (simp_all add: honest_def piece_def has_def)
  have c: "tcp_state c = 0x20012" "tx_queue c = []" "linked c" "conn_flags c = 4" "rcv_ack c = 5001" "rx_queue c = []"
      "rcv_win c = 0xfffb" "events c = events fresh"
    using rx_bare_syn [OF _ _ _ c_def] by simp_all
  have d: "delivered c = []" using c(8) fresh_delivered by (simp add: delivered_def)
  have "honest 5000 [104, 105, 106] c (bare_segment 5001 0 0 8192 @ [104, 105]) 20"
    unfolding honest_def Let_def by (rule exI [of _ 0]) (simp add: piece_def has_def d)
  then have "rx_history 5000 [104, 105, 106] greeted"
    unfolding greeted_def c_def [symmetric] by (rule rx_segment [OF h1 c(3)])
  from tcp_receives_prefix [OF this] rx_bare_data [of c] c d show ?thesis
    by (simp add: greeted_def c_def [symmetric] has_def)
qed

end
