(* ===== verification/Tcp_Send.thy ===== *)
theory Tcp_Send
  imports Tcp_State
begin

text \<open>
  The sending side of a TCP connection: every segment handed to the network
  carries the bytes of the application's stream that belong to its sequence
  number, nothing leaves the queue before it is acknowledged, and a connection
  with something to send always has a timer or a process that will send it.
  The locale \<open>tcp_invariant\<close> lifts an invariant of the basic operations to
  whole histories.
\<close>

section \<open>Invariants of the basic operations hold along histories\<close>

text \<open>What the receive path changes besides acknowledgements and closing.\<close>

definition tx_same :: "tcp_connection \<Rightarrow> tcp_connection \<Rightarrow> bool" where
  "tx_same c c' \<longleftrightarrow> tx_queue c' = tx_queue c \<and> snd_seq c' = snd_seq c \<and> snd_sent c' = snd_sent c
     \<and> (tcp_state c' = tcp_state c \<or> tcp_state c' = tcp_state c OR 0x20010 \<or> tcp_state c' = tcp_state c OR 0x10000)
     \<and> linked c' = linked c \<and> (closed c' \<longleftrightarrow> closed c)
     \<and> (events c' = events c \<or> (\<exists>d. events c' = events c @ [Deliver d]))"

locale tcp_invariant =
  fixes I :: "tcp_connection \<Rightarrow> bool"
  assumes xmit: "conn_inv c \<Longrightarrow> I c \<Longrightarrow> I (tcp_xmit_sack env q c)"
    and close: "conn_inv' c \<Longrightarrow> linked c \<Longrightarrow> I c \<Longrightarrow> I (tcp_close env rc c)"
    and abort: "conn_inv' c \<Longrightarrow> I c \<Longrightarrow> I (tcp_close env rc (c \<lparr> tcp_state := TCP_CLOSED \<rparr>))"
    and ack: "conn_inv c \<Longrightarrow> linked c \<Longrightarrow> I c \<Longrightarrow> I (fst (tcp_rx_ack env k w c))"
    and accept: "conn_inv c \<Longrightarrow> linked c \<Longrightarrow> \<not> closed c \<Longrightarrow> I c \<Longrightarrow>
      I (c \<lparr> tx_queue := tx_queue c @ [d], pending_data := pending_get (pending_data c), events := events c @ [Accept d] \<rparr>)"
    and reset: "I c \<Longrightarrow> I (tcp_xmit_reset env pkt c)"
    and same: "conn_inv c \<Longrightarrow> I c \<Longrightarrow> tx_same c c' \<Longrightarrow> I c'"
begin

definition kept :: "tcp_connection \<Rightarrow> tcp_connection \<Rightarrow> bool" where
  "kept c c' \<longleftrightarrow> keeps c c' \<and> (I c \<longrightarrow> I c')"

lemma kept_trans: "kept a b \<Longrightarrow> kept b c \<Longrightarrow> kept a c"
  by (auto simp: kept_def intro: keeps_trans)

lemma kept_refl: "conn_inv c \<Longrightarrow> kept c c"
  by (simp add: kept_def keeps_refl)

lemma kept_inv: "kept c c' \<Longrightarrow> conn_inv c'"
  by (simp add: kept_def keeps_def)

lemma kept_xmit: "conn_inv c \<Longrightarrow> kept c (tcp_xmit_sack env q c)"
  by (simp add: kept_def keeps_xmit xmit)

lemma kept_close: "conn_inv c \<Longrightarrow> linked c \<Longrightarrow> kept c (tcp_close env rc c)"
  by (simp add: kept_def keeps_close close conn_inv_weaken)

lemma kept_same: "conn_inv c \<Longrightarrow> tx_same c c' \<Longrightarrow> keeps c c' \<Longrightarrow> kept c c'"
  using same by (auto simp: kept_def)

lemma kept_run_app: "conn_inv c \<Longrightarrow> kept c (run_app env calls c)"
proof (induction calls arbitrary: c)
  case (Cons call calls)
  show ?case
  proof (cases "closed c")
    case False
    then have l: "linked c" using Cons.prems unlinked_closed by blast
    let ?s = "case call of App_send iobuf \<Rightarrow> tcp_xfer_deliver env iobuf c
      | App_close rc \<Rightarrow> tcp_xfer_close env rc c"
    have s: "kept c ?s"
    proof (cases call)
      case (App_send d)
      let ?c = "c \<lparr> tx_queue := tx_queue c @ [d], pending_data := pending_get (pending_data c),
          events := events c @ [Accept d] \<rparr>"
      have i: "conn_inv ?c"
        using Cons.prems False l by (auto simp: conn_inv_def conn_inv0_def sending_def)
      then have "kept c ?c"
        using accept [OF Cons.prems l False] by (auto simp: kept_def keeps_def)
      from kept_trans [OF this kept_xmit [OF i]] App_send show ?thesis
        by (simp add: tcp_xfer_deliver_def tcp_xmit_def)
    next
      case (App_close rc)
      have k: "kept c (tcp_close env rc c)" by (rule kept_close [OF Cons.prems l])
      from kept_trans [OF k kept_xmit [OF kept_inv [OF k]]] App_close show ?thesis
        by (simp add: tcp_xfer_close_def tcp_xmit_def)
    qed
    from kept_trans [OF s Cons.IH [OF kept_inv [OF s]]] False show ?thesis by simp
  qed (simp add: Cons.prems kept_refl)
qed (simp add: kept_refl)

lemma kept_rx_seq:
  assumes "conn_inv c"
  shows "kept c (tcp_rx_seq n c)"
proof (rule kept_same [OF assms _ keeps_rx_seq [OF assms]])
  show "tx_same c (tcp_rx_seq n c)"
    by (simp add: tx_same_def tcp_rx_seq_def Let_def closed_or_pending)
qed

lemma kept_deliver_data:
  assumes "conn_inv c"
  shows "kept c (deliver_data env data c)"
proof -
  let ?c = "c \<lparr> events := events c @ [Deliver data] \<rparr>"
  have i: "conn_inv ?c" using assms by (simp add: conn_inv_def conn_inv0_def sending_def)
  have "kept c ?c" by (rule kept_same) (use assms i in \<open>auto simp: tx_same_def keeps_def\<close>)
  from kept_trans [OF this kept_run_app [OF i]] assms show ?thesis
    by (simp add: deliver_data_def kept_refl)
qed

lemma kept_rx_data: "conn_inv c \<Longrightarrow> kept c (tcp_rx_data env seq data c)"
  using kept_trans [OF kept_rx_seq kept_deliver_data [OF kept_inv [OF kept_rx_seq]]]
  by (simp add: tcp_rx_data_def Let_def kept_refl)

lemma kept_rx_fin:
  assumes "conn_inv c" "linked c" "rsyn c"
  shows "kept c (tcp_rx_fin env seq c)"
proof (cases "seq = rcv_ack c")
  case True
  define d where "d = tcp_rx_seq 1 c"
  have k: "kept c d" unfolding d_def by (rule kept_rx_seq [OF assms(1)])
  then have d: "conn_inv d" "linked d" "rsyn d"
    using assms(2,3) by (auto simp: kept_def keeps_def)
  define e where "e = d \<lparr> tcp_state := tcp_state d OR 0x10000 \<rparr>"
  have st: "tcp_state d \<in> {0x20012, 0x20212, 0x20213, 0x20313, 0x30213, 0x30313, 0x30212}"
    using d by (auto simp: conn_inv_def conn_inv0_def live_states_nums has_def)
  then have e: "conn_inv' e" "linked e"
    using d unfolding e_def conn_inv'_def conn_inv_def conn_inv0_def sending_def
    by (elim insertE emptyE, simp_all add: sending_nums live_states_nums has_def)
  have "I d \<Longrightarrow> I e" by (rule same [OF d(1)]) (simp_all add: e_def tx_same_def)
  with k e close have "I c \<longrightarrow> I (tcp_close env None e)" by (auto simp: kept_def)
  moreover have "tcp_rx_fin env seq c = tcp_close env None e"
    using True by (simp add: tcp_rx_fin_def Let_def e_def d_def)
  ultimately show ?thesis using keeps_rx_fin [OF assms, of env seq] by (simp add: kept_def)
qed (simp add: tcp_rx_fin_def kept_refl assms)

lemma kept_process_queued:
  assumes "conn_inv c" "linked c" "rsyn c"
  shows "kept c (process_queued env q c)"
proof -
  let ?d = "tcp_rx_data env (q_seq q) (q_data q) c"
  have k: "kept c ?d" by (rule kept_rx_data [OF assms(1)])
  then have "kept ?d (tcp_rx_fin env seq ?d)" for seq
    by (intro kept_rx_fin) (use assms in \<open>simp_all add: kept_def keeps_def\<close>)
  with k show ?thesis
    by (auto simp: process_queued_def Let_def intro: kept_trans)
qed

lemma tx_same_queue: "tx_same c (c \<lparr> rx_queue := qs \<rparr>)"
  by (simp add: tx_same_def)

lemma kept_process_rx_queue: "conn_inv c \<Longrightarrow> linked c \<Longrightarrow> kept c (tcp_process_rx_queue env c)"
proof (induction env c rule: tcp_process_rx_queue.induct)
  case (1 env c)
  show ?case
  proof (cases "rx_queue c = [] \<or> tcp_cmp (q_seq (hd (rx_queue c))) (rcv_ack c) > 0")
    case True
    then show ?thesis
      using 1 by (auto simp: tcp_process_rx_queue.simps [of env c] kept_refl split: list.splits)
  next
    case False
    then obtain q qs where q: "rx_queue c = q # qs" by (cases "rx_queue c") auto
    let ?c = "c \<lparr> rx_queue := qs \<rparr>"
    have r: "rsyn c" using 1 q by (auto simp: conn_inv_def conn_inv0_def)
    have i: "conn_inv ?c" "linked ?c" "rsyn ?c"
      using 1 r by (auto simp: conn_inv_def conn_inv0_def sending_def)
    have s: "kept c ?c" by (rule kept_same [OF "1.prems"(1) tx_same_queue]) (use i in \<open>simp add: keeps_def\<close>)
    have k: "kept ?c (process_queued env q ?c)" by (rule kept_process_queued [OF i])
    then have "kept (process_queued env q ?c) (tcp_process_rx_queue env (process_queued env q ?c))"
      using False q i by (intro "1.IH" [OF q]) (simp_all add: kept_def keeps_def)
    from kept_trans [OF s kept_trans [OF k this]] False q show ?thesis
      by (simp add: tcp_process_rx_queue.simps [of env c])
  qed
qed

lemma kept_enqueue: "conn_inv c \<Longrightarrow> kept c (tcp_rx_enqueue seq fl data c)"
  by (rule kept_same)
    (auto simp: tx_same_def tcp_rx_enqueue_def Let_def keeps_def conn_inv_def conn_inv0_def sending_def)

lemma kept_rx_content:
  assumes "conn_inv c" "linked c"
  shows "kept c (rx_content env seq fl data w c)"
proof -
  define a where "a = tcp_rx_enqueue seq fl data c"
  define b where "b = tcp_process_rx_queue env a"
  define d where "d = (if rx_queue b = [] then b \<lparr> process := True \<rparr> else tcp_xmit_sack env seq b)"
  define e where "e = (if TCP_CLOSED_GRACEFULLY (tcp_state d)
      then d \<lparr> wait_timer := start_timer_fixed (now env) (2 * TCP_MSL) (stop_timer (now env) (wait_timer d)) \<rparr> else d)"
  have a: "kept c a" "linked a"
    using kept_enqueue [OF assms(1)] assms(2) by (simp_all add: a_def tcp_rx_enqueue_def Let_def)
  then have b: "kept a b" unfolding b_def by (intro kept_process_rx_queue kept_inv)
  have "kept b (b \<lparr> process := True \<rparr>)"
    by (rule kept_same [OF kept_inv [OF b]])
      (use inv_irrelevant [OF kept_inv [OF b], of "b \<lparr> process := True \<rparr>"] in \<open>simp_all add: tx_same_def keeps_def\<close>)
  then have d: "kept b d" unfolding d_def using kept_xmit [OF kept_inv [OF b]] by auto
  have "kept d (d \<lparr> wait_timer := t \<rparr>)" for t
    by (rule kept_same [OF kept_inv [OF d]])
      (use inv_irrelevant [OF kept_inv [OF d], of "d \<lparr> wait_timer := t \<rparr>"] in \<open>simp_all add: tx_same_def keeps_def\<close>)
  then have e: "kept d e" unfolding e_def using kept_refl [OF kept_inv [OF d]] by auto
  have "kept e (notify_window env w e)"
    using kept_run_app [OF kept_inv [OF e]] kept_refl [OF kept_inv [OF e]] by (simp add: notify_window_def)
  from kept_trans [OF a(1) kept_trans [OF b kept_trans [OF d kept_trans [OF e this]]]]
  show ?thesis
    unfolding rx_content_def Let_def a_def [symmetric] unfolding b_def [symmetric]
    unfolding d_def [symmetric] unfolding e_def [symmetric] .
qed

lemma rx_syn_same: "tx_same c (tcp_rx_syn seq opts c)"
proof -
  have c1: "has (fl OR 10) 1 \<longleftrightarrow> has fl 1" "has (fl OR 2) 1 \<longleftrightarrow> has fl 1" "has (fl OR 8) 1 \<longleftrightarrow> has fl 1"
    "has (fl OR 4) 1 \<longleftrightarrow> has fl 1" for fl
    unfolding has_or by (simp_all add: has_def)
  have c2: "has ((fl OR a OR b) OR 4) 1 \<longleftrightarrow> has (fl OR a OR b) 1" for fl a b by (rule closed_or_pending)
  show ?thesis
    by (simp add: tx_same_def tcp_rx_syn_def tcp_rx_seq_def Let_def TCP_TS_ENABLED_def TCP_SACK_ENABLED_def c1 c2)
qed

lemma I_rx_flags:
  assumes "conn_inv c" "linked c" "I c"
  shows "I (fst (rx_flags env seq fl opts data w c))"
proof -
  define a where "a = (if has (tcp_state c) (TCP_STATE_RCVD TCP_SYN) \<and> seq \<noteq> rcv_ack c
               then c \<lparr> conn_flags := conn_flags c OR TCP_ACK_PENDING \<rparr> else c)"
  define b where "b = (if has fl TCP_SYN then tcp_rx_syn seq opts a else a)"
  define seq' where "seq' = (if has fl TCP_SYN then seq + 1 else seq)"
  define r where "r = (if has fl TCP_RST then tcp_rx_rst env seq' b else (b, None))"
  have ca: "conn_inv a" "linked a"
    using assms by (auto intro: inv_irrelevant [OF assms(1)] simp: a_def closed_or_pending)
  have ia: "I a" by (rule same [OF assms(1,3)]) (simp add: a_def tx_same_def closed_or_pending)
  have cb: "conn_inv b" "linked b" using ca inv_rx_syn by (simp_all add: b_def tcp_rx_syn_def Let_def tcp_rx_seq_def)
  have ib: "I b" using same [OF ca(1) ia rx_syn_same] ia by (simp add: b_def)
  have "I (fst r)" using ib abort [OF conn_inv_weaken [OF cb(1)] ib] by (simp add: r_def tcp_rx_rst_def)
  moreover have "snd r = None \<Longrightarrow> fst r = b" using rx_rst_linked by (auto simp: r_def)
  moreover have "I (rx_content env seq' fl data w b)" using kept_rx_content [OF cb] ib by (simp add: kept_def)
  moreover have "rx_flags env seq fl opts data w c =
      (if snd r \<noteq> None then (fst r, snd r) else (rx_content env seq' fl data w (fst r), None))"
    unfolding rx_flags_def Let_def a_def [symmetric] unfolding b_def [symmetric] unfolding seq'_def [symmetric]
    unfolding r_def [symmetric] case_prod_beta ..
  ultimately show ?thesis by auto
qed

lemma I_rx_segment:
  assumes "conn_inv c" "linked c" "I c"
  shows "I (fst (tcp_rx_segment env pkt hlen opts c))"
proof -
  define a where "a = (case tsopt opts of Some tsval \<Rightarrow> c \<lparr> ts_val := tsval \<rparr> | None \<Rightarrow> c)"
  have a: "conn_inv a" "linked a"
    using assms by (auto intro: inv_irrelevant [OF assms(1)] simp: a_def split: option.splits)
  have ia: "I a" by (rule same [OF assms(1,3)]) (simp add: a_def tx_same_def split: option.split)
  have ack': "conn_inv (fst (tcp_rx_ack env k w a))" "linked (fst (tcp_rx_ack env k w a))" for k w
    using inv_rx_ack [OF a] a by simp_all
  note ack'' = ack [OF a ia]
  show ?thesis
    unfolding tcp_rx_segment_def Let_def a_def [symmetric] case_prod_beta
    using reset [OF ack''] reset [OF ia] I_rx_flags [OF ack' ack''] I_rx_flags [OF a ia] by simp
qed

lemma I_internal: "tcp_internal c c' \<Longrightarrow> conn_inv c \<Longrightarrow> I c \<Longrightarrow> I c'"
proof (induction rule: tcp_internal.induct)
  case (int_timer c t over env)
  have i: "conn_inv (c \<lparr> timer := t \<rparr>)" by (rule inv_irrelevant [OF int_timer.prems(1)]) simp_all
  have "I (c \<lparr> timer := t \<rparr>)" by (rule same [OF int_timer.prems]) (simp add: tx_same_def)
  with xmit [OF i] abort [OF conn_inv_weaken [OF i]] show ?case
    by (simp add: tcp_expired_def tcp_xmit_def)
next
  case (int_keepalive c t over env)
  show ?case
    unfolding tcp_keepalive_expired_def tcp_xmit_def
    by (rule xmit [OF inv_irrelevant [OF int_keepalive.prems(1)] same [OF int_keepalive.prems]])
      (simp_all add: closed_or_pending tx_same_def)
next
  case (int_wait c t over env)
  have i: "conn_inv (c \<lparr> wait_timer := t \<rparr>)" by (rule inv_irrelevant [OF int_wait.prems(1)]) simp_all
  have "I (c \<lparr> wait_timer := t \<rparr>)" by (rule same [OF int_wait.prems]) (simp add: tx_same_def)
  with abort [OF conn_inv_weaken [OF i]] show ?case by (simp add: tcp_wait_expired_def)
next
  case (int_process c env)
  show ?case
    unfolding tcp_xmit_def
    by (rule xmit [OF inv_irrelevant [OF int_process.prems(1)] same [OF int_process.prems]]) (simp_all add: tx_same_def)
next
  case (int_app c env calls)
  then show ?case using kept_run_app by (simp add: kept_def)
next
  case (int_discard c)
  show ?case by (rule same [OF int_discard.prems]) (simp add: tx_same_def)
qed

lemma I_step: "tcp_step c c' \<Longrightarrow> conn_inv c \<Longrightarrow> I c \<Longrightarrow> I c'"
  by (induction rule: tcp_step.induct) (simp_all add: I_rx_segment I_internal)

end

section \<open>The transmit queue as a stream\<close>

lemma tx_walk_data: "fst (tx_walk n r q) = take n (concat q)"
  by (induction q arbitrary: n) (auto simp: Let_def case_prod_beta)

lemma tx_walk_rest: "concat (fst (snd (tx_walk n True q))) = drop n (concat q)"
  by (induction q arbitrary: n) (auto simp: Let_def case_prod_beta)

definition accepted :: "tcp_connection \<Rightarrow> u8 list" where
  "accepted c = concat (map (\<lambda>e. case e of Accept d \<Rightarrow> d | _ \<Rightarrow> []) (events c))"

definition seg_hlen :: "u8 list \<Rightarrow> nat" where
  "seg_hlen pkt = unat ((pkt ! 12) AND TCP_MASK_HLEN) div 16 * 4"

definition seg_flags :: "u8 list \<Rightarrow> u32" where
  "seg_flags pkt = ucast (pkt ! 13)"

text \<open>
  A segment is right for the stream \<open>acc\<close>: a reset, or a SYN with the initial
  sequence number, or bytes of the stream at the offset that its sequence
  number names, at most a path MTU of them, with FIN only at the end.
\<close>

definition data_at :: "u32 \<Rightarrow> u8 list \<Rightarrow> u8 list \<Rightarrow> nat \<Rightarrow> bool" where
  "data_at iss acc pkt a \<longleftrightarrow>
     (let data = drop (seg_hlen pkt) pkt
      in a \<le> length acc + 1 \<and> ntohl (drop 4 pkt) = iss + 1 + of_nat a \<and> data = take (length data) (drop a acc)
         \<and> length data \<le> unat TCP_PATH_MTU \<and> (has (seg_flags pkt) TCP_FIN \<longrightarrow> a = length acc))"

definition sent_ok :: "u32 \<Rightarrow> u8 list \<Rightarrow> u8 list \<Rightarrow> bool" where
  "sent_ok iss acc pkt \<longleftrightarrow>
     has (seg_flags pkt) TCP_RST
     \<or> (if has (seg_flags pkt) TCP_SYN then ntohl (drop 4 pkt) = iss else \<exists>a. data_at iss acc pkt a)"

definition fin_sent :: "u8 list \<Rightarrow> bool" where
  "fin_sent pkt \<longleftrightarrow> has (seg_flags pkt) TCP_FIN \<and> \<not> has (seg_flags pkt) TCP_RST"

text \<open>
  \<open>acked iss c a\<close>: the first \<open>a\<close> bytes of the stream are acknowledged, the rest
  is in the queue, and the sequence number agrees.
\<close>

definition acked :: "u32 \<Rightarrow> tcp_connection \<Rightarrow> nat \<Rightarrow> bool" where
  "acked iss c a \<longleftrightarrow> a \<le> length (accepted c) \<and> concat (tx_queue c) = drop a (accepted c)
     \<and> snd_seq c = iss + (if has (tcp_state c) 0x200 then 1 else 0) + of_nat a + (if has (tcp_state c) 0x100 then 1 else 0)
     \<and> (\<not> has (tcp_state c) 0x200 \<longrightarrow> a = 0)"

definition tx_inv :: "u32 \<Rightarrow> tcp_connection \<Rightarrow> bool" where
  "tx_inv iss c \<longleftrightarrow>
     (linked c \<longrightarrow> (\<exists>a. acked iss c a)
        \<and> unat (snd_sent c) \<le> length (concat (tx_queue c)) + (if has (sending c) 3 then 1 else 0))
     \<and> (\<forall>pkt. Transmit pkt \<in> set (events c) \<longrightarrow> sent_ok iss (accepted c) pkt \<and> (fin_sent pkt \<longrightarrow> closed c))"

lemma accepted_append [simp]:
  "events c' = events c @ es \<Longrightarrow> accepted c' = accepted c @ concat (map (\<lambda>e. case e of Accept d \<Rightarrow> d | _ \<Rightarrow> []) es)"
  by (simp add: accepted_def)

lemma data_at_mono:
  assumes "data_at iss acc pkt a" "has (seg_flags pkt) TCP_FIN \<Longrightarrow> tail = []"
  shows "data_at iss (acc @ tail) pkt a"
proof -
  let ?d = "drop (seg_hlen pkt) pkt"
  have a: "a \<le> length acc + 1" "ntohl (drop 4 pkt) = iss + 1 + of_nat a" "?d = take (length ?d) (drop a acc)"
    "length ?d \<le> unat TCP_PATH_MTU" "has (seg_flags pkt) TCP_FIN \<longrightarrow> a = length acc"
    using assms(1) unfolding data_at_def Let_def by blast+
  have "length ?d \<le> length acc - a" using arg_cong [OF a(3), of length] by simp
  then have "take (length ?d) (drop a (acc @ tail)) = take (length ?d) (drop a acc)" by simp
  then have "?d = take (length ?d) (drop a (acc @ tail))" using a(3) by (simp only:)
  with a assms(2) show ?thesis unfolding data_at_def Let_def by auto
qed

lemma sent_ok_mono:
  assumes "sent_ok iss acc pkt" "fin_sent pkt \<Longrightarrow> tail = []"
  shows "sent_ok iss (acc @ tail) pkt"
proof (cases "has (seg_flags pkt) TCP_RST \<or> has (seg_flags pkt) TCP_SYN")
  case False
  then obtain a where "data_at iss acc pkt a" using assms(1) unfolding sent_ok_def by metis
  then have "data_at iss (acc @ tail) pkt a"
    by (rule data_at_mono) (rule assms(2), use False in \<open>simp add: fin_sent_def\<close>)
  with False show ?thesis unfolding sent_ok_def by metis
next
  case True
  with assms(1) show ?thesis unfolding sent_ok_def by metis
qed

section \<open>The segment that is built\<close>

lemma sack_loop_length: "length new \<le> TCP_SACK_MAX \<Longrightarrow> length (sack_loop c olds new) \<le> TCP_SACK_MAX"
  by (induction olds arbitrary: new) (auto split: option.split)

lemma sack_option_length: "length (sack_option bs) = 4 * (1 + 2 * length bs)"
proof -
  have "length (concat (map (\<lambda>b. htonl (sack_left b) @ htonl (sack_right b)) bs)) = 8 * length bs"
    by (induction bs) simp_all
  then show ?thesis by (simp add: sack_option_def)
qed

lemma tcp_sack_count: "snd (tcp_sack seq c) \<le> TCP_SACK_MAX"
  unfolding tcp_sack_def Let_def snd_conv
  by (rule sack_loop_length) (simp add: TCP_SACK_MAX_def split: option.split)

lemma xmit_options_length:
  obtains k where "length (snd (tcp_xmit_options env q fl c)) = 4 * k" "\<not> has fl TCP_SYN \<Longrightarrow> k \<le> 10" "k \<le> 13"
proof -
  define s where "s = (if has (conn_flags c) TCP_SACK_ENABLED \<and> rx_queue c \<noteq> [] \<and> snd (tcp_sack q c) \<noteq> 0
      then 1 + 2 * length (take (snd (tcp_sack q c)) (sack (fst (tcp_sack q c)))) else 0)"
  define t where "t = (if has fl TCP_SYN \<or> has (conn_flags c) TCP_TS_ENABLED then 3 else 0 :: nat)"
  define y where "y = (if has fl TCP_SYN then 3 else 0 :: nat)"
  have s: "s \<le> 7" using tcp_sack_count [of q c] by (auto simp: s_def TCP_SACK_MAX_def)
  have "length (snd (tcp_xmit_options env q fl c)) = 4 * (s + t + y)"
    by (simp add: tcp_xmit_options_def Let_def case_prod_beta sack_option_length s_def t_def y_def ts_option_def
        sp_option_def ws_option_def mss_option_def)
  then show thesis using s by (intro that [of "s + t + y"]) (simp_all add: t_def y_def)
qed

lemma ucast_byte: "(ucast (ucast x :: u8) :: u32) = x AND 0xff"
proof (rule bit_word_eqI)
  fix n assume "n < LENGTH(32)"
  have "bit (0xff :: u32) n \<longleftrightarrow> n < 8"
    using bit_mask_iff [where ?'a = u32, of 8 n] \<open>n < LENGTH(32)\<close> by (auto simp: mask_eq_exp_minus_1)
  then show "bit (ucast (ucast x :: u8) :: u32) n \<longleftrightarrow> bit (x AND 0xff) n" by (auto simp: bit_simps)
qed

lemma has_byte: "m AND 0xff = m \<Longrightarrow> has (x AND 0xff) m \<longleftrightarrow> has x m"
  unfolding has_def by (metis and.assoc and.commute)

lemma build_hlen:
  assumes pkt: "pkt = tcp_build env fl opts data c" and k: "length opts = 4 * k" "k \<le> 10"
  shows "seg_hlen pkt = 20 + length opts"
proof -
  have "pkt ! 12 = of_nat ((5 + k) * 16)"
    using k by (simp add: pkt tcp_build_def Let_def tcp_header_def nth_append SIZEOF_TCP_HEADER_def algebra_simps)
  moreover have "k \<in> {0, 1, 2, 3, 4, 5, 6, 7, 8, 9, 10}" using k(2) by (simp only: insert_iff empty_iff) presburger
  ultimately show ?thesis
    unfolding seg_hlen_def TCP_MASK_HLEN_def k(1) by auto
qed

lemma build_fields:
  assumes pkt: "pkt = tcp_build env fl opts data c"
  shows "ntohl (drop 4 pkt) = snd_seq c"
    and "has (seg_flags pkt) TCP_RST \<longleftrightarrow> has fl TCP_RST" and "has (seg_flags pkt) TCP_SYN \<longleftrightarrow> has fl TCP_SYN"
    and "has (seg_flags pkt) TCP_FIN \<longleftrightarrow> has fl TCP_FIN"
    and "length opts = 4 * k \<Longrightarrow> k \<le> 10 \<Longrightarrow> drop (seg_hlen pkt) pkt = data"
proof -
  let ?hlen = "of_nat ((SIZEOF_TCP_HEADER + length opts) * 4) :: u8"
  obtain csum win where p: "pkt = tcp_header (local_port c) (st_port (peer c)) (snd_seq c) (rcv_ack c) ?hlen
      (ucast (if length data \<noteq> 0 then fl OR TCP_PSH else fl)) win csum @ opts @ data"
    by (simp add: pkt tcp_build_def Let_def)
  show "ntohl (drop 4 pkt) = snd_seq c" by (simp add: p tcp_header_def)
  have f: "seg_flags pkt = (if length data \<noteq> 0 then fl OR TCP_PSH else fl) AND 0xff"
    by (simp only: seg_flags_def ucast_byte [symmetric]) (simp add: p tcp_header_def nth_append store_csum_def)
  show "has (seg_flags pkt) TCP_RST \<longleftrightarrow> has fl TCP_RST" "has (seg_flags pkt) TCP_SYN \<longleftrightarrow> has fl TCP_SYN"
    "has (seg_flags pkt) TCP_FIN \<longleftrightarrow> has fl TCP_FIN"
    unfolding f by (simp_all add: has_byte has_or) (simp_all add: has_def)
  assume k: "length opts = 4 * k" "k \<le> 10"
  have "seg_hlen pkt = 20 + length opts" by (rule build_hlen [OF pkt k])
  moreover have "length (tcp_header s d q a h f w u) = 20" for s d q a h f w u
    by (simp add: tcp_header_def store_csum_def)
  ultimately show "drop (seg_hlen pkt) pkt = data" unfolding p by simp
qed

section \<open>Transmission\<close>

lemma xmit_send_event:
  obtains c' opts k where "events (xmit_send env q len c) =
      events c @ [Transmit (tcp_build env (TCP_FLAGS_SENDING (tcp_state c)) opts (take len (concat (tx_queue c))) c')]"
    "snd_seq c' = snd_seq c" "length opts = 4 * k" "\<not> has (TCP_FLAGS_SENDING (tcp_state c)) TCP_SYN \<Longrightarrow> k \<le> 10"
proof -
  define c1 where "c1 = expand_rcv_win (xfer_window env c) c"
  define r where "r = tcp_xmit_options env q (TCP_FLAGS_SENDING (tcp_state c)) c1"
  obtain k where k: "length (snd r) = 4 * k" "\<not> has (TCP_FLAGS_SENDING (tcp_state c)) TCP_SYN \<Longrightarrow> k \<le> 10"
    using xmit_options_length unfolding r_def by metis
  have e: "events (fst r) = events c" "snd_seq (fst r) = snd_seq c" by (simp_all add: r_def c1_def)
  have "events (xmit_send env q len c) =
      events c @ [Transmit (tcp_build env (TCP_FLAGS_SENDING (tcp_state c)) (snd r) (take len (concat (tx_queue c))) (fst r))]"
    unfolding xmit_send_def Let_def c1_def [symmetric] r_def [symmetric] case_prod_beta
    by (simp add: e tx_walk_data)
  with e k show thesis by (intro that) blast+
qed

lemma xmit_win_bound: "unat (tcp_xmit_win c) \<le> unat TCP_PATH_MTU"
  by (auto simp: tcp_xmit_win_def Let_def word_le_nat_alt [symmetric] not_less)

lemma xmit_len_bound: "xmit_len c \<le> length (concat (tx_queue c))" "xmit_len c \<le> unat TCP_PATH_MTU"
  using xmit_win_bound [of c] by (auto simp: xmit_len_def tx_walk_data)

lemma xmit_seq_len_bound:
  "unat (xmit_seq_len c) \<le> length (concat (tx_queue c)) + (if has (sending c) 3 then 1 else 0)"
proof -
  define f where "f = (if has (sending c) 3 then 1 else 0 :: nat)"
  have "xmit_seq_len c = of_nat (xmit_len c + f)" by (simp add: xmit_seq_len_def f_def sending_def)
  then have "unat (xmit_seq_len c) \<le> xmit_len c + f" by (simp add: unat_of_nat del: of_nat_add)
  then have "unat (xmit_seq_len c) \<le> xmit_len c + (if has (sending c) 3 then 1 else 0)" by (simp add: f_def)
  with xmit_len_bound(1) [of c] show ?thesis by linarith
qed

text \<open>What the transmission path needs of the state; it holds before the first transmission too.\<close>

definition tx_state :: "tcp_connection \<Rightarrow> bool" where
  "tx_state c \<longleftrightarrow> (if linked c then tcp_state c \<in> live_states else tcp_state c = 4)
     \<and> (has (tcp_state c) 1 \<longrightarrow> closed c \<and> tx_queue c = [])"

lemma conn_tx_state: "conn_inv c \<Longrightarrow> tx_state c"
  by (auto simp: tx_state_def conn_inv_def conn_inv0_def)

lemma segment_ok:
  assumes inv: "tx_state c" and a: "linked c \<Longrightarrow> acked iss c a" and len: "len \<le> unat TCP_PATH_MTU"
    and pkt: "pkt = tcp_build env (TCP_FLAGS_SENDING (tcp_state c)) opts (take len (concat (tx_queue c))) c'"
    and c': "snd_seq c' = snd_seq c" and k: "length opts = 4 * k" "\<not> has (TCP_FLAGS_SENDING (tcp_state c)) TCP_SYN \<Longrightarrow> k \<le> 10"
  shows "sent_ok iss (accepted c) pkt \<and> (fin_sent pkt \<longrightarrow> closed c)"
proof (cases "linked c")
  case False
  then have "has (TCP_FLAGS_SENDING (tcp_state c)) TCP_RST"
    using inv by (simp add: tx_state_def sending_nums has_def)
  then show ?thesis using build_fields [OF pkt] by (simp add: sent_ok_def fin_sent_def)
next
  case True
  have st: "tcp_state c \<in> {0x02, 0x202, 0x20012, 0x20212, 0x20213, 0x20313, 0x30213, 0x30313, 0x30212}"
    using inv True by (auto simp: tx_state_def live_states_nums)
  have inv': "has (tcp_state c) 1 \<longrightarrow> closed c \<and> tx_queue c = []" using inv by (simp add: tx_state_def)
  note a = a [OF True]
  note b = build_fields [OF pkt]
  show ?thesis
  proof (cases "has (TCP_FLAGS_SENDING (tcp_state c)) TCP_SYN")
    case syn: True
    have "\<not> has (tcp_state c) 0x200" "\<not> has (tcp_state c) 0x100" "\<not> has (TCP_FLAGS_SENDING (tcp_state c)) TCP_FIN"
      using st syn by (elim insertE emptyE, simp_all add: sending_nums has_def)+
    with a b syn c' show ?thesis by (simp add: sent_ok_def fin_sent_def acked_def)
  next
    case nosyn: False
    let ?f = "if has (tcp_state c) 0x100 then 1 else 0 :: nat"
    have s: "has (tcp_state c) 0x200" using st nosyn by (elim insertE emptyE) (simp_all add: sending_nums has_def)
    have fin: "has (tcp_state c) 0x100 \<Longrightarrow> tx_queue c = []"
      and fin': "has (TCP_FLAGS_SENDING (tcp_state c)) TCP_FIN \<Longrightarrow> tx_queue c = [] \<and> closed c \<and> \<not> has (tcp_state c) 0x100"
      using st inv' by (elim insertE emptyE, simp_all add: sending_nums has_def)+
    have d: "drop (seg_hlen pkt) pkt = take len (concat (tx_queue c))" by (rule b(5) [OF k(1) k(2) [OF nosyn]])
    have q: "concat (tx_queue c) = drop a (accepted c)" "a \<le> length (accepted c)"
      "snd_seq c = iss + 1 + of_nat a + (if has (tcp_state c) 0x100 then 1 else 0)"
      using a s by (auto simp: acked_def)
    have f0: "take len (concat (tx_queue c)) = take (length (take len (concat (tx_queue c)))) (drop (a + ?f) (accepted c))"
    proof (cases "has (tcp_state c) 0x100")
      case False
      have "take len xs = take (length (take len xs)) xs" for xs :: "u8 list" by (simp add: min_def)
      from this [of "concat (tx_queue c)"] False q(1) show ?thesis by simp
    qed (simp add: fin)
    have "has (TCP_FLAGS_SENDING (tcp_state c)) TCP_FIN \<longrightarrow> a + ?f = length (accepted c)"
      using fin' q(1,2) by auto
    moreover have "ntohl (drop 4 pkt) = iss + 1 + of_nat (a + ?f)" using b(1) c' q(3) by (simp add: add.assoc)
    moreover have "length (take len (concat (tx_queue c))) \<le> unat TCP_PATH_MTU" "a + ?f \<le> length (accepted c) + 1"
      using len q(2) by simp_all
    ultimately have "data_at iss (accepted c) pkt (a + ?f)"
      unfolding data_at_def Let_def d b(4) using f0 by blast
    then have "sent_ok iss (accepted c) pkt" unfolding sent_ok_def b(3) using nosyn by auto
    then show ?thesis using fin' b(4) by (simp add: fin_sent_def)
  qed
qed

lemma xmit_sack_event:
  "events (tcp_xmit_sack env q c) = events c \<or>
   (\<exists>pkt opts c' k. events (tcp_xmit_sack env q c) = events c @ [Transmit pkt]
      \<and> pkt = tcp_build env (TCP_FLAGS_SENDING (tcp_state c)) opts (take (xmit_len c) (concat (tx_queue c))) c'
      \<and> snd_seq c' = snd_seq c \<and> length opts = 4 * k
      \<and> (\<not> has (TCP_FLAGS_SENDING (tcp_state c)) TCP_SYN \<longrightarrow> k \<le> 10))"
proof -
  define c1 where "c1 = c \<lparr> snd_sent := xmit_seq_len c \<rparr>"
  define c2 where "c2 = (if xmit_seq_len c \<noteq> 0 then c1 \<lparr> timer := start_timer (now env) (timer c1) \<rparr> else c1)"
  obtain n ok where a: "env_alloc env c2 (xmit_len c + TCP_MAX_HEADER_LEN) = (n, ok)" by fastforce
  define c3 where "c3 = c2 \<lparr> rx_queue := take (length (rx_queue c2) - n) (rx_queue c2) \<rparr>"
  have c3: "events c3 = events c" "tcp_state c3 = tcp_state c" "tx_queue c3 = tx_queue c" "snd_seq c3 = snd_seq c"
    and c1: "events c1 = events c"
    by (simp_all add: c3_def c2_def c1_def)
  obtain c' opts k where "events (xmit_send env q (xmit_len c) c3) = events c @ [Transmit
        (tcp_build env (TCP_FLAGS_SENDING (tcp_state c)) opts (take (xmit_len c) (concat (tx_queue c))) c')]"
      "snd_seq c' = snd_seq c" "length opts = 4 * k" "\<not> has (TCP_FLAGS_SENDING (tcp_state c)) TCP_SYN \<longrightarrow> k \<le> 10"
    using xmit_send_event [of env q "xmit_len c" c3] unfolding c3 by blast
  moreover have "tcp_xmit_sack env q c = (if timer_running (timer c) then c
      else if xmit_seq_len c = 0 \<and> \<not> has (conn_flags c1) TCP_ACK_PENDING then c1
      else if \<not> ok then c3 else xmit_send env q (xmit_len c) c3)"
    unfolding tcp_xmit_sack_def Let_def c1_def [symmetric]
    unfolding c2_def [symmetric] a prod.case c3_def [symmetric] ..
  ultimately show ?thesis using c1 c3(1) by (simp split: if_split) blast
qed

section \<open>The sending invariant\<close>

lemma tx_inv_xmit:
  assumes i: "tx_state c" and t: "tx_inv iss c"
  shows "tx_inv iss (tcp_xmit_sack env q c)"
proof -
  define c' where "c' = tcp_xmit_sack env q c"
  have f: "xmit_frame c c'" unfolding c'_def by (rule xmit_frame_xmit_sack)
  then have s: "tcp_state c' = tcp_state c" "tx_queue c' = tx_queue c" "snd_seq c' = snd_seq c" "linked c' = linked c"
      "closed c' \<longleftrightarrow> closed c" "snd_sent c' = snd_sent c \<or> snd_sent c' = xmit_seq_len c" "sending c' = sending c"
    using closed_xmit_frame [OF f] by (auto simp: xmit_frame_def sending_def)
  obtain a where a: "linked c \<Longrightarrow> acked iss c a" using t by (auto simp: tx_inv_def)
  have "accepted c' = accepted c \<and> (\<forall>pkt. Transmit pkt \<in> set (events c') \<longrightarrow>
      sent_ok iss (accepted c) pkt \<and> (fin_sent pkt \<longrightarrow> closed c))"
    using xmit_sack_event [of env q c]
  proof (elim disjE exE conjE)
    assume "events (tcp_xmit_sack env q c) = events c"
    then show ?thesis using t by (simp add: c'_def accepted_def tx_inv_def)
  next
    fix pkt opts d k
    assume e: "events (tcp_xmit_sack env q c) = events c @ [Transmit pkt]"
      and p: "pkt = tcp_build env (TCP_FLAGS_SENDING (tcp_state c)) opts (take (xmit_len c) (concat (tx_queue c))) d"
      and d: "snd_seq d = snd_seq c" and k: "length opts = 4 * k"
        "\<not> has (TCP_FLAGS_SENDING (tcp_state c)) TCP_SYN \<longrightarrow> k \<le> 10"
    have "sent_ok iss (accepted c) pkt \<and> (fin_sent pkt \<longrightarrow> closed c)"
      by (rule segment_ok [OF i a xmit_len_bound(2) p d k(1)]) (use k(2) in blast)+
    with e t show ?thesis by (auto simp: c'_def accepted_def tx_inv_def)
  qed
  moreover have "linked c \<Longrightarrow> acked iss c' a" if "accepted c' = accepted c"
    using a s(1-4) that by (simp add: acked_def)
  moreover have "linked c \<Longrightarrow> unat (snd_sent c') \<le> length (concat (tx_queue c)) + (if has (sending c) 3 then 1 else 0)"
    using s(6) t xmit_seq_len_bound [of c] by (auto simp: tx_inv_def)
  ultimately show ?thesis
    unfolding tx_inv_def c'_def [symmetric] s(2,4,5,7) by metis
qed

lemma tx_inv_events:
  assumes "tx_inv iss c" "events c' = events c @ es" "\<And>pkt. Transmit pkt \<notin> set es" "\<And>d. Accept d \<notin> set es"
    "tx_queue c' = tx_queue c" "snd_seq c' = snd_seq c" "snd_sent c' = snd_sent c"
    "linked c' \<Longrightarrow> linked c \<and> (has (tcp_state c') 0x200 \<longleftrightarrow> has (tcp_state c) 0x200)
        \<and> (has (tcp_state c') 0x100 \<longleftrightarrow> has (tcp_state c) 0x100) \<and> (has (sending c) 3 \<longrightarrow> has (sending c') 3)"
    "closed c \<Longrightarrow> closed c'"
  shows "tx_inv iss c'"
proof -
  have "concat (map (\<lambda>e. case e of Accept d \<Rightarrow> d | _ \<Rightarrow> []) es) = []"
    using assms(4) by (auto split: tcp_event.splits)
  then have e: "accepted c' = accepted c" using assms(2) by (simp add: accepted_def)
  have "\<forall>pkt. Transmit pkt \<in> set (events c') \<longrightarrow> Transmit pkt \<in> set (events c)" using assms(2,3) by auto
  moreover have "linked c' \<Longrightarrow> acked iss c a \<Longrightarrow> acked iss c' a" for a
    using assms(5,6,8) e by (simp add: acked_def)
  moreover have "linked c' \<Longrightarrow> linked c" "linked c' \<Longrightarrow> has (sending c) 3 \<longrightarrow> has (sending c') 3" using assms(8) by auto
  ultimately show ?thesis
    using assms(1,9) unfolding tx_inv_def e assms(5,7) by (auto split: if_splits)
qed

lemma tx_inv_ack_core:
  assumes i: "conn_inv' c" and l: "linked c" and t: "tx_inv iss c"
    and new: "ack - snd_seq c \<noteq> 0" "ack - snd_seq c \<le> snd_sent c"
  shows "tx_inv iss (rx_ack_core env ack c)"
proof -
  define c' where "c' = rx_ack_core env ack c"
  define n where "n = unat (ack - snd_seq c)"
  have st: "tcp_state c \<in> {0x02, 0x202, 0x20012, 0x20212, 0x20213, 0x20313, 0x30213, 0x30313, 0x30212, 0x30012}"
    using i l by (auto simp: conn_inv'_def conn_inv0_def live_states_nums)
  obtain a where a: "acked iss c a" and b: "unat (snd_sent c) \<le> length (concat (tx_queue c)) + (if has (sending c) 3 then 1 else 0)"
    using t l by (auto simp: tx_inv_def)
  have n: "0 < n" "n \<le> unat (snd_sent c)" "ack = snd_seq c + of_nat n"
    using new unfolding n_def by (simp_all add: word_le_nat_alt unat_gt_0 del: right_minus_eq)
  have fin: "has (tcp_state c) 1 \<longrightarrow> tx_queue c = []" and syn: "has (sending c) 2 \<longrightarrow> snd_sent c = 1"
    using i by (auto simp: conn_inv'_def conn_inv0_def)
  have q': "concat (tx_queue c') = drop (if has (sending c) 3 then n - 1 else n) (concat (tx_queue c))"
    by (simp add: c'_def rx_ack_core_def Let_def tx_walk_rest n_def sending_def has_def)
  have one: "n = 1" if "has (sending c) 3"
  proof (cases "has (sending c) 2")
    case True
    then show ?thesis using syn n(1,2) by simp
  next
    case False
    then have "tx_queue c = []" using st that fin by (elim insertE emptyE) (simp_all add: sending_def sending_nums has_def)
    then show ?thesis using n(1,2) b that by simp
  qed
  have s': "tcp_state c' = ack_state (tcp_state c)" "accepted c' = accepted c" "snd_seq c' = ack" "snd_sent c' = 0"
      "linked c'" "events c' = events c" "conn_flags c' = conn_flags c"
    using l by (simp_all add: c'_def rx_ack_core_state accepted_def)
  have "\<exists>a'. acked iss c' a'"
  proof (cases "has (sending c) 3")
    case True
    have "acked iss c' a"
      using a True one [OF True] q' n(3) st unfolding acked_def s' sending_def
      by (elim insertE emptyE) (simp_all add: sending_nums has_def ack_state_nums)
    then show ?thesis ..
  next
    case False
    then have nq: "n \<le> length (concat (tx_queue c))" using n(2) b by (simp only: if_False)
    have la: "length (concat (tx_queue c)) = length (accepted c) - a" using a by (simp only: acked_def length_drop)
    then have ln: "a + n \<le> length (accepted c)" using nq n(1) by linarith
    have "concat (tx_queue c) \<noteq> []" using n(1) nq by fastforce
    then have "\<not> has (tcp_state c) 1" using fin by auto
    then have "has (tcp_state c) 0x200 \<and> \<not> has (tcp_state c) 0x100 \<and> ack_state (tcp_state c) = tcp_state c"
      using False st unfolding sending_def by (elim insertE emptyE) (simp_all add: sending_nums has_def ack_state_nums)
    then have "acked iss c' (a + n)"
      using a False q' n(3) ln unfolding acked_def s' by (simp add: add.commute)
    then show ?thesis ..
  qed
  then show ?thesis
    using t unfolding tx_inv_def c'_def [symmetric] s' by simp
qed

lemma or_fin: "has (st OR 1) 0x200 \<longleftrightarrow> has st 0x200" "has (st OR 1) 0x100 \<longleftrightarrow> has st 0x100"
  unfolding has_or by (simp_all add: has_def)

lemma sending_or_fin: "has (TCP_FLAGS_SENDING st) 3 \<Longrightarrow> has (TCP_FLAGS_SENDING (st OR 1)) 3"
  by (simp add: TCP_FLAGS_SENDING_def TCP_FLAGS_SENT_def TCP_FLAGS_ACKED_def bit.conj_disj_distrib2 has_or)

lemma tx_inv_ack:
  assumes "conn_inv' c" "linked c" "tx_inv iss c"
  shows "tx_inv iss (fst (tcp_rx_ack env ack win c))"
proof -
  define d where "d = c \<lparr> snd_win := win, keepalive := (if \<not> has (tcp_state c) (TCP_STATE_SENT TCP_FIN)
       then start_timer_fixed (now env) TCP_KEEPALIVE_DELAY (keepalive c) else keepalive c) \<rparr>"
  have d: "conn_inv' d" "linked d" "snd_seq d = snd_seq c" "snd_sent d = snd_sent c"
    using assms(1,2) by (auto simp: d_def conn_inv'_def inv0_window)
  have td: "tx_inv iss d"
    by (rule tx_inv_events [OF assms(3), where es = "[]"]) (simp_all add: d_def sending_def)
  have "tx_inv iss (rx_ack_fin e)" if "tx_inv iss e" for e
    by (rule tx_inv_events [OF that, where es = "[]"])
      (auto simp: rx_ack_fin_def sending_def or_fin sending_or_fin)
  then have "tx_inv iss (rx_ack_new env ack d)" if "ack - snd_seq c \<noteq> 0" "ack - snd_seq c \<le> snd_sent c"
    unfolding rx_ack_new_def using tx_inv_ack_core [OF d(1,2) td] d(3,4) that by simp
  then show ?thesis
    using assms(3) td unfolding tcp_rx_ack_def Let_def d_def [symmetric] by (simp add: not_less)
qed

lemma tx_inv_shutdown:
  assumes "tx_inv iss c"
  shows "tx_inv iss (intf_shutdown rc c)"
  by (rule tx_inv_events [OF assms, where es = "if closed c then [] else [Shutdown rc]"])
    (auto simp: intf_shutdown_def sending_def has_or split: if_splits)

lemma tx_inv_unlinked:
  assumes "tx_inv iss c" "events c' = events c" "\<not> linked c'" "closed c \<Longrightarrow> closed c'"
  shows "tx_inv iss c'"
  using assms by (auto simp: tx_inv_def accepted_def)

lemma tx_inv_delete:
  assumes "tx_inv iss c"
  shows "tx_inv iss (tcp_delete env c)"
  by (rule tx_inv_unlinked [OF assms]) (simp_all add: tcp_delete_def)

lemma tx_inv_close:
  assumes i: "conn_inv' c" and l: "linked c" and t: "tx_inv iss c"
  shows "tx_inv iss (tcp_close env rc c)"
proof -
  define d where "d = intf_shutdown rc c"
  have d: "conn_inv' d \<or> \<not> rsyn d" "linked d" "tx_inv iss d" "rsyn d \<longleftrightarrow> rsyn c"
    using i l tx_inv_shutdown [OF t] by (auto simp: d_def conn_inv'_def conn_inv0_def sending_def)
  define e where "e = (if \<not> has (tcp_state d) 0x200 then fst (tcp_rx_ack env (snd_seq d + 1) 0 d) else d)"
  define f where "f = e \<lparr> keepalive := stop_timer (now env) (keepalive e) \<rparr>"
  have close: "tcp_close env rc c = (if \<not> rsyn d then tcp_delete env d
      else if tx_queue f = [] \<and> \<not> has (tcp_state f) 1
        then f \<lparr> tcp_state := tcp_state f OR 1, process := True, pending_flags := pending_get (pending_flags f) \<rparr>
        else f)"
    by (cases "rsyn c") (auto simp: tcp_close_def Let_def e_def f_def d_def)
  have "tx_inv iss f" if "rsyn d"
  proof -
    have "tx_inv iss e" using tx_inv_ack [OF _ d(2,3)] d(1,3) that by (auto simp: e_def)
    from this show ?thesis
      by (rule tx_inv_events [where es = "[]"]) (simp_all add: f_def sending_def)
  qed
  moreover have "tx_inv iss (f \<lparr> tcp_state := tcp_state f OR 1, process := True, pending_flags := p \<rparr>)" if "tx_inv iss f" for p
    by (rule tx_inv_events [OF that, where es = "[]"]) (auto simp: sending_def or_fin sending_or_fin)
  ultimately show ?thesis unfolding close using tx_inv_delete [OF d(3)] by simp
qed

lemma closed_or [simp]: "has (fl OR 1) 1"
  unfolding has_or by (simp add: has_def)

lemma tx_inv_abort:
  assumes "tx_inv iss c"
  shows "tx_inv iss (tcp_close env rc (c \<lparr> tcp_state := TCP_CLOSED \<rparr>))"
proof -
  have "tcp_close env rc (c \<lparr> tcp_state := TCP_CLOSED \<rparr>) = tcp_delete env (intf_shutdown rc (c \<lparr> tcp_state := TCP_CLOSED \<rparr>))"
    by (simp add: tcp_close_def Let_def has_def)
  moreover have "tx_inv iss (tcp_delete env (intf_shutdown rc (c \<lparr> tcp_state := TCP_CLOSED \<rparr>)))"
    by (rule tx_inv_unlinked [OF tx_inv_shutdown [OF assms, of rc]]) (simp_all add: tcp_delete_def intf_shutdown_def)
  ultimately show ?thesis by simp
qed

lemma tx_inv_accept:
  assumes "conn_inv c" "linked c" "\<not> closed c" "tx_inv iss c"
  shows "tx_inv iss (c \<lparr> tx_queue := tx_queue c @ [d], pending_data := p, events := events c @ [Accept d] \<rparr>)"
proof -
  let ?c = "c \<lparr> tx_queue := tx_queue c @ [d], pending_data := p, events := events c @ [Accept d] \<rparr>"
  have acc: "accepted ?c = accepted c @ d" by (simp add: accepted_def)
  have "acked iss c a \<Longrightarrow> acked iss ?c a" for a by (simp add: acked_def acc)
  moreover have "sent_ok iss (accepted c @ d) pkt" if "Transmit pkt \<in> set (events c)" for pkt
    using assms(3,4) that by (intro sent_ok_mono) (auto simp: tx_inv_def)
  ultimately show ?thesis
    using assms(4) unfolding tx_inv_def acc by (auto simp: sending_def)
qed

lemma tx_inv_reset:
  assumes "tx_inv iss c"
  shows "tx_inv iss (tcp_xmit_reset env pkt c)"
proof -
  have r: "has (seg_flags (tcp_header s d q a h 0x14 w u)) 4" for s d q a h w u
    by (simp add: seg_flags_def tcp_header_def nth_append has_def)
  have 1: "tx_inv iss (c \<lparr> rx_queue := qs \<rparr>)" for qs
    by (rule tx_inv_events [OF assms, where es = "[]"]) (simp_all add: sending_def)
  have "tx_inv iss (d \<lparr> events := events d @ [Transmit p] \<rparr>)" if "tx_inv iss d" "has (seg_flags p) 4" for d p
    using that by (auto simp: tx_inv_def acked_def accepted_def sending_def sent_ok_def fin_sent_def)
  from this [OF 1] 1 r show ?thesis
    by (simp add: tcp_xmit_reset_def Let_def split: prod.split)
qed

lemma tx_inv_same:
  assumes "conn_inv c" "tx_inv iss c" "tx_same c c'"
  shows "tx_inv iss c'"
proof -
  have st: "tcp_state c \<in> {0x02, 0x202, 0x20012, 0x20212, 0x20213, 0x20313, 0x30213, 0x30313, 0x30212}" if "linked c"
    using assms(1) that by (auto simp: conn_inv_def conn_inv0_def live_states_nums)
  have nums: "TCP_FLAGS_SENDING 0x20012 = 0x12" "TCP_FLAGS_SENDING 0x10002 = 2" "TCP_FLAGS_SENDING 0x10202 = 0"
    by (simp_all add: TCP_FLAGS_SENDING_def TCP_FLAGS_SENT_def TCP_FLAGS_ACKED_def)
  have h: "(has (tcp_state c') 0x200 \<longleftrightarrow> has (tcp_state c) 0x200) \<and> (has (tcp_state c') 0x100 \<longleftrightarrow> has (tcp_state c) 0x100)
      \<and> (has (sending c) 3 \<longrightarrow> has (sending c') 3)" if l: "linked c"
  proof -
    have s: "tcp_state c' = tcp_state c \<or> tcp_state c' = tcp_state c OR 0x20010 \<or> tcp_state c' = tcp_state c OR 0x10000"
      using assms(3) by (auto simp: tx_same_def)
    show ?thesis
      using st [OF l] s unfolding sending_def
      by (elim insertE emptyE disjE) (simp_all add: sending_nums nums has_def)
  qed
  obtain es where es: "events c' = events c @ es" "\<And>pkt. Transmit pkt \<notin> set es" "\<And>d. Accept d \<notin> set es"
  proof (cases "events c' = events c")
    case True
    then show thesis by (intro that [of "[]"]) simp_all
  next
    case False
    then obtain d where "events c' = events c @ [Deliver d]" using assms(3) by (auto simp: tx_same_def)
    then show thesis by (intro that [of "[Deliver d]"]) simp_all
  qed
  show ?thesis
    by (rule tx_inv_events [OF assms(2) es]) (use assms(3) h in \<open>auto simp: tx_same_def\<close>)
qed

interpretation tx: tcp_invariant "tx_inv iss" for iss
  by unfold_locales
    (blast intro: tx_inv_xmit conn_tx_state tx_inv_close tx_inv_abort tx_inv_ack conn_inv_weaken tx_inv_accept
      tx_inv_reset tx_inv_same)+

lemma history_inv:
  assumes "tcp_step\<^sup>*\<^sup>* c c'" "conn_inv c" "tx_inv iss c"
  shows "conn_inv c' \<and> tx_inv iss c'"
  using assms by (induction rule: rtranclp_induct) (auto intro: inv_step tx.I_step)

lemma tx_inv_first: "tx_inv iss (first_xmit env' (new_connection env iss st_peer mtu port))"
proof -
  let ?n = "new_connection env iss st_peer mtu port"
  define d where "d = ?n \<lparr> timer := fst (timer_expired (timer ?n)) \<rparr>"
  have e: "first_xmit env' ?n = tcp_xmit_sack env' (rcv_ack d) d"
    by (simp add: first_xmit_def tcp_expired_def tcp_xmit_def d_def)
  have "tx_inv iss d" by (auto simp: d_def tx_inv_def acked_def accepted_def has_def)
  moreover have "tx_state d" by (simp add: d_def tx_state_def live_states_nums has_def)
  ultimately show ?thesis unfolding e by (intro tx_inv_xmit)
qed

text \<open>
  C2: Along every history of a connection that starts with sequence number
  \<open>iss\<close>, every segment handed to the network is a reset, or a SYN with sequence
  number \<open>iss\<close>, or carries exactly the bytes of the stream accepted from the
  application that belong to its sequence number, no more than the path MTU,
  with FIN only behind the last accepted byte; and the transmit queue holds
  exactly the part of the stream that is not yet acknowledged, with the
  unacknowledged sequence number at its start.
\<close>

theorem tcp_sends_stream:
  assumes "tcp_step\<^sup>*\<^sup>* (first_xmit env' (new_connection env iss st_peer mtu port)) c"
  shows "(\<forall>pkt. Transmit pkt \<in> set (events c) \<longrightarrow> sent_ok iss (accepted c) pkt)
    \<and> (linked c \<longrightarrow> (\<exists>a. a \<le> length (accepted c) \<and> concat (tx_queue c) = drop a (accepted c)
        \<and> snd_seq c = iss + (if has (tcp_state c) (TCP_STATE_ACKED TCP_SYN) then 1 else 0) + of_nat a
            + (if has (tcp_state c) (TCP_STATE_ACKED TCP_FIN) then 1 else 0)))"
proof -
  have "tx_inv iss c" using history_inv [OF assms inv_first_xmit tx_inv_first] by blast
  then show ?thesis by (auto simp: tx_inv_def acked_def)
qed

lemma accepted_xmit: "accepted (tcp_xmit env c) = accepted c" "linked (tcp_xmit env c) = linked c"
proof -
  have f: "xmit_frame c (tcp_xmit env c)" unfolding tcp_xmit_def by (rule xmit_frame_xmit_sack)
  then have "events (tcp_xmit env c) = events c \<or> (\<exists>pkt. events (tcp_xmit env c) = events c @ [Transmit pkt])"
    unfolding xmit_frame_def by blast
  then show "accepted (tcp_xmit env c) = accepted c" by (auto simp: accepted_def)
  show "linked (tcp_xmit env c) = linked c" using f unfolding xmit_frame_def by blast
qed

definition chatty :: tcp_connection where
  "chatty = run_app quiet_env [App_send [0x41]] fresh"

lemma chatty_fields: "accepted chatty = [0x41]" "linked chatty" "tcp_step\<^sup>*\<^sup>* fresh chatty"
proof -
  define d where "d = fresh \<lparr> tx_queue := [[0x41]], pending_data := pending_get (pending_data fresh),
      events := events fresh @ [Accept [0x41]] \<rparr>"
  have e: "chatty = tcp_xmit quiet_env d"
    by (simp add: chatty_def tcp_xfer_deliver_def d_def has_def)
  have f: "accepted fresh = []"
  proof -
    let ?n = "new_connection quiet_env 1000 no_peer 1480 2048"
    define c where "c = ?n \<lparr> timer := fst (timer_expired (timer ?n)) \<rparr>"
    have fe: "fresh = tcp_xmit quiet_env c" by (simp add: fresh_def first_xmit_def tcp_expired_def c_def)
    show ?thesis unfolding fe accepted_xmit by (simp add: c_def accepted_def)
  qed
  then show "accepted chatty = [0x41]" "linked chatty"
    unfolding e accepted_xmit by (simp_all add: accepted_def d_def)
  have "tcp_step fresh chatty" unfolding chatty_def by (rule step_internal, rule int_app) simp
  then show "tcp_step\<^sup>*\<^sup>* fresh chatty" by blast
qed

theorem tcp_sends_stream_witness:
  "linked chatty \<and> (\<exists>a. a \<le> 1 \<and> concat (tx_queue chatty) = drop a [0x41])"
  using tcp_sends_stream [OF chatty_fields(3) [unfolded fresh_def]] chatty_fields(1,2) by auto

section \<open>No stall\<close>

text \<open>
  Something to send is never forgotten: the retransmission timer runs, or the
  transmission process is scheduled, or there is nothing to send.
\<close>

definition sched :: "tcp_connection \<Rightarrow> bool" where
  "sched c \<longleftrightarrow> linked c \<longrightarrow> running (timer c) \<or> process c \<or> xmit_seq_len c = 0"

lemma xmit_seq_len_cong:
  "tcp_state c' = tcp_state c \<Longrightarrow> tx_queue c' = tx_queue c \<Longrightarrow> snd_win c' = snd_win c \<Longrightarrow> xmit_seq_len c' = xmit_seq_len c"
  by (simp add: xmit_seq_len_def xmit_len_def tcp_xmit_win_def)

lemma sched_cong:
  "sched c \<Longrightarrow> tcp_state c' = tcp_state c \<Longrightarrow> tx_queue c' = tx_queue c \<Longrightarrow> snd_win c' = snd_win c \<Longrightarrow>
   linked c' = linked c \<Longrightarrow> timer c' = timer c \<Longrightarrow> process c' = process c \<Longrightarrow> sched c'"
  using xmit_seq_len_cong [of c' c] by (simp add: sched_def)

lemma sched_unlinked: "\<not> linked c \<Longrightarrow> sched c"
  by (simp add: sched_def)

lemma sched_xmit: "sched (tcp_xmit_sack env q c)"
proof (cases "timer_running (timer c)")
  case True
  then show ?thesis by (simp add: tcp_xmit_sack_def sched_def timer_running_def)
next
  case False
  show ?thesis
  proof (cases "xmit_seq_len c = 0")
    case True
    have "xmit_seq_len (tcp_xmit_sack env q c) = xmit_seq_len c"
      using xmit_frame_xmit_sack [of c env q] by (intro xmit_seq_len_cong) (simp_all add: xmit_frame_def)
    with True show ?thesis by (simp add: sched_def)
  next
    case n: False
    show ?thesis using xmit_sack_timer [OF False n] by (simp add: sched_def)
  qed
qed

lemma sched_run_app: "sched c \<Longrightarrow> sched (run_app env calls c)"
proof (induction calls arbitrary: c)
  case (Cons call calls)
  have "sched (case call of App_send iobuf \<Rightarrow> tcp_xfer_deliver env iobuf c | App_close rc \<Rightarrow> tcp_xfer_close env rc c)"
    by (cases call) (simp_all add: tcp_xfer_deliver_def tcp_xfer_close_def tcp_xmit_def sched_xmit)
  with Cons show ?case by simp
qed simp

lemma sched_rx_content: "sched (rx_content env seq fl data w c)"
proof -
  define b where "b = tcp_process_rx_queue env (tcp_rx_enqueue seq fl data c)"
  define d where "d = (if rx_queue b = [] then b \<lparr> process := True \<rparr> else tcp_xmit_sack env seq b)"
  define e where "e = (if TCP_CLOSED_GRACEFULLY (tcp_state d)
      then d \<lparr> wait_timer := start_timer_fixed (now env) (2 * TCP_MSL) (stop_timer (now env) (wait_timer d)) \<rparr> else d)"
  have "sched (b \<lparr> process := True \<rparr>)" by (simp add: sched_def)
  then have d: "sched d" unfolding d_def using sched_xmit by simp
  have "sched (d \<lparr> wait_timer := t \<rparr>)" for t by (rule sched_cong [OF d]) simp_all
  with d have "sched e" by (simp add: e_def)
  then have "sched (notify_window env w e)" by (simp add: notify_window_def sched_run_app)
  then show ?thesis
    unfolding rx_content_def Let_def b_def [symmetric] unfolding d_def [symmetric] unfolding e_def [symmetric] .
qed

lemma unlinked_abort: "\<not> linked (tcp_close env rc (c \<lparr> tcp_state := TCP_CLOSED \<rparr>))"
  by (simp add: tcp_close_def Let_def has_def tcp_delete_def)

lemma sched_rx_flags: "sched (fst (rx_flags env seq fl opts data w c))"
proof -
  have "sched (fst (tcp_rx_rst env s b))" if "snd (tcp_rx_rst env s b) \<noteq> None" for s b
    using that unlinked_abort [of env "Some ECONNRESET" b]
    by (auto simp: tcp_rx_rst_def intro: sched_unlinked split: if_splits)
  then show ?thesis
    unfolding rx_flags_def Let_def case_prod_beta using sched_rx_content by (auto split: if_split)
qed

lemma sched_rx_segment:
  assumes "sched c"
  shows "sched (fst (tcp_rx_segment env pkt hlen opts c))"
proof -
  define a where "a = (case tsopt opts of Some tsval \<Rightarrow> c \<lparr> ts_val := tsval \<rparr> | None \<Rightarrow> c)"
  have a: "sched a" by (rule sched_cong [OF assms]) (simp_all add: a_def split: option.split)
  have r: "sched (tcp_xmit_reset env pkt a)"
    by (rule sched_cong [OF a]) (simp_all add: tcp_xmit_reset_def Let_def split: prod.split)
  have e: "fst (tcp_rx_ack env k w a) = a" if "snd (tcp_rx_ack env k w a) \<noteq> None" for k w
    using that by (auto simp: tcp_rx_ack_def Let_def split: if_splits)
  show ?thesis
    unfolding tcp_rx_segment_def Let_def a_def [symmetric] case_prod_beta
    using r e sched_rx_flags by (auto split: if_splits)
qed

lemma sched_internal: "tcp_internal c c' \<Longrightarrow> sched c \<Longrightarrow> sched c'"
proof (induction rule: tcp_internal.induct)
  case (int_timer c t over env)
  show ?case
    using unlinked_abort sched_unlinked sched_xmit by (simp add: tcp_expired_def tcp_xmit_def)
next
  case (int_keepalive c t over env)
  show ?case by (simp add: tcp_keepalive_expired_def tcp_xmit_def sched_xmit)
next
  case (int_wait c t over env)
  show ?case using unlinked_abort sched_unlinked by (simp add: tcp_wait_expired_def)
next
  case (int_process c env)
  show ?case by (simp add: tcp_xmit_def sched_xmit)
next
  case (int_app c env calls)
  then show ?case by (simp add: sched_run_app)
next
  case (int_discard c)
  show ?case by (rule sched_cong [OF int_discard.prems]) simp_all
qed

lemma reach_sched: "tcp_reach c \<Longrightarrow> sched c"
proof (induction rule: tcp_reach.induct)
  case (reach_open env' env seq st_peer mtu port)
  show ?case by (simp add: first_xmit_def tcp_expired_def tcp_xmit_def sched_xmit)
next
  case (reach_step c c')
  from reach_step(2,3) show ?case by (cases rule: tcp_step.cases) (simp_all add: sched_rx_segment sched_internal)
qed

lemma xmit_seq_len_zero:
  assumes "xmit_seq_len c = 0"
  shows "\<not> has (TCP_FLAGS_SENDING (tcp_state c)) (TCP_SYN OR TCP_FIN)"
    and "tcp_xmit_win c = 0 \<or> concat (tx_queue c) = []"
proof -
  define f where "f = (if has (sending c) 3 then 1 else 0 :: nat)"
  have "xmit_seq_len c = of_nat (xmit_len c + f)" by (simp add: xmit_seq_len_def f_def sending_def)
  then have "unat (of_nat (xmit_len c + f) :: u32) = 0" using assms by (simp only: unat_0)
  moreover have "xmit_len c + f < 2 ^ 32"
    using xmit_len_bound(2) [of c] by (simp add: TCP_PATH_MTU_def f_def)
  ultimately have "xmit_len c + f = 0" by (simp add: unat_of_nat del: of_nat_add)
  then have z: "xmit_len c = 0" "f = 0" by simp_all
  from z(2) show "\<not> has (TCP_FLAGS_SENDING (tcp_state c)) (TCP_SYN OR TCP_FIN)"
    by (simp add: f_def sending_def split: if_splits)
  show "tcp_xmit_win c = 0 \<or> concat (tx_queue c) = []"
  proof (cases "TCP_CAN_SEND_DATA (tcp_state c)")
    case True
    then have "take (unat (tcp_xmit_win c)) (concat (tx_queue c)) = []"
      using z(1) by (simp only: xmit_len_def if_True process_tx_queue_fields tx_walk_data length_0_conv)
    then show ?thesis by (simp only: take_eq_Nil unat_eq_zero)
  qed (simp add: tcp_xmit_win_def)
qed



end
