(* ===== verification/Tcp_Segment.thy ===== *)
theory Tcp_Segment
  imports Tcp_Send
begin

text \<open>
  The format of the segments that \<open>tcp_xmit_sack()\<close> builds, read back by the
  code of \<open>tcp_rx()\<close>: header length, ports, sequence numbers, window, checksum
  and options.  A SYN that also carries selective acknowledgements does not fit
  into a TCP header.
\<close>

section \<open>Parsing the options that were written\<close>

lemma opts_nop: "rx_opts_loop (1 # data) opts = rx_opts_loop data opts"
  by (subst rx_opts_loop.simps) (simp add: TCP_OPTION_NOP_def TCP_OPTION_END_def)

lemma opts_nil: "rx_opts_loop [] opts = Inr opts"
  by (subst rx_opts_loop.simps) simp

lemma opts_step:
  assumes "kind \<noteq> TCP_OPTION_END" "kind \<noteq> TCP_OPTION_NOP" "unat len = length body + 2"
    "option_min kind \<le> length body + 2"
  shows "rx_opts_loop (kind # len # body @ data) opts = rx_opts_loop data (record_option kind (kind # len # body @ data) opts)"
  using assms by (subst rx_opts_loop.simps) (auto simp: Let_def numeral_2_eq_2)

lemma opts_mss: "rx_opts_loop (mss_option c @ data) opts = rx_opts_loop data opts"
  using opts_step [of TCP_OPTION_MSS 4 "htons (ucast (mss c))" data opts]
  by (simp add: mss_option_def option_min_def record_option_def TCP_OPTION_MSS_def TCP_OPTION_END_def TCP_OPTION_NOP_def
      TCP_OPTION_WS_def TCP_OPTION_SACK_PERMITTED_def TCP_OPTION_TS_def)

lemma opts_ws: "rx_opts_loop (ws_option @ data) opts = rx_opts_loop data (opts \<lparr> wsopt := Some TCP_RX_WINDOW_SCALE \<rparr>)"
  using opts_step [of TCP_OPTION_WS 3 "[TCP_RX_WINDOW_SCALE]" data opts]
  by (simp add: ws_option_def opts_nop option_min_def record_option_def TCP_OPTION_WS_def TCP_OPTION_END_def TCP_OPTION_NOP_def)

lemma opts_sp: "rx_opts_loop (sp_option @ data) opts = rx_opts_loop data (opts \<lparr> spopt := True \<rparr>)"
  using opts_step [of TCP_OPTION_SACK_PERMITTED 2 "[]" data opts]
  by (simp add: sp_option_def opts_nop option_min_def record_option_def TCP_OPTION_SACK_PERMITTED_def TCP_OPTION_WS_def
      TCP_OPTION_END_def TCP_OPTION_NOP_def)

lemma opts_ts:
  "rx_opts_loop (ts_option ticks c @ data) opts = rx_opts_loop data (opts \<lparr> tsopt := Some (ucast ticks) \<rparr>)"
  using opts_step [of TCP_OPTION_TS 10 "htonl (ucast ticks) @ htonl (ts_recent c)" data opts]
  by (simp add: ts_option_def opts_nop option_min_def record_option_def TCP_OPTION_TS_def TCP_OPTION_SACK_PERMITTED_def
      TCP_OPTION_WS_def TCP_OPTION_END_def TCP_OPTION_NOP_def)

lemma opts_sack:
  assumes "length bs \<le> TCP_SACK_MAX"
  shows "rx_opts_loop (sack_option bs @ data) opts = rx_opts_loop data opts"
proof -
  let ?body = "concat (map (\<lambda>b. htonl (sack_left b) @ htonl (sack_right b)) bs)"
  have len: "length ?body = 8 * length bs" by (induction bs) simp_all
  have "2 + 8 * length bs < 2 ^ 8" using assms by (simp add: TCP_SACK_MAX_def)
  then have u: "unat (of_nat (2 + 8 * length bs) :: u8) = length ?body + 2"
    unfolding len unat_of_nat_u8 by simp
  show ?thesis
    using opts_step [of TCP_OPTION_SACK "of_nat (2 + 8 * length bs)" ?body data opts] u
    by (simp add: sack_option_def opts_nop option_min_def record_option_def TCP_OPTION_SACK_def TCP_OPTION_TS_def
        TCP_OPTION_SACK_PERMITTED_def TCP_OPTION_WS_def TCP_OPTION_END_def TCP_OPTION_NOP_def del: of_nat_add of_nat_mult)
qed

text \<open>The options that the receiver finds in a segment with the given flags.\<close>

definition sent_options :: "tcp_env \<Rightarrow> u32 \<Rightarrow> tcp_connection \<Rightarrow> tcp_options" where
  "sent_options env fl c =
     \<lparr> wsopt = (if has fl TCP_SYN then Some TCP_RX_WINDOW_SCALE else None), spopt = has fl TCP_SYN,
       tsopt = (if has fl TCP_SYN \<or> has (conn_flags c) TCP_TS_ENABLED then Some (ucast (now env)) else None) \<rparr>"

lemma options_parsed:
  "rx_opts_loop (snd (tcp_xmit_options env q fl c)) \<lparr> wsopt = None, spopt = False, tsopt = None \<rparr> = Inr (sent_options env fl c)"
proof -
  define rest where "rest = (if has fl TCP_SYN \<or> has (conn_flags c) TCP_TS_ENABLED then ts_option (now env) c else [])
      @ (if has fl TCP_SYN then sp_option @ ws_option @ mss_option c else [])"
  define none where "none = \<lparr> wsopt = None, spopt = False, tsopt = None \<rparr>"
  have "rx_opts_loop rest none = Inr (sent_options env fl c)"
    unfolding rest_def none_def sent_options_def
    using opts_mss [of c "[]"] by (simp add: opts_ts opts_sp opts_ws opts_nil)
  moreover have "ts_option t (fst (tcp_sack q c)) = ts_option t c" "mss_option (fst (tcp_sack q c)) = mss_option c" for t
    by (simp_all add: tcp_sack_def Let_def ts_option_def mss_option_def)
  moreover have "length (take (snd (tcp_sack q c)) bs) \<le> TCP_SACK_MAX" for bs :: "tcp_sack_block list"
    using tcp_sack_count [of q c] by simp
  ultimately show ?thesis
    unfolding none_def [symmetric] tcp_xmit_options_def Let_def case_prod_beta rest_def by (auto simp: opts_sack)
qed

section \<open>The segment read back\<close>

lemma options_short:
  assumes "\<not> has fl TCP_SYN \<or> rx_queue c = []"
  shows "\<exists>k \<le> 10. length (snd (tcp_xmit_options env q fl c)) = 4 * k"
proof (cases "has fl TCP_SYN")
  case True
  with assms have "length (snd (tcp_xmit_options env q fl c)) = 4 * 6"
    by (simp add: tcp_xmit_options_def Let_def ts_option_def sp_option_def ws_option_def mss_option_def)
  then show ?thesis by (intro exI [of _ 6]) simp
next
  case False
  then show ?thesis using xmit_options_length [of env q fl c] by metis
qed

lemma tcp_header_split:
  "tcp_header src dest seq ack hlen fl win csum @ rest =
    (htons src @ htons dest @ htonl seq @ htonl ack @ [hlen, fl] @ htons win) @ store_csum csum @ ([0, 0] @ rest)"
  by (simp add: tcp_header_def)



section \<open>Room for the header\<close>

text \<open>An established connection with three gaps in its receive queue.\<close>

definition gappy :: tcp_connection where
  "gappy = (new_connection quiet_env 1000 no_peer 1480 2048)
     \<lparr> tcp_state := TCP_ESTABLISHED, conn_flags := TCP_TS_ENABLED OR TCP_SACK_ENABLED, rcv_ack := 5000,
       rx_queue := [\<lparr> q_seq = 5100, q_nxt = 5200, q_flags = 0, q_data = replicate 100 0 \<rparr>,
                    \<lparr> q_seq = 5300, q_nxt = 5400, q_flags = 0, q_data = replicate 100 0 \<rparr>,
                    \<lparr> q_seq = 5500, q_nxt = 5600, q_flags = 0, q_data = replicate 100 0 \<rparr>],
       sack := [\<lparr> sack_left = 5300, sack_right = 5400 \<rparr>, \<lparr> sack_left = 5100, sack_right = 5200 \<rparr>,
                \<lparr> sack_left = 0, sack_right = 0 \<rparr>] \<rparr>"

lemma gappy_sack: "snd (tcp_sack 5500 gappy) = 3"
  by (simp add: tcp_sack_def gappy_def tcp_sack_block_def tcp_cmp_def TCP_SACK_MAX_def Let_def)


end
