(* ===== verification/Iobuf.thy ===== *)
theory Iobuf
  imports Heap_Clients
begin

text \<open>
  I/O buffers (\<open>core/iobuf.c\<close>, \<open>include/ipxe/iobuf.h\<close>, \<open>net/iobpad.c\<close>) on the
  heap of the theory \<open>Heap\<close>.  A buffer is its descriptor, with the address at
  which the descriptor itself lies; the bytes are in the store of the heap.
  The assertions of the accessors are compiled out of a normal build, so the
  accessors are plain pointer arithmetic.
\<close>

section \<open>The position of the last set bit\<close>

definition flsll :: "u64 \<Rightarrow> nat" where
  "flsll x =
     (let r = 0;
          (x, r) = (if x AND 0xffffffff00000000 \<noteq> 0 then (drop_bit 32 x, r + 32) else (x, r));
          (x, r) = (if x AND 0xffff0000 \<noteq> 0 then (drop_bit 16 x, r + 16) else (x, r));
          (x, r) = (if x AND 0xff00 \<noteq> 0 then (drop_bit 8 x, r + 8) else (x, r));
          (x, r) = (if x AND 0xf0 \<noteq> 0 then (drop_bit 4 x, r + 4) else (x, r));
          (x, r) = (if x AND 0xc \<noteq> 0 then (drop_bit 2 x, r + 2) else (x, r));
          (x, r) = (if x AND 0x2 \<noteq> 0 then (drop_bit 1 x, r + 1) else (x, r))
      in if x \<noteq> 0 then r + 1 else 0)"

definition fls :: "u64 \<Rightarrow> nat" where
  "fls x = flsll x"

section \<open>Descriptors\<close>

record io_buffer =
  ib_addr :: u64
  ib_head :: u64
  ib_data :: u64
  ib_tail :: u64
  ib_end :: u64

definition SIZEOF_IO_BUFFER :: u64 where
  "SIZEOF_IO_BUFFER = 48"

definition ALIGNOF_IO_BUFFER :: u64 where
  "ALIGNOF_IO_BUFFER = 8"

definition IOB_ZLEN :: u64 where
  "IOB_ZLEN = 128"

definition iob_reserve :: "u64 \<Rightarrow> io_buffer \<Rightarrow> io_buffer" where
  "iob_reserve len b = b \<lparr> ib_data := ib_data b + len, ib_tail := ib_tail b + len \<rparr>"

definition iob_push :: "u64 \<Rightarrow> io_buffer \<Rightarrow> io_buffer" where
  "iob_push len b = b \<lparr> ib_data := ib_data b - len \<rparr>"

definition iob_pull :: "u64 \<Rightarrow> io_buffer \<Rightarrow> io_buffer" where
  "iob_pull len b = b \<lparr> ib_data := ib_data b + len \<rparr>"

definition iob_put :: "u64 \<Rightarrow> io_buffer \<Rightarrow> io_buffer \<times> u64" where
  "iob_put len b = (b \<lparr> ib_tail := ib_tail b + len \<rparr>, ib_tail b)"

definition iob_unput :: "u64 \<Rightarrow> io_buffer \<Rightarrow> io_buffer" where
  "iob_unput len b = b \<lparr> ib_tail := ib_tail b - len \<rparr>"

definition iob_empty :: "io_buffer \<Rightarrow> io_buffer" where
  "iob_empty b = b \<lparr> ib_tail := ib_data b \<rparr>"

definition iob_len :: "io_buffer \<Rightarrow> u64" where
  "iob_len b = ib_tail b - ib_data b"

definition iob_headroom :: "io_buffer \<Rightarrow> u64" where
  "iob_headroom b = ib_data b - ib_head b"

definition iob_tailroom :: "io_buffer \<Rightarrow> u64" where
  "iob_tailroom b = ib_end b - ib_tail b"

definition iob_populate :: "u64 \<Rightarrow> u64 \<Rightarrow> u64 \<Rightarrow> io_buffer \<Rightarrow> io_buffer" where
  "iob_populate data len max_len b =
     b \<lparr> ib_head := data, ib_data := data, ib_tail := data + len, ib_end := data + max_len \<rparr>"

definition iob_ensure_headroom :: "u64 \<Rightarrow> io_buffer \<Rightarrow> errno option" where
  "iob_ensure_headroom len b = (if iob_headroom b \<ge> len then None else Some ENOBUFS)"

section \<open>Allocation\<close>

definition malloc_dma_offset ::
    "'a discarder list \<Rightarrow> u64 \<Rightarrow> u64 \<Rightarrow> u64 \<Rightarrow> u64 \<Rightarrow> 'a heap_scheme \<Rightarrow> ('a heap_scheme \<times> u64) option" where
  "malloc_dma_offset ds vo n phys_align offset h = alloc_memblock ds vo n phys_align offset h"

definition free_dma :: "u64 \<Rightarrow> u64 \<Rightarrow> 'a heap_scheme \<Rightarrow> 'a heap_scheme" where
  "free_dma ptr n h = free_memblock ptr n h"

definition populate_descriptor :: "u64 \<Rightarrow> u64 \<Rightarrow> u64 \<Rightarrow> io_buffer" where
  "populate_descriptor iobuf data len =
     \<lparr> ib_addr = iobuf, ib_head = data, ib_data = data, ib_tail = data, ib_end = data + len \<rparr>"

definition alloc_iob_raw ::
    "'a discarder list \<Rightarrow> u64 \<Rightarrow> u64 \<Rightarrow> u64 \<Rightarrow> u64 \<Rightarrow> 'a heap_scheme \<Rightarrow> ('a heap_scheme \<times> io_buffer option) option" where
  "alloc_iob_raw ds vo len align offset h =
     (let padding = SIZEOF_IO_BUFFER + ALIGNOF_IO_BUFFER - 1;
          align = (if align < padding then padding else align);
          align_log2 = fls (align - 1)
      in if align_log2 \<ge> 64 then Some (h, None)
         else
           let align = push_bit align_log2 1;
               threshold = align - padding
           in if len \<le> threshold
              then let len = len + ((- len - offset) AND (ALIGNOF_IO_BUFFER - 1))
                   in case malloc_dma_offset ds vo (len + SIZEOF_IO_BUFFER) align offset h of
                        None \<Rightarrow> None
                      | Some (h, data) \<Rightarrow>
                          if data = NULL then Some (h, None)
                          else Some (h, Some (populate_descriptor (data + len) data len))
              else case malloc_dma_offset ds vo len align offset h of
                     None \<Rightarrow> None
                   | Some (h, data) \<Rightarrow>
                       if data = NULL then Some (h, None)
                       else case malloc ds vo SIZEOF_IO_BUFFER h of
                              None \<Rightarrow> None
                            | Some (h, iobuf) \<Rightarrow>
                                if iobuf = NULL then Some (free_dma data len h, None)
                                else Some (h, Some (populate_descriptor iobuf data len)))"

definition alloc_iob :: "'a discarder list \<Rightarrow> u64 \<Rightarrow> u64 \<Rightarrow> 'a heap_scheme \<Rightarrow> ('a heap_scheme \<times> io_buffer option) option" where
  "alloc_iob ds vo len h =
     (let len = (if len < IOB_ZLEN then IOB_ZLEN else len)
      in alloc_iob_raw ds vo len len 0 h)"

definition free_iob :: "'a discarder list \<Rightarrow> u64 \<Rightarrow> io_buffer option \<Rightarrow> 'a heap_scheme \<Rightarrow> 'a heap_scheme option" where
  "free_iob ds vo iobuf h =
     (case iobuf of
        None \<Rightarrow> Some h
      | Some b \<Rightarrow>
          let len = ib_end b - ib_head b
          in if ib_end b = ib_addr b then Some (free_dma (ib_head b) (len + SIZEOF_IO_BUFFER) h)
             else free ds vo (ib_addr b) (free_dma (ib_head b) len h))"

section \<open>Moving data\<close>

text \<open>The loop of \<open>iob_concatenate()\<close>: copy each buffer behind the data so far and free it.\<close>

fun concat_loop ::
    "'a discarder list \<Rightarrow> u64 \<Rightarrow> io_buffer list \<Rightarrow> io_buffer \<Rightarrow> 'a heap_scheme \<Rightarrow> ('a heap_scheme \<times> io_buffer) option" where
  "concat_loop ds vo [] dest h = Some (h, dest)"
| "concat_loop ds vo (b # bs) dest h =
     (let (dest, to) = iob_put (iob_len b) dest;
          h = h \<lparr> store := memcpy to (ib_data b) (iob_len b) (store h) \<rparr>
      in case free_iob ds vo (Some b) h of
           None \<Rightarrow> None
         | Some h \<Rightarrow> concat_loop ds vo bs dest h)"

definition iob_concatenate ::
    "'a discarder list \<Rightarrow> u64 \<Rightarrow> io_buffer list \<Rightarrow> 'a heap_scheme \<Rightarrow> ('a heap_scheme \<times> io_buffer list \<times> io_buffer option) option" where
  "iob_concatenate ds vo bufs h =
     (case bufs of
        [b] \<Rightarrow> Some (h, [], Some b)
      | _ \<Rightarrow>
          let len = sum_list (map iob_len bufs)
          in case alloc_iob_raw ds vo len ALIGNOF_IO_BUFFER 0 h of
               None \<Rightarrow> None
             | Some (h, None) \<Rightarrow> Some (h, bufs, None)
             | Some (h, Some dest) \<Rightarrow>
                 map_option (\<lambda>(h, dest). (h, [], Some dest)) (concat_loop ds vo bufs dest h))"

definition iob_split ::
    "'a discarder list \<Rightarrow> u64 \<Rightarrow> u64 \<Rightarrow> io_buffer \<Rightarrow> 'a heap_scheme \<Rightarrow> ('a heap_scheme \<times> io_buffer \<times> io_buffer option) option" where
  "iob_split ds vo len b h =
     (case alloc_iob ds vo len h of
        None \<Rightarrow> None
      | Some (h, None) \<Rightarrow> Some (h, b, None)
      | Some (h, Some sp) \<Rightarrow>
          let (sp, to) = iob_put len sp;
              h = h \<lparr> store := memcpy to (ib_data b) len (store h) \<rparr>
          in Some (h, iob_pull len b, Some sp))"

definition iob_pad :: "u64 \<Rightarrow> io_buffer \<Rightarrow> 'a heap_scheme \<Rightarrow> 'a heap_scheme \<times> io_buffer" where
  "iob_pad min_len b h =
     (let data = ib_data b;
          len = iob_len b;
          headroom = iob_headroom b;
          b = iob_push headroom b;
          h = h \<lparr> store := memcpy (ib_data b) data len (store h) \<rparr>;
          b = iob_unput headroom b;
          pad_len = ucast (min_len - iob_len b) :: 32 word
      in if sint pad_len > 0
         then let (b, to) = iob_put (ucast pad_len) b
              in (h \<lparr> store := memset to 0 (ucast pad_len) (store h) \<rparr>, b)
         else (h, b))"

section \<open>The last set bit\<close>

lemma fls_stage:
  fixes x :: u64
  assumes "M = push_bit k (mask k)" "2 * k \<le> 64" "unat x < 2 ^ (2 * k)"
  shows "x AND M \<noteq> 0 \<longleftrightarrow> 2 ^ k \<le> unat x" and "2 ^ k \<le> unat x \<Longrightarrow> unat (drop_bit k x) < 2 ^ k"
proof -
  have d: "unat (drop_bit k x) = unat x div 2 ^ k"
    by (simp add: unat_drop_bit_eq drop_bit_eq_div [where ?'a = nat])
  have lt: "unat x div 2 ^ k < 2 ^ k"
    using assms(3) by (simp add: less_mult_imp_div_less power_add mult_2)
  then show "2 ^ k \<le> unat x \<Longrightarrow> unat (drop_bit k x) < 2 ^ k" by (simp add: d)
  have "x AND M = push_bit k (take_bit k (drop_bit k x))"
    unfolding assms(1) by (rule bit_word_eqI) (auto simp: bit_simps)
  also have "take_bit k (drop_bit k x) = drop_bit k x"
    unfolding take_bit_eq_self_iff_drop_bit_eq_0 unat_eq_0 [symmetric]
    using assms(3) by (simp add: unat_drop_bit_eq drop_bit_eq_div [where ?'a = nat] mult_2 flip: unat_eq_0)
  finally have e: "x AND M = push_bit k (drop_bit k x)" .
  have "x AND M = 0 \<longleftrightarrow> unat x div 2 ^ k = 0"
  proof
    assume "x AND M = 0"
    then have "drop_bit k (push_bit k (drop_bit k x)) = 0" using e by simp
    moreover have "drop_bit k (push_bit k (drop_bit k x)) = drop_bit k x"
      by (rule bit_word_eqI) (auto simp: bit_simps dest: bit_imp_le_length)
    ultimately show "unat x div 2 ^ k = 0" using d by simp
  next
    assume "unat x div 2 ^ k = 0"
    then have "drop_bit k x = 0" using d by (simp add: unat_eq_zero)
    then show "x AND M = 0" using e by simp
  qed
  then show "x AND M \<noteq> 0 \<longleftrightarrow> 2 ^ k \<le> unat x"
    by (simp add: div_eq_0_iff not_less)
qed


text \<open>What one stage of the binary search leaves: \<open>x\<close> shifted right by \<open>r\<close>, and less than \<open>2 ^ k\<close>.\<close>

definition fls_inv :: "u64 \<Rightarrow> nat \<Rightarrow> u64 \<times> nat \<Rightarrow> bool" where
  "fls_inv x0 k s \<longleftrightarrow> unat (fst s) = unat x0 div 2 ^ snd s \<and> unat (fst s) < 2 ^ k
     \<and> (snd s > 0 \<longrightarrow> fst s \<noteq> 0)"

lemma fls_inv_step:
  assumes "fls_inv x0 (2 * k) (x, r)" "M = push_bit k (mask k)" "2 * k \<le> 64"
  shows "fls_inv x0 k (if x AND M \<noteq> 0 then (drop_bit k x, r + k) else (x, r))"
proof -
  have x: "unat x = unat x0 div 2 ^ r" "unat x < 2 ^ (2 * k)" "r > 0 \<longrightarrow> x \<noteq> 0"
    using assms(1) by (auto simp: fls_inv_def)
  note st = fls_stage [OF assms(2,3) x(2)]
  show ?thesis
  proof (cases "x AND M = 0")
    case True
    with st(1) have "unat x < 2 ^ k" by auto
    with True x show ?thesis by (simp add: fls_inv_def)
  next
    case False
    with st have st': "2 ^ k \<le> unat x" "unat (drop_bit k x) < 2 ^ k" by auto
    have d: "unat (drop_bit k x) = unat x div 2 ^ k"
      by (simp add: unat_drop_bit_eq drop_bit_eq_div [where ?'a = nat])
    then have "drop_bit k x \<noteq> 0" using st' by (auto simp: div_eq_0_iff simp flip: unat_eq_0)
    with st' d show ?thesis using False x(1) by (simp add: fls_inv_def power_add div_mult2_eq)
  qed
qed

lemma flsll_stages:
  "\<exists>y r. fls_inv x 1 (y, r) \<and> flsll x = (if y \<noteq> 0 then r + 1 else 0)"
proof -
  define s1 where "s1 = (if x AND 0xffffffff00000000 \<noteq> 0 then (drop_bit 32 x, 0 + 32) else (x, 0::nat))"
  define s2 where "s2 = (if fst s1 AND 0xffff0000 \<noteq> 0 then (drop_bit 16 (fst s1), snd s1 + 16) else (fst s1, snd s1))"
  define s3 where "s3 = (if fst s2 AND 0xff00 \<noteq> 0 then (drop_bit 8 (fst s2), snd s2 + 8) else (fst s2, snd s2))"
  define s4 where "s4 = (if fst s3 AND 0xf0 \<noteq> 0 then (drop_bit 4 (fst s3), snd s3 + 4) else (fst s3, snd s3))"
  define s5 where "s5 = (if fst s4 AND 0xc \<noteq> 0 then (drop_bit 2 (fst s4), snd s4 + 2) else (fst s4, snd s4))"
  define s6 where "s6 = (if fst s5 AND 0x2 \<noteq> 0 then (drop_bit 1 (fst s5), snd s5 + 1) else (fst s5, snd s5))"
  have "fls_inv x 64 (x, 0)" using unat_u64_less [of x] by (simp add: fls_inv_def)
  then have "fls_inv x 32 s1" unfolding s1_def
    by (intro fls_inv_step [where k = 32]) (simp_all add: mask_eq_exp_minus_1)
  then have "fls_inv x 16 s2" unfolding s2_def
    by (intro fls_inv_step [where k = 16]) (simp_all add: mask_eq_exp_minus_1)
  then have "fls_inv x 8 s3" unfolding s3_def
    by (intro fls_inv_step [where k = 8]) (simp_all add: mask_eq_exp_minus_1)
  then have "fls_inv x 4 s4" unfolding s4_def
    by (intro fls_inv_step [where k = 4]) (simp_all add: mask_eq_exp_minus_1)
  then have "fls_inv x 2 s5" unfolding s5_def
    by (intro fls_inv_step [where k = 2]) (simp_all add: mask_eq_exp_minus_1)
  then have "fls_inv x 1 s6" unfolding s6_def
    by (intro fls_inv_step [where k = 1]) (simp_all add: mask_eq_exp_minus_1)
  moreover have "flsll x = (if fst s6 \<noteq> 0 then snd s6 + 1 else 0)"
    unfolding flsll_def Let_def s1_def [symmetric] s2_def [symmetric] s3_def [symmetric] s4_def [symmetric]
      s5_def [symmetric] s6_def [symmetric] split_beta ..
  ultimately show ?thesis by (metis prod.collapse)
qed

lemma fls_correct:
  "unat x < 2 ^ fls x" "x \<noteq> 0 \<Longrightarrow> 2 ^ (fls x - 1) \<le> unat x \<and> fls x > 0"
proof -
  obtain y r where inv: "fls_inv x 1 (y, r)" and f: "fls x = (if y \<noteq> 0 then r + 1 else 0)"
    using flsll_stages [of x] unfolding fls_def by blast
  have y: "unat y = unat x div 2 ^ r" "unat y < 2" "r > 0 \<longrightarrow> y \<noteq> 0"
    using inv by (simp_all add: fls_inv_def)
  show "unat x < 2 ^ fls x"
  proof (cases "y = 0")
    case True
    with y f show ?thesis by auto
  next
    case False
    have "unat x < 2 ^ r * 2" using y(1,2) by (simp add: div_less_iff_less_mult mult.commute)
    with False f show ?thesis by simp
  qed
  assume "x \<noteq> 0"
  moreover from this have "y \<noteq> 0" using y by (cases "r = 0") (auto simp: unat_eq_0)
  ultimately show "2 ^ (fls x - 1) \<le> unat x \<and> fls x > 0"
    using f y(1) by (auto simp: div_eq_0_iff not_less simp flip: unat_eq_0)
qed


section \<open>What an allocation returns\<close>

lemma unat_power_u64: "k < 64 \<Longrightarrow> unat (2 ^ k :: u64) = 2 ^ k"
  using unat_of_nat_u64 [of "2 ^ k"] power_strict_increasing [of k 64 "2::nat"] by simp

lemma padding_eq: "SIZEOF_IO_BUFFER + ALIGNOF_IO_BUFFER - 1 = 55"
  by (simp add: SIZEOF_IO_BUFFER_def ALIGNOF_IO_BUFFER_def)

lemma round_align:
  fixes align :: u64
  defines "a \<equiv> if align < 55 then 55 else align"
  assumes "k = fls (a - 1)" "k < 64"
  shows "unat align \<le> 2 ^ k" "unat (push_bit k 1 :: u64) = 2 ^ k" "64 \<le> (2::nat) ^ k" "(2::nat) ^ k \<le> 2 ^ 63"
proof -
  have a: "55 \<le> unat a" "unat align \<le> unat a" by (auto simp: a_def word_less_nat_alt word_le_nat_alt)
  have m: "unat (a - 1) = unat a - 1" using a by (subst unat_sub) (auto simp: word_le_nat_alt)
  have lt: "unat a - 1 < 2 ^ k" using fls_correct(1) [of "a - 1"] by (simp add: assms(2) m)
  with a show "unat align \<le> 2 ^ k" by linarith
  have "\<not> k < 6"
  proof
    assume "k < 6"
    then have "(2::nat) ^ k \<le> 2 ^ 5" by (intro power_increasing) auto
    with lt a show False by simp
  qed
  then have "(2::nat) ^ 6 \<le> 2 ^ k" by (intro power_increasing) auto
  then show "64 \<le> (2::nat) ^ k" by simp
  show "(2::nat) ^ k \<le> 2 ^ 63" using assms(3) by (intro power_increasing) auto
  show "unat (push_bit k 1 :: u64) = 2 ^ k" using assms(3) by (simp add: push_bit_eq_mult unat_power_u64)
qed


lemma alloc_iob_inline:
  assumes "unat len + 55 \<le> 2 ^ k" "(2::nat) ^ k \<le> 2 ^ 63"
    "len' = len + ((- len - offset) AND (ALIGNOF_IO_BUFFER - 1))"
  shows "unat len \<le> unat len'" "unat (len' + SIZEOF_IO_BUFFER) = unat len' + 48" "unat len' + 48 \<le> 2 ^ k"
    "8 dvd unat (len' + offset)"
proof -
  define r where "r = (- len - offset) AND mask 3"
  have "ALIGNOF_IO_BUFFER - 1 = mask 3" by (simp add: ALIGNOF_IO_BUFFER_def mask_eq_exp_minus_1)
  then have l: "len' = len + r" by (simp add: assms(3) r_def)
  have r8: "unat r = unat (- len - offset) mod 8" by (simp add: r_def unat_and_mask)
  then have r: "unat r < 8" by simp
  then have "unat len' = unat len + unat r" unfolding l using assms(1,2) by (subst unat_add_lem [THEN iffD1]) auto
  then show "unat len \<le> unat len'" "unat len' + 48 \<le> 2 ^ k" "unat (len' + SIZEOF_IO_BUFFER) = unat len' + 48"
    using r assms(1,2) by (auto simp: SIZEOF_IO_BUFFER_def unat_word_ariths)
  have "((len + offset) + r) AND mask 3 = 0"
    unfolding r_def by (subst and_mask_add) simp_all
  then have "(len' + offset) AND mask 3 = 0" by (simp add: l ac_simps)
  then show "8 dvd unat (len' + offset)" by (simp add: word_unat_eq_iff unat_and_mask dvd_eq_mod_eq_0)
qed


lemma alloc_iob_raw_cases:
  assumes ret: "alloc_iob_raw [] vo len align offset h = Some (h', Some b)" and wf: "heap_wf h"
  obtains (inline) len' k where "unat align \<le> 2 ^ k" "k < 64" "unat len \<le> unat len'"
      "unat (len' + SIZEOF_IO_BUFFER) = unat len' + 48" "8 dvd unat (len' + offset)" "unat len' + 48 \<le> 2 ^ k"
      "heap_acquire vo (len' + SIZEOF_IO_BUFFER, 2 ^ k, offset) h = Some (h', (ib_head b, len' + SIZEOF_IO_BUFFER))"
      "b = populate_descriptor (ib_head b + len') (ib_head b) len'"
    | (detached) k h1 h2 blk where "unat align \<le> 2 ^ k" "k < 64" "9 < unat len"
      "heap_acquire vo (len, 2 ^ k, offset) h = Some (h1, (ib_head b, len))"
      "heap_acquire vo (SIZEOF_IO_BUFFER + DATA_OFFSET, 1, 0) h1 = Some (h2, (blk, SIZEOF_IO_BUFFER + DATA_OFFSET))"
      "h' = h2\<lparr>hdr := (hdr h2)(blk := SIZEOF_IO_BUFFER + DATA_OFFSET)\<rparr>"
      "b = populate_descriptor (blk + DATA_OFFSET) (ib_head b) len"
proof -
  define a where "a = (if align < 55 then 55 else align)"
  define k where "k = fls (a - 1)"
  have k: "k < 64" using ret unfolding alloc_iob_raw_def padding_eq Let_def a_def [symmetric] k_def [symmetric]
    by (simp split: if_splits)
  note al = round_align [OF k_def [unfolded a_def] k]
  have p: "push_bit k (1::u64) = 2 ^ k" by (simp add: push_bit_eq_mult)
  have th: "unat (push_bit k 1 - 55 :: u64) = 2 ^ k - 55"
    using al(2,3) by (subst unat_sub) (auto simp: word_le_nat_alt)
  note r = ret [unfolded alloc_iob_raw_def padding_eq Let_def a_def [symmetric] k_def [symmetric]
      malloc_dma_offset_def malloc_def realloc_def realloc_finish_def]
  show thesis
  proof (cases "len \<le> push_bit k 1 - 55")
    case True
    define len' where "len' = len + ((- len - offset) AND (ALIGNOF_IO_BUFFER - 1))"
    have "unat len + 55 \<le> 2 ^ k" using True th al(3) by (auto simp: word_le_nat_alt)
    note i = alloc_iob_inline [OF this al(4) len'_def]
    from r k True obtain d where
      "alloc_memblock [] vo (len' + SIZEOF_IO_BUFFER) (2 ^ k) offset h = Some (h', d)" "d \<noteq> NULL"
      "b = populate_descriptor (d + len') d len'"
      unfolding len'_def [symmetric] p by (auto split: option.splits if_splits)
    moreover from this have "ib_head b = d" by (simp add: populate_descriptor_def)
    ultimately show thesis
      by (intro inline [of k len', OF al(1) k i(1,2,4,3)]) (simp_all add: heap_acquire_def)
  next
    case False
    then have len: "9 < unat len" using th al(3) by (simp add: word_le_nat_alt)
    have s: "SIZEOF_IO_BUFFER \<noteq> 0" "\<not> SIZEOF_IO_BUFFER + DATA_OFFSET < SIZEOF_IO_BUFFER"
      by (simp_all add: SIZEOF_IO_BUFFER_def DATA_OFFSET_def)
    from r k False s obtain h1 d h2 blk where
      a1: "alloc_memblock [] vo len (2 ^ k) offset h = Some (h1, d)" "d \<noteq> NULL" and
      a2: "alloc_memblock [] vo (SIZEOF_IO_BUFFER + DATA_OFFSET) 1 0 h1 = Some (h2, blk)" "blk \<noteq> NULL" and
      e: "h' = h2\<lparr>hdr := (hdr h2)(blk := SIZEOF_IO_BUFFER + DATA_OFFSET)\<rparr>"
      "b = populate_descriptor (blk + DATA_OFFSET) d len"
      unfolding p by (auto split: option.splits if_splits)
    moreover from e have "ib_head b = d" by (simp add: populate_descriptor_def)
    ultimately show thesis
      by (intro detached [of k h1 h2 blk, OF al(1) k len]) (simp_all add: heap_acquire_def)
  qed
qed


section \<open>The memory a buffer owns\<close>

text \<open>
  The blocks of the heap that belong to a buffer: one block when the descriptor
  follows the data, otherwise the data and the block that \<open>malloc\<close> returned
  for the descriptor.
\<close>

definition iob_blocks :: "io_buffer \<Rightarrow> block list" where
  "iob_blocks b =
     (if ib_end b = ib_addr b then [(ib_head b, ib_end b - ib_head b + SIZEOF_IO_BUFFER)]
      else [(ib_head b, ib_end b - ib_head b), (ib_addr b - DATA_OFFSET, SIZEOF_IO_BUFFER + DATA_OFFSET)])"

definition iob_live :: "heap \<Rightarrow> io_buffer \<Rightarrow> bool" where
  "iob_live h b \<longleftrightarrow> (ib_end b \<noteq> ib_addr b \<longrightarrow>
     hdr h (ib_addr b - DATA_OFFSET) = SIZEOF_IO_BUFFER + DATA_OFFSET
     \<and> ib_addr b \<noteq> NULL \<and> ib_addr b \<noteq> NOWHERE)"

definition iob_ordered :: "io_buffer \<Rightarrow> bool" where
  "iob_ordered b \<longleftrightarrow> ib_head b \<le> ib_data b \<and> ib_data b \<le> ib_tail b \<and> ib_tail b \<le> ib_end b"

definition fresh_iob :: "u64 \<Rightarrow> heap \<Rightarrow> heap \<Rightarrow> io_buffer \<Rightarrow> bool" where
  "fresh_iob len h h' b \<longleftrightarrow> iob_live h' b \<and> iob_ordered b
     \<and> ib_data b = ib_head b \<and> ib_tail b = ib_head b
     \<and> len \<le> ib_end b - ib_head b
     \<and> unat (ib_end b) = unat (ib_head b) + unat (ib_end b - ib_head b)
     \<and> unat (ib_end b) \<le> unat (ib_head b) + unat (actual_size (snd (hd (iob_blocks b))))
     \<and> (\<forall>x \<in> set (iob_blocks b). block_region x \<subseteq> free_bytes (free_blocks h))
     \<and> store h' = store h
     \<and> (\<forall>p. unat p \<notin> \<Union> (block_region ` set (iob_blocks b)) \<longrightarrow> hdr h' p = hdr h p)"

lemma block_end:
  assumes "block_valid (p, n)"
  shows "unat (p + n) = unat p + unat n" "unat p + unat n \<le> unat p + unat (actual_size n)"
    "unat p + unat (actual_size n) < 2 ^ 63" "0 < unat n"
  using assms actual_size_cases [of n] by (auto simp: block_valid_def unat_word_ariths)

lemma acquire_frame:
  assumes "heap_wf h" "heap_acquire vo r h = Some (h', x)"
  shows "store h' = store h" "hdr h' = hdr h" "usedmem h' = usedmem h + actual_size (snd x)"
  using assms alloc_memblock_Some(5,7,8) [OF assms(1)]
  by (cases r; force simp: heap_acquire_def split: option.splits if_splits)+

lemma pool_ok_hdr [simp]: "pool.pool_ok (h\<lparr>hdr := f\<rparr>) live \<longleftrightarrow> pool.pool_ok h live"
  "pool.pool_ok (h\<lparr>store := g\<rparr>) live \<longleftrightarrow> pool.pool_ok h live"
  by (simp_all add: pool.pool_ok_def heap_wf_chain)


lemma alloc_iob_inline_ok:
  assumes ok: "pool.pool_ok h live"
    and acq: "heap_acquire vo (n + SIZEOF_IO_BUFFER, a, offset) h = Some (h', (d, n + SIZEOF_IO_BUFFER))"
    and n: "unat (n + SIZEOF_IO_BUFFER) = unat n + 48" "unat len \<le> unat n"
    and b: "b = populate_descriptor (d + n) d n"
  shows "pool.pool_ok h' (iob_blocks b @ live)" "fresh_iob len h h' b"
    "usedmem h' = usedmem h + (\<Sum>x\<leftarrow>iob_blocks b. actual_size (snd x))"
proof -
  have wf: "heap_wf h" using ok by (simp add: pool.pool_ok_def)
  have bl: "iob_blocks b = [(d, n + SIZEOF_IO_BUFFER)]"
    by (simp add: iob_blocks_def b populate_descriptor_def)
  show "pool.pool_ok h' (iob_blocks b @ live)" using pool.pool_ok_acquire [OF ok acq] by (simp add: bl)
  note law = pool.acquire_law [OF wf acq]
  note fr = acquire_frame [OF wf acq]
  then show "usedmem h' = usedmem h + (\<Sum>x\<leftarrow>iob_blocks b. actual_size (snd x))" by (simp add: bl)
  have e: "unat d + (unat n + 48) \<le> unat d + unat (actual_size (n + SIZEOF_IO_BUFFER))"
    "unat d + unat (actual_size (n + SIZEOF_IO_BUFFER)) < 2 ^ 63"
    using block_end(2,3) [of d "n + SIZEOF_IO_BUFFER"] law n(1) by auto
  then have "unat (d + n) = unat d + unat n" by (simp add: unat_word_ariths)
  then show "fresh_iob len h h' b"
    using law fr n(2) e unfolding fresh_iob_def bl
    by (simp add: iob_live_def iob_ordered_def b populate_descriptor_def word_le_nat_alt)
qed

text \<open>A descriptor of its own never lies where an inline one would, so \<open>free_iob()\<close> tells them apart.\<close>

lemma detached_descriptor:
  assumes "heap_wf h" "heap_acquire vo (len, a, offset) h = Some (h1, (d, len))"
    "heap_acquire vo (SIZEOF_IO_BUFFER + DATA_OFFSET, 1, 0) h1 = Some (h2, (blk, SIZEOF_IO_BUFFER + DATA_OFFSET))"
    "9 < unat len"
  shows "blk + DATA_OFFSET \<noteq> d + len"
proof
  assume "blk + DATA_OFFSET = d + len"
  have c: "SIZEOF_IO_BUFFER + DATA_OFFSET = 56" by (simp add: SIZEOF_IO_BUFFER_def DATA_OFFSET_def)
  note law1 = pool.acquire_law [OF assms(1,2)]
  then have "heap_wf h1" by blast
  note law2 = pool.acquire_law [OF this assms(3), unfolded c]
  have v: "block_valid (d, len)" "block_valid (blk, 56)" using law1 law2 by auto
  have disj: "block_region (d, len) \<inter> block_region (blk, 56) = {}" using law1 law2 by fastforce
  note e1 = block_end [OF v(1)] and e2 = block_end [OF v(2)]
  have "unat (blk + DATA_OFFSET) = unat blk + 8" using e2 by (simp add: DATA_OFFSET_def unat_word_ariths)
  then have "unat blk + 8 = unat d + unat len" using \<open>_ = d + len\<close> e1(1) by simp
  then have "unat blk \<in> block_region (d, len)" using assms(4) e1(2) by (simp add: block_region_def)
  with disj show False using block_region_nonempty [OF v(2)] by auto
qed

lemma alloc_iob_detached_ok:
  assumes ok: "pool.pool_ok h live"
    and acq: "heap_acquire vo (len, a, offset) h = Some (h1, (d, len))"
      "heap_acquire vo (SIZEOF_IO_BUFFER + DATA_OFFSET, 1, 0) h1 = Some (h2, (blk, SIZEOF_IO_BUFFER + DATA_OFFSET))"
    and len: "9 < unat len"
    and h': "h' = h2\<lparr>hdr := (hdr h2)(blk := SIZEOF_IO_BUFFER + DATA_OFFSET)\<rparr>"
    and b: "b = populate_descriptor (blk + DATA_OFFSET) d len"
  shows "pool.pool_ok h' (iob_blocks b @ live)" "fresh_iob len h h' b"
    "usedmem h' = usedmem h + (\<Sum>x\<leftarrow>iob_blocks b. actual_size (snd x))"
proof -
  let ?D = "(blk, SIZEOF_IO_BUFFER + DATA_OFFSET)"
  have wf: "heap_wf h" using ok by (simp add: pool.pool_ok_def)
  note law1 = pool.acquire_law [OF wf acq(1)] and ok1 = pool.pool_ok_acquire [OF ok acq(1)]
  then have wf1: "heap_wf h1" by blast
  note law2 = pool.acquire_law [OF wf1 acq(2)] and ok2 = pool.pool_ok_acquire [OF ok1 acq(2)]
  note fr = acquire_frame [OF wf acq(1)] acquire_frame [OF wf1 acq(2)]
  have c: "SIZEOF_IO_BUFFER = 48" "DATA_OFFSET = 8" by (simp_all add: SIZEOF_IO_BUFFER_def DATA_OFFSET_def)
  note e1 = block_end [of d len] and e2 = block_end [of blk 56]
  have v: "block_valid (d, len)" "block_valid (blk, 56)" using law1 law2 by (auto simp: c)
  have blk: "unat (blk + 8) = unat blk + 8" using e2 v by (simp add: unat_word_ariths)
  have "blk + 8 \<noteq> d + len" using detached_descriptor [OF wf acq len] by (simp add: c)
  then have bl: "iob_blocks b = [(d, len), ?D]"
    by (auto simp: iob_blocks_def b populate_descriptor_def c)
  have "pool.pool_ok h2 (iob_blocks b @ live)"
    using ok2 unfolding bl pool.pool_ok_def by auto
  then show "pool.pool_ok h' (iob_blocks b @ live)" by (simp add: h')
  show "usedmem h' = usedmem h + (\<Sum>x\<leftarrow>iob_blocks b. actual_size (snd x))"
    by (simp add: h' bl fr add.assoc)
  have "blk + 8 \<noteq> NULL" "blk + 8 \<noteq> NOWHERE"
    using blk e2(3) [OF v(2)] unfolding heap_consts word_unat_eq_iff by (auto simp: unsigned_minus_1_eq_mask mask_eq_exp_minus_1)
  moreover have "unat blk \<in> block_region (blk, 56)" using v by (metis block_region_nonempty fst_conv)
  ultimately show "fresh_iob len h h' b"
    using law1 law2 e1 [OF v(1)] \<open>blk + 8 \<noteq> d + len\<close> unfolding fresh_iob_def bl
    by (auto simp: h' fr iob_live_def iob_ordered_def b populate_descriptor_def c word_le_nat_alt)
qed


lemma alloc_iob_raw_ok:
  fixes h :: heap
  assumes ok: "pool.pool_ok h live" and ret: "alloc_iob_raw [] vo len align offset h = Some (h', Some b)"
  shows "pool.pool_ok h' (iob_blocks b @ live)" "fresh_iob len h h' b"
    "usedmem h' = usedmem h + (\<Sum>x\<leftarrow>iob_blocks b. actual_size (snd x))"
proof -
  have wf: "heap_wf h" using ok by (simp add: pool.pool_ok_def)
  have "pool.pool_ok h' (iob_blocks b @ live) \<and> fresh_iob len h h' b
    \<and> usedmem h' = usedmem h + (\<Sum>x\<leftarrow>iob_blocks b. actual_size (snd x))"
  proof (cases rule: alloc_iob_raw_cases [OF ret wf, case_names inline detached])
    case inline
    then show ?thesis using alloc_iob_inline_ok [OF ok] by metis
  next
    case detached
    then show ?thesis using alloc_iob_detached_ok [OF ok] by metis
  qed
  then show "pool.pool_ok h' (iob_blocks b @ live)" "fresh_iob len h h' b"
    "usedmem h' = usedmem h + (\<Sum>x\<leftarrow>iob_blocks b. actual_size (snd x))" by blast+
qed

lemma alloc_iob_raw_phys:
  fixes h :: heap
  assumes wf: "heap_wf h" and ret: "alloc_iob_raw [] vo len align offset h = Some (h', Some b)"
    and side: "\<forall>x \<in> set (free_blocks h). hi x \<le> 2 ^ 32 \<or> 2 ^ 32 \<le> lo x"
  shows "\<exists>k. unat align \<le> 2 ^ k \<and> unat (virt_to_phys vo (ib_head b)) mod 2 ^ k = unat offset mod 2 ^ k
     \<and> (ib_end b = ib_addr b \<longrightarrow>
          ib_end b - ib_head b + SIZEOF_IO_BUFFER \<le> 2 ^ k
          \<and> 8 dvd unat (virt_to_phys vo (ib_head b) + (ib_end b - ib_head b)))"
proof (cases rule: alloc_iob_raw_cases [OF ret wf, case_names inline detached])
  case (inline n k)
  have al: "alloc_memblock [] vo (n + SIZEOF_IO_BUFFER) (2 ^ k) offset h = Some (h', ib_head b)" "ib_head b \<noteq> NULL"
    using inline(7) by (auto simp: heap_acquire_def split: option.splits if_splits)
  note m = alloc_aligned [OF wf side refl inline(2) al]
  have e: "ib_end b - ib_head b = n" by (subst (1) inline(8)) (simp add: populate_descriptor_def)
  have "3 \<le> k"
  proof (rule ccontr)
    assume "\<not> 3 \<le> k"
    then have "(2::nat) ^ k \<le> 2 ^ 2" by (intro power_increasing) auto
    with inline(6) show False by simp
  qed
  then have d: "(8::nat) dvd 2 ^ k" using le_imp_power_dvd [of 3 k "2::nat"] by simp
  have "unat (virt_to_phys vo (ib_head b)) mod 8 = unat offset mod 8"
    using mod_mod_cancel [OF d, of "unat (virt_to_phys vo (ib_head b))"] mod_mod_cancel [OF d, of "unat offset"]
    unfolding m by simp
  moreover have m8: "unat (x + y) mod 8 = (unat x + unat y) mod 8" for x y :: u64
    by (simp add: unat_word_ariths mod_mod_cancel)
  ultimately have "unat (virt_to_phys vo (ib_head b) + n) mod 8 = unat (n + offset) mod 8"
    by (metis add.commute mod_add_left_eq)
  then have "8 dvd unat (virt_to_phys vo (ib_head b) + (ib_end b - ib_head b))"
    using inline(5) by (simp add: e dvd_eq_mod_eq_0)
  moreover have "n + SIZEOF_IO_BUFFER \<le> 2 ^ k"
    using inline(2,4,6) by (simp add: word_le_nat_alt unat_power_u64)
  ultimately show ?thesis using inline(1) m e by blast
next
  case (detached k h1 h2 blk)
  have al: "alloc_memblock [] vo len (2 ^ k) offset h = Some (h1, ib_head b)" "ib_head b \<noteq> NULL"
    using detached(4) by (auto simp: heap_acquire_def split: option.splits if_splits)
  have "ib_end b \<noteq> ib_addr b"
    using detached_descriptor [OF wf detached(4,5,3)]
    by (subst (1 2) detached(7)) (simp add: populate_descriptor_def)
  with detached(1) alloc_aligned [OF wf side refl detached(2) al] show ?thesis by blast
qed


lemma free_iob_ok:
  fixes h :: heap
  assumes ok: "pool.pool_ok h (iob_blocks b @ live)" and live: "iob_live h b"
  obtains h' where "free_iob [] vo (Some b) h = Some h'" "pool.pool_ok h' live"
    "usedmem h' = usedmem h - (\<Sum>x\<leftarrow>iob_blocks b. actual_size (snd x))"
    "free_bytes (free_blocks h') = free_bytes (free_blocks h) \<union> \<Union> (block_region ` set (iob_blocks b))"
    "store h' = store h" "hdr h' = hdr h"
proof -
  have fr: "usedmem (heap_release x h) = usedmem h - actual_size (snd x)"
    "store (heap_release x h) = store h" "hdr (heap_release x h) = hdr h"
    if "pool.pool_ok h (x # l)" for x l and h :: heap
    using that by (simp_all add: heap_release_def free_memblock_def Let_def pool.pool_ok_def block_valid_def)
  have rel: "pool.pool_ok (heap_release x h) l
      \<and> free_bytes (free_blocks (heap_release x h)) = free_bytes (free_blocks h) \<union> block_region x"
    if "pool.pool_ok h (x # l)" for x l and h :: heap
    using pool.pool_ok_release [OF that, of x] pool.release_law [of h x] that by (auto simp: pool.pool_ok_def)
  show thesis
  proof (cases "ib_end b = ib_addr b")
    case True
    then have bl: "iob_blocks b = [(ib_head b, ib_end b - ib_head b + SIZEOF_IO_BUFFER)]" by (simp add: iob_blocks_def)
    with ok have "pool.pool_ok h ((ib_head b, ib_end b - ib_head b + SIZEOF_IO_BUFFER) # live)" by simp
    note r = rel [OF this] fr [OF this]
    show thesis
      by (rule that [of "heap_release (ib_head b, ib_end b - ib_head b + SIZEOF_IO_BUFFER) h"])
        (use r True in \<open>simp_all add: bl, simp add: free_iob_def free_dma_def heap_release_def\<close>)
  next
    case False
    let ?x = "(ib_head b, ib_end b - ib_head b)" and ?y = "(ib_addr b - DATA_OFFSET, SIZEOF_IO_BUFFER + DATA_OFFSET)"
    have bl: "iob_blocks b = [?x, ?y]" using False by (simp add: iob_blocks_def)
    with ok have ok1: "pool.pool_ok h (?x # ?y # live)" by simp
    note r1 = rel [OF ok1] fr [OF ok1]
    then have ok2: "pool.pool_ok (heap_release ?x h) (?y # live)" by blast
    note r2 = rel [OF ok2] fr [OF ok2]
    have "free [] vo (ib_addr b) (heap_release ?x h) = Some (heap_release ?y (heap_release ?x h))"
      using live False r1(4)
      by (simp add: free_def realloc_def realloc_finish_def Let_def iob_live_def heap_release_def memcpy_def)
    then have "free_iob [] vo (Some b) h = Some (heap_release ?y (heap_release ?x h))"
      using False by (simp add: free_iob_def free_dma_def heap_release_def)
    with r1 r2 show thesis
      by (intro that [of "heap_release ?y (heap_release ?x h)"]) (simp_all add: bl Un_assoc diff_diff_eq)
  qed
qed


section \<open>Properties of allocation\<close>

text \<open>
  C11: when \<open>alloc_iob_raw()\<close> returns a buffer on a heap whose live blocks are
  \<open>live\<close>, the blocks of the buffer are new and disjoint from the live ones and
  from the free memory, the buffer is empty with all three pointers at its
  head, the room is at least the requested length, it ends inside its block
  without wrapping, no byte of memory and no header of another block has
  changed, and, when no free block straddles 4GB, its head is at the requested
  offset from a physical boundary of the alignment rounded up to a power of
  two, with an inline descriptor that is aligned and below the next boundary.
\<close>

theorem alloc_iob_raw_safe:
  fixes h :: heap
  assumes "pool.pool_ok h live" and "alloc_iob_raw [] vo len align offset h = Some (h', Some b)"
  shows "pool.pool_ok h' (iob_blocks b @ live) \<and> fresh_iob len h h' b
    \<and> ((\<forall>x \<in> set (free_blocks h). hi x \<le> 2 ^ 32 \<or> 2 ^ 32 \<le> lo x) \<longrightarrow>
        (\<exists>k. unat align \<le> 2 ^ k \<and> unat (virt_to_phys vo (ib_head b)) mod 2 ^ k = unat offset mod 2 ^ k
          \<and> (ib_end b = ib_addr b \<longrightarrow>
               ib_end b - ib_head b + SIZEOF_IO_BUFFER \<le> 2 ^ k
               \<and> 8 dvd unat (virt_to_phys vo (ib_head b) + (ib_end b - ib_head b)))))"
proof -
  have wf: "heap_wf h" using assms(1) by (simp add: pool.pool_ok_def)
  show ?thesis using alloc_iob_raw_ok(1,2) [OF assms] alloc_iob_raw_phys [OF wf assms(2)] by blast
qed

definition example_iob :: io_buffer where
  "example_iob = \<lparr> ib_addr = 0x100158, ib_head = 0x100100, ib_data = 0x100100, ib_tail = 0x100100, ib_end = 0x100158 \<rparr>"

definition example_iob_heap :: heap where
  "example_iob_heap = example_heap1\<lparr>free_blocks := [\<lparr>mb_addr = 0x100080, mb_size = 0x80\<rparr>,
       \<lparr>mb_addr = 0x1001a0, mb_size = 0x7fe60\<rparr>],
     freemem := 0x7fee0, usedmem := 0x120, maxusedmem := 0x120\<rparr>"

lemma example_pool: "pool.pool_ok example_heap1 [(0x100000, 100)]"
  using heap_reach_ok [OF example_reach] by (simp add: NULL_def HEAP_SIZE_def)

lemma example_alloc_iob: "alloc_iob_raw [] 0 88 129 0 example_heap1 = Some (example_iob_heap, Some example_iob)"
proof -
  have "fls 128 = 8" by (simp add: fls_def flsll_def Let_def)
  then show ?thesis
    by (simp add: alloc_iob_raw_def malloc_dma_offset_def Let_def SIZEOF_IO_BUFFER_def ALIGNOF_IO_BUFFER_def
        heap_eval example_heap1_def example_iob_heap_def empty_heap_def populate_descriptor_def example_iob_def)
qed


theorem alloc_iob_raw_safe_witness:
  "pool.pool_ok example_iob_heap (iob_blocks example_iob @ [(0x100000, 100)])
   \<and> unat (virt_to_phys 0 (ib_head example_iob)) mod 256 = 0"
  using alloc_iob_raw_safe [OF example_pool example_alloc_iob]
  by (simp add: virt_to_phys_def example_iob_def)

text \<open>
  C33: a buffer can always be freed, whatever its data and tail pointers have
  become: \<open>free_iob()\<close> tells an inline descriptor from a separate one, gives
  back exactly the memory of the buffer, leaves the other live blocks valid, and
  the accounting returns to what it was before the allocation.
\<close>

theorem iob_alloc_free:
  fixes h :: heap
  assumes "pool.pool_ok h live" and "alloc_iob_raw [] vo len align offset h = Some (h1, Some b)"
    and "b' = b\<lparr>ib_data := data, ib_tail := tail\<rparr>"
  shows "\<exists>h2. free_iob [] vo (Some b') h1 = Some h2 \<and> pool.pool_ok h2 live \<and> usedmem h2 = usedmem h
    \<and> free_bytes (free_blocks h2) = free_bytes (free_blocks h1) \<union> \<Union> (block_region ` set (iob_blocks b))
    \<and> store h2 = store h"
proof -
  note al = alloc_iob_raw_ok [OF assms(1,2)]
  have bl: "iob_blocks b' = iob_blocks b" "iob_live h1 b' = iob_live h1 b"
    by (simp_all add: assms(3) iob_blocks_def iob_live_def)
  have "pool.pool_ok h1 (iob_blocks b' @ live)" "iob_live h1 b'" "store h1 = store h"
    using al(1,2) by (simp_all add: bl fresh_iob_def)
  then show ?thesis using free_iob_ok [of h1 b' live vo] al(3) bl(1) by (metis add_diff_cancel_right')
qed

theorem iob_alloc_free_witness:
  "\<exists>h2. free_iob [] 0 (Some (example_iob\<lparr>ib_data := 0x100104, ib_tail := 0x100108\<rparr>)) example_iob_heap = Some h2
     \<and> usedmem h2 = usedmem example_heap1"
  using iob_alloc_free [OF example_pool example_alloc_iob, where data = "0x100104" and tail = "0x100108"] by blast


section \<open>The accessors as operations on byte strings\<close>

definition bytes_at :: "(u64 \<Rightarrow> u8) \<Rightarrow> u64 \<Rightarrow> nat \<Rightarrow> u8 list" where
  "bytes_at m p n = map (\<lambda>i. m (p + of_nat i)) [0..<n]"

lemma bytes_at_length [simp]: "length (bytes_at m p n) = n"
  by (simp add: bytes_at_def)

lemma bytes_at_add: "bytes_at m p (k + n) = bytes_at m p k @ bytes_at m (p + of_nat k) n"
  unfolding bytes_at_def by (induction n) (auto simp: algebra_simps)

lemma bytes_at_add': "bytes_at m p (n + k) = bytes_at m p k @ bytes_at m (p + of_nat k) n"
  using bytes_at_add [of m p k n] by (simp add: add.commute)

lemma bytes_at_take: "k \<le> n \<Longrightarrow> take k (bytes_at m p n) = bytes_at m p k"
  using bytes_at_add [of m p k "n - k"] by simp

lemma bytes_at_drop: "k \<le> n \<Longrightarrow> drop k (bytes_at m p n) = bytes_at m (p + of_nat k) (n - k)"
  using bytes_at_add [of m p k "n - k"] by simp

text \<open>The contract: the bytes before the data, the data, and the bytes behind it.\<close>

type_synonym iob_strings = "u8 list \<times> u8 list \<times> u8 list"

definition iob_view :: "(u64 \<Rightarrow> u8) \<Rightarrow> io_buffer \<Rightarrow> iob_strings" where
  "iob_view m b = (bytes_at m (ib_head b) (unat (iob_headroom b)), bytes_at m (ib_data b) (unat (iob_len b)),
     bytes_at m (ib_tail b) (unat (iob_tailroom b)))"

datatype iob_op = Reserve u64 | Push u64 | Pull u64 | Put u64 | Unput u64 | Empty

fun iob_exec :: "iob_op \<Rightarrow> io_buffer \<Rightarrow> io_buffer" where
  "iob_exec (Reserve n) b = iob_reserve n b"
| "iob_exec (Push n) b = iob_push n b"
| "iob_exec (Pull n) b = iob_pull n b"
| "iob_exec (Put n) b = fst (iob_put n b)"
| "iob_exec (Unput n) b = iob_unput n b"
| "iob_exec Empty b = iob_empty b"

fun in_room :: "iob_op \<Rightarrow> io_buffer \<Rightarrow> bool" where
  "in_room (Reserve n) b = (n \<le> iob_tailroom b)"
| "in_room (Push n) b = (n \<le> iob_headroom b)"
| "in_room (Pull n) b = (n \<le> iob_len b)"
| "in_room (Put n) b = (n \<le> iob_tailroom b)"
| "in_room (Unput n) b = (n \<le> iob_len b)"
| "in_room Empty b = True"

fun view_exec :: "iob_op \<Rightarrow> iob_strings \<Rightarrow> iob_strings" where
  "view_exec (Reserve n) (x, c, y) =
     (x @ take (unat n) (c @ y), take (length c) (drop (unat n) (c @ y)), drop (unat n) y)"
| "view_exec (Push n) (x, c, y) = (take (length x - unat n) x, drop (length x - unat n) x @ c, y)"
| "view_exec (Pull n) (x, c, y) = (x @ take (unat n) c, drop (unat n) c, y)"
| "view_exec (Put n) (x, c, y) = (x, c @ take (unat n) y, drop (unat n) y)"
| "view_exec (Unput n) (x, c, y) = (x, take (length c - unat n) c, drop (length c - unat n) c @ y)"
| "view_exec Empty (x, c, y) = (x, [], c @ y)"

text \<open>The layout of an ordered buffer in terms of its three lengths.\<close>

lemma ordered_layout:
  assumes "iob_ordered b"
  shows "ib_data b = ib_head b + iob_headroom b" "ib_tail b = ib_data b + iob_len b"
    "ib_end b = ib_tail b + iob_tailroom b"
    "unat (ib_head b) + unat (iob_headroom b) + unat (iob_len b) + unat (iob_tailroom b) = unat (ib_end b)"
  using assms
  by (simp_all add: iob_ordered_def iob_headroom_def iob_len_def iob_tailroom_def unat_sub word_le_nat_alt)

lemma layout_ordered:
  assumes "unat (ib_head b) + x + c + y < 2 ^ 64" "ib_data b = ib_head b + of_nat x"
    "ib_tail b = ib_data b + of_nat c" "ib_end b = ib_tail b + of_nat y"
  shows "iob_ordered b \<and> iob_view m b = (bytes_at m (ib_head b) x, bytes_at m (ib_data b) c, bytes_at m (ib_tail b) y)"
proof -
  have n: "unat (of_nat x :: u64) = x" "unat (of_nat c :: u64) = c" "unat (of_nat y :: u64) = y"
    using assms(1) by (simp_all add: unat_of_nat_u64)
  then have "unat (ib_data b) = unat (ib_head b) + x"
    "unat (ib_tail b) = unat (ib_head b) + x + c" "unat (ib_end b) = unat (ib_head b) + x + c + y"
    using assms by (simp_all add: unat_word_ariths)
  then have "iob_ordered b" by (simp add: iob_ordered_def word_le_nat_alt)
  moreover have l: "unat (iob_headroom b) = x" "unat (iob_len b) = c" "unat (iob_tailroom b) = y"
    using n by (simp_all add: iob_headroom_def iob_len_def iob_tailroom_def assms(2-4))
  ultimately show ?thesis by (simp add: iob_view_def)
qed


lemma iob_exec_view:
  assumes "iob_ordered b" "in_room op b"
  shows "iob_ordered (iob_exec op b) \<and> iob_view m (iob_exec op b) = view_exec op (iob_view m b)"
proof -
  define x c y where "x = unat (iob_headroom b)" and "c = unat (iob_len b)" and "y = unat (iob_tailroom b)"
  note l = ordered_layout [OF assms(1)]
  have w: "iob_headroom b = of_nat x" "iob_len b = of_nat c" "iob_tailroom b = of_nat y"
    by (simp_all add: x_def c_def y_def)
  have bd: "unat (ib_head b) + x + c + y < 2 ^ 64" using l(4) unat_u64_less [of "ib_end b"] by (simp add: x_def c_def y_def)
  have pos: "ib_data b = ib_head b + of_nat x" "ib_tail b = ib_head b + of_nat x + of_nat c"
    "ib_end b = ib_head b + of_nat x + of_nat c + of_nat y"
    using l(1-3) by (simp_all add: w)
  have v: "iob_view m b = (bytes_at m (ib_head b) x, bytes_at m (ib_data b) c, bytes_at m (ib_tail b) y)"
    by (simp add: iob_view_def x_def c_def y_def)
  have all: "bytes_at m (ib_data b) c @ bytes_at m (ib_tail b) y = bytes_at m (ib_data b) (c + y)"
    by (simp add: bytes_at_add pos)
  show ?thesis
  proof (cases op)
    case (Reserve n)
    then have n: "unat n \<le> y" using assms(2) by (simp add: y_def word_le_nat_alt)
    show ?thesis using layout_ordered [of "iob_exec op b" "x + unat n" c "y - unat n" m] bd n
      unfolding v Reserve view_exec.simps all
      by (simp add: iob_reserve_def pos of_nat_diff algebra_simps bytes_at_take bytes_at_drop bytes_at_add [of _ _ x])
  next
    case (Push n)
    then have n: "unat n \<le> x" using assms(2) by (simp add: x_def word_le_nat_alt)
    show ?thesis using layout_ordered [of "iob_exec op b" "x - unat n" "c + unat n" y m] bd n
      unfolding v Push view_exec.simps
      by (simp add: iob_push_def pos of_nat_diff algebra_simps bytes_at_take bytes_at_drop bytes_at_add' [of _ _ c "unat n"])
  next
    case (Pull n)
    then have n: "unat n \<le> c" using assms(2) by (simp add: c_def word_le_nat_alt)
    show ?thesis using layout_ordered [of "iob_exec op b" "x + unat n" "c - unat n" y m] bd n
      unfolding v Pull view_exec.simps
      by (simp add: iob_pull_def pos of_nat_diff algebra_simps bytes_at_take bytes_at_drop bytes_at_add [of _ _ x])
  next
    case (Put n)
    then have n: "unat n \<le> y" using assms(2) by (simp add: y_def word_le_nat_alt)
    show ?thesis using layout_ordered [of "iob_exec op b" x "c + unat n" "y - unat n" m] bd n
      unfolding v Put view_exec.simps
      by (simp add: iob_put_def pos of_nat_diff algebra_simps bytes_at_take bytes_at_drop bytes_at_add [of _ _ c])
  next
    case (Unput n)
    then have n: "unat n \<le> c" using assms(2) by (simp add: c_def word_le_nat_alt)
    show ?thesis using layout_ordered [of "iob_exec op b" x "c - unat n" "y + unat n" m] bd n
      unfolding v Unput view_exec.simps
      by (simp add: iob_unput_def pos of_nat_diff algebra_simps bytes_at_take bytes_at_drop bytes_at_add' [of _ _ y "unat n"])
  next
    case Empty
    show ?thesis using layout_ordered [of "iob_exec op b" x 0 "c + y" m] bd
      unfolding v Empty view_exec.simps all by (simp add: iob_empty_def pos algebra_simps bytes_at_def)
  qed
qed


text \<open>A sequence of accessor calls, each within the room the buffer has.\<close>

fun iob_run :: "iob_op list \<Rightarrow> io_buffer \<Rightarrow> io_buffer option" where
  "iob_run [] b = Some b"
| "iob_run (op # ops) b = (if in_room op b then iob_run ops (iob_exec op b) else None)"

lemma iob_exec_frame:
  "ib_head (iob_exec op b) = ib_head b" "ib_end (iob_exec op b) = ib_end b" "ib_addr (iob_exec op b) = ib_addr b"
  by (cases op; simp add: iob_reserve_def iob_push_def iob_pull_def iob_put_def iob_unput_def iob_empty_def)+

text \<open>
  C10: the pointer arithmetic of the accessors implements operations on three
  byte strings, the bytes before the data, the data and the bytes behind it:
  along any sequence of calls within the room of the buffer, the buffer stays
  ordered, its head, end and descriptor stay where they are, and its three
  strings are those the abstract operations compute.
\<close>

theorem iob_accessors_refine:
  assumes "iob_ordered b" "iob_run ops b = Some b'"
  shows "iob_ordered b' \<and> iob_view m b' = fold view_exec ops (iob_view m b)
    \<and> (ib_head b', ib_end b', ib_addr b') = (ib_head b, ib_end b, ib_addr b)"
  using assms
proof (induction ops arbitrary: b)
  case (Cons op ops)
  then have r: "in_room op b" "iob_run ops (iob_exec op b) = Some b'" by (simp_all split: if_splits)
  note e = iob_exec_view [OF Cons.prems(1) r(1), of m]
  from Cons.IH [OF e [THEN conjunct1] r(2)] e show ?case by (simp add: iob_exec_frame)
qed simp

theorem iob_accessors_refine_witness:
  "iob_view (\<lambda>p. ucast p) (example_iob\<lparr>ib_end := 0x100106, ib_data := 0x100102, ib_tail := 0x100104\<rparr>)
    = fold view_exec [Reserve 3, Put 1, Push 1] ([], [], [0, 1, 2, 3, 4, 5])"
proof -
  let ?b = "example_iob\<lparr>ib_end := 0x100106\<rparr>"
  have o: "iob_ordered ?b" by (simp add: iob_ordered_def example_iob_def)
  have r: "iob_run [Reserve 3, Put 1, Push 1] ?b = Some (?b\<lparr>ib_data := 0x100102, ib_tail := 0x100104\<rparr>)"
    by (simp add: example_iob_def iob_reserve_def iob_put_def iob_push_def iob_tailroom_def iob_headroom_def)
  have v: "iob_view (\<lambda>p. ucast p) ?b = ([], [], [0, 1, 2, 3, 4, 5])"
    by (simp add: iob_view_def bytes_at_def example_iob_def iob_len_def iob_headroom_def iob_tailroom_def upt_rec)
  show ?thesis using iob_accessors_refine [OF o r, of "\<lambda>p. ucast p", unfolded v] by simp
qed

section \<open>Concatenating and splitting\<close>

definition iob_bytes :: "heap \<Rightarrow> io_buffer \<Rightarrow> u8 list" where
  "iob_bytes h b = bytes_at (store h) (ib_data b) (unat (iob_len b))"

text \<open>A buffer in use: ordered, inside its block, with its descriptor intact.\<close>

definition iob_ok :: "heap \<Rightarrow> io_buffer \<Rightarrow> bool" where
  "iob_ok h b \<longleftrightarrow> iob_live h b \<and> iob_ordered b
     \<and> unat (ib_end b) \<le> unat (ib_head b) + unat (actual_size (snd (hd (iob_blocks b))))"

lemma fresh_iob_ok: "fresh_iob len h h' b \<Longrightarrow> iob_ok h' b"
  by (simp add: fresh_iob_def iob_ok_def)

lemma iob_blocks_hd: "fst (hd (iob_blocks b)) = ib_head b" "hd (iob_blocks b) \<in> set (iob_blocks b)"
  by (simp_all add: iob_blocks_def)

lemma data_in_block:
  assumes "iob_ok h b" "i < unat (iob_len b)"
  shows "unat (ib_data b + of_nat i) \<in> block_region (hd (iob_blocks b))"
    "unat (ib_data b + of_nat i) = unat (ib_data b) + i"
proof -
  have o: "unat (ib_head b) \<le> unat (ib_data b)" "unat (ib_data b) + unat (iob_len b) \<le> unat (ib_end b)"
    "unat (ib_end b) \<le> unat (ib_head b) + unat (actual_size (snd (hd (iob_blocks b))))"
    using assms(1) by (auto simp: iob_ok_def iob_ordered_def iob_len_def word_le_nat_alt unat_sub)
  then have "unat (of_nat i :: u64) = i" using assms(2) unat_u64_less [of "ib_end b"] by (simp add: unat_of_nat_u64)
  then show e: "unat (ib_data b + of_nat i) = unat (ib_data b) + i"
    using o(2) assms(2) unat_u64_less [of "ib_end b"] by (simp add: unat_word_ariths)
  show "unat (ib_data b + of_nat i) \<in> block_region (hd (iob_blocks b))"
    using o assms(2) by (simp add: block_region_def iob_blocks_hd e)
qed


lemma memcpy_inside: "i < unat n \<Longrightarrow> memcpy to src n m (to + of_nat i) = m (src + of_nat i)"
proof -
  assume "i < unat n"
  then have "unat (of_nat i :: u64) = i" using unat_u64_less [of n] by (simp add: unat_of_nat_u64)
  with \<open>i < unat n\<close> show ?thesis by (simp add: memcpy_def word_less_nat_alt)
qed

lemma memcpy_outside:
  assumes "unat to + unat n < 2 ^ 64" "unat p \<notin> {unat to..<unat to + unat n}"
  shows "memcpy to src n m p = m p"
proof -
  have "\<not> p - to < n"
    using assms by (auto simp: word_less_nat_alt unat_sub_if' word_le_nat_alt split: if_splits)
  then show ?thesis by (simp add: memcpy_def)
qed

lemma bytes_at_cong: "(\<And>i. i < n \<Longrightarrow> m (p + of_nat i) = m' (q + of_nat i)) \<Longrightarrow> bytes_at m p n = bytes_at m' q n"
  by (simp add: bytes_at_def)

lemma disjoint_all_append:
  "disjoint_all region (xs @ ys) \<longleftrightarrow> disjoint_all region xs \<and> disjoint_all region ys
     \<and> (\<forall>x \<in> set xs. \<forall>y \<in> set ys. region x \<inter> region y = {})"
  by (induction xs) auto

lemma pool_ok_swap: "pool.pool_ok h (xs @ ys @ zs) \<longleftrightarrow> pool.pool_ok h (ys @ xs @ zs)"
proof -
  have "(\<forall>x \<in> set xs. \<forall>y \<in> set ys. block_region x \<inter> block_region y = {}) \<longleftrightarrow>
      (\<forall>y \<in> set ys. \<forall>x \<in> set xs. block_region y \<inter> block_region x = {})"
    by (metis Int_commute)
  then show ?thesis
    unfolding pool.pool_ok_def disjoint_all_append by (simp add: ball_Un ball_conj_distrib) argo
qed

lemma pool_ok_disjoint:
  assumes "pool.pool_ok h (xs @ ys @ zs)" "x \<in> set xs" "y \<in> set ys"
  shows "block_region x \<inter> block_region y = {}"
  using assms by (auto simp: pool.pool_ok_def disjoint_all_append)

text \<open>Appending the bytes of one buffer to another.\<close>

lemma append_data:
  assumes ok: "iob_ok h dest" "iob_ok h b" and room: "unat n \<le> unat (iob_tailroom dest)" "unat n \<le> unat (iob_len b)"
    and d': "dest' = fst (iob_put n dest)" and h': "h' = h\<lparr>store := memcpy (ib_tail dest) (ib_data b) n (store h)\<rparr>"
  shows "iob_ok h' dest'" "iob_blocks dest' = iob_blocks dest"
    "unat (iob_tailroom dest') = unat (iob_tailroom dest) - unat n" "unat (iob_len dest') = unat (iob_len dest) + unat n"
    "iob_bytes h' dest' = iob_bytes h dest @ take (unat n) (iob_bytes h b)"
    "unat p \<notin> block_region (hd (iob_blocks dest)) \<Longrightarrow> store h' p = store h p"
proof -
  have o: "iob_ordered dest" using ok(1) by (simp add: iob_ok_def)
  note l = ordered_layout [OF o]
  have r: "in_room (Put n) dest" using room(1) by (simp add: word_le_nat_alt)
  have d: "dest' = iob_exec (Put n) dest" by (simp add: d')
  have o': "iob_ordered dest'" unfolding d using iob_exec_view [OF o r] by blast
  show bl: "iob_blocks dest' = iob_blocks dest" by (simp add: d' iob_blocks_def iob_put_def)
  show "iob_ok h' dest'" using ok(1) o'
    by (simp add: iob_ok_def bl) (simp add: d' h' iob_live_def iob_put_def)
  have t: "ib_tail dest' = ib_tail dest + n" "ib_data dest' = ib_data dest" "ib_end dest' = ib_end dest"
    by (simp_all add: d' iob_put_def)
  have tl: "unat (ib_tail dest) + unat n \<le> unat (ib_end dest)"
    using o room(1) by (auto simp: iob_ordered_def iob_tailroom_def word_le_nat_alt unat_sub)
  then have end': "unat (ib_tail dest) + unat n < 2 ^ 64" using unat_u64_less [of "ib_end dest"] by simp
  then have tn: "unat (ib_tail dest + n) = unat (ib_tail dest) + unat n" by (simp add: unat_word_ariths)
  show "unat (iob_tailroom dest') = unat (iob_tailroom dest) - unat n"
    using tl o by (auto simp: iob_tailroom_def t iob_ordered_def unat_sub word_le_nat_alt tn)
  show len: "unat (iob_len dest') = unat (iob_len dest) + unat n"
    using o by (auto simp: iob_len_def t iob_ordered_def unat_sub word_le_nat_alt tn)
  have old: "store h' (ib_data dest + of_nat i) = store h (ib_data dest + of_nat i)" if i: "i < unat (iob_len dest)" for i
  proof -
    have "unat (ib_data dest + of_nat i) < unat (ib_tail dest)"
      using data_in_block(2) [OF ok(1) i] i o by (auto simp: iob_len_def iob_ordered_def unat_sub word_le_nat_alt)
    then show ?thesis unfolding h' by (simp add: memcpy_outside [OF end'])
  qed
  have new: "store h' (ib_tail dest + of_nat i) = store h (ib_data b + of_nat i)" if "i < unat n" for i
    unfolding h' using memcpy_inside [OF that] by simp
  have tp: "ib_data dest + of_nat (unat (iob_len dest)) = ib_tail dest" using l(2) by simp
  have "iob_bytes h' dest' = bytes_at (store h') (ib_data dest) (unat (iob_len dest))
      @ bytes_at (store h') (ib_tail dest) (unat n)"
    unfolding iob_bytes_def len t(2) bytes_at_add tp ..
  also have "bytes_at (store h') (ib_data dest) (unat (iob_len dest)) = iob_bytes h dest"
    unfolding iob_bytes_def by (rule bytes_at_cong) (rule old)
  also have "bytes_at (store h') (ib_tail dest) (unat n) = take (unat n) (iob_bytes h b)"
    unfolding iob_bytes_def bytes_at_take [OF room(2)] by (rule bytes_at_cong) (rule new)
  finally show "iob_bytes h' dest' = iob_bytes h dest @ take (unat n) (iob_bytes h b)" .
  assume "unat p \<notin> block_region (hd (iob_blocks dest))"
  moreover have "{unat (ib_tail dest)..<unat (ib_tail dest) + unat n} \<subseteq> block_region (hd (iob_blocks dest))"
    using ok(1) o tl by (auto simp: block_region_def iob_blocks_hd iob_ok_def iob_ordered_def word_le_nat_alt)
  ultimately have "unat p \<notin> {unat (ib_tail dest)..<unat (ib_tail dest) + unat n}" by blast
  then show "store h' p = store h p" unfolding h' using memcpy_outside [OF end'] by simp
qed


lemma concat_loop_ok:
  fixes h :: heap
  assumes "pool.pool_ok h (concat (map iob_blocks bs) @ iob_blocks dest @ live)"
    "\<forall>b \<in> set bs. iob_ok h b" "iob_ok h dest" "(\<Sum>b\<leftarrow>bs. unat (iob_len b)) \<le> unat (iob_tailroom dest)"
  shows "\<exists>h' dest'. concat_loop [] vo bs dest h = Some (h', dest') \<and> pool.pool_ok h' (iob_blocks dest' @ live)
    \<and> iob_ok h' dest' \<and> iob_bytes h' dest' = iob_bytes h dest @ concat (map (iob_bytes h) bs)
    \<and> (\<forall>p. unat p \<notin> block_region (hd (iob_blocks dest)) \<longrightarrow> store h' p = store h p)"
  using assms
proof (induction bs arbitrary: h dest)
  case (Cons b bs)
  define d1 where "d1 = fst (iob_put (iob_len b) dest)"
  define h1 where "h1 = h\<lparr>store := memcpy (ib_tail dest) (ib_data b) (iob_len b) (store h)\<rparr>"
  have okb: "iob_ok h b" and room: "unat (iob_len b) \<le> unat (iob_tailroom dest)" using Cons.prems by simp_all
  note a = append_data [OF Cons.prems(3) okb room order_refl d1_def h1_def]
  have bytes_b: "iob_bytes h1 d1 = iob_bytes h dest @ iob_bytes h b" using a(5) by (simp add: iob_bytes_def)
  have ok1: "pool.pool_ok h1 (iob_blocks b @ concat (map iob_blocks bs) @ iob_blocks d1 @ live)"
    using Cons.prems(1) by (simp add: h1_def a(2))
  have "iob_live h1 b" using okb by (simp add: iob_ok_def iob_live_def h1_def)
  from free_iob_ok [OF ok1 this] obtain h2 where
    h2: "free_iob [] vo (Some b) h1 = Some h2" "pool.pool_ok h2 (concat (map iob_blocks bs) @ iob_blocks d1 @ live)"
      "store h2 = store h1" "hdr h2 = hdr h1" by blast
  have "hdr h1 = hdr h" by (simp add: h1_def)
  note h2 = h2(1-3) h2(4) [unfolded this]
  have ok2: "iob_ok h2 x = iob_ok h x" for x by (simp add: iob_ok_def iob_live_def h2(4))
  have keep: "iob_bytes h2 x = iob_bytes h x" if x: "x \<in> set bs" for x
  proof -
    have "hd (iob_blocks x) \<in> set (concat (map iob_blocks (b # bs)))" "iob_ok h x"
      using x iob_blocks_hd(2) Cons.prems(2) by auto
    then have "block_region (hd (iob_blocks x)) \<inter> block_region (hd (iob_blocks dest)) = {}"
      using pool_ok_disjoint [OF Cons.prems(1)] iob_blocks_hd(2) by blast
    then show ?thesis unfolding iob_bytes_def h2(3)
      using data_in_block(1) [OF \<open>iob_ok h x\<close>] by (intro bytes_at_cong a(6)) blast
  qed
  have "iob_ok h2 d1" using a(1) by (simp add: iob_ok_def iob_live_def h2(4) h1_def)
  moreover have "(\<Sum>b\<leftarrow>bs. unat (iob_len b)) \<le> unat (iob_tailroom d1)" using Cons.prems(4) a(3) by simp
  moreover have "\<forall>x \<in> set bs. iob_ok h2 x" using Cons.prems(2) by (simp add: ok2)
  ultimately obtain h' dest' where
    "concat_loop [] vo bs d1 h2 = Some (h', dest')" "pool.pool_ok h' (iob_blocks dest' @ live)" "iob_ok h' dest'"
    "iob_bytes h' dest' = iob_bytes h2 d1 @ concat (map (iob_bytes h2) bs)"
    "\<forall>p. unat p \<notin> block_region (hd (iob_blocks dest)) \<longrightarrow> store h' p = store h2 p"
    using Cons.IH [of h2 d1] h2(2) unfolding a(2) by blast
  moreover have "map (iob_bytes h2) bs = map (iob_bytes h) bs" using keep by simp
  moreover have "iob_bytes h2 d1 = iob_bytes h dest @ iob_bytes h b" using bytes_b by (simp add: iob_bytes_def h2(3))
  moreover have "concat_loop [] vo (b # bs) dest h = concat_loop [] vo bs d1 h2"
    using h2(1) by (simp add: iob_put_def d1_def h1_def)
  moreover have "\<forall>p. unat p \<notin> block_region (hd (iob_blocks dest)) \<longrightarrow> store h2 p = store h p" using a(6) h2(3) by simp
  ultimately show ?case by auto
qed simp


lemma alloc_memblock_total: "\<exists>h' ptr. alloc_memblock [] vo n align offset h = Some (h', ptr)"
  using alloc_loop_returns [of "[]" "\<lambda>_. 0" vo "actual_size n" "align_mask align" offset h]
  by (auto simp: alloc_memblock_def)

lemma alloc_iob_raw_total: "\<exists>h' r. alloc_iob_raw [] vo len align offset h = Some (h', r)"
proof -
  have t: "alloc_memblock [] vo n a off h \<noteq> None" for n a off h using alloc_memblock_total by fastforce
  have m: "malloc [] vo n h \<noteq> None" for n h
    by (auto simp: malloc_def realloc_def Let_def t split: option.splits)
  have "alloc_iob_raw [] vo len align offset h \<noteq> None"
    by (auto simp: alloc_iob_raw_def Let_def malloc_dma_offset_def t m split: option.splits)
  then show ?thesis by auto
qed

lemma alloc_iob_raw_None:
  fixes h :: heap
  assumes ok: "pool.pool_ok h live" and ret: "alloc_iob_raw [] vo len align offset h = Some (h', None)"
  shows "pool.pool_ok h' live \<and> store h' = store h \<and> hdr h' = hdr h"
proof -
  have wf: "heap_wf h" using ok by (simp add: pool.pool_ok_def)
  have s: "SIZEOF_IO_BUFFER \<noteq> 0" "\<not> SIZEOF_IO_BUFFER + DATA_OFFSET < SIZEOF_IO_BUFFER"
    by (simp_all add: SIZEOF_IO_BUFFER_def DATA_OFFSET_def)
  have m: "h2 = h1" if mal: "malloc [] vo SIZEOF_IO_BUFFER h1 = Some (h2, NULL)" and wf1: "heap_wf h1" for h1 h2 :: heap
  proof -
    obtain h3 blk where al: "alloc_memblock [] vo (SIZEOF_IO_BUFFER + DATA_OFFSET) 1 0 h1 = Some (h3, blk)"
      using alloc_memblock_total by blast
    have "blk = NULL"
    proof (rule ccontr)
      assume "blk \<noteq> NULL"
      with al have "heap_acquire vo (SIZEOF_IO_BUFFER + DATA_OFFSET, 1, 0) h1 = Some (h3, (blk, SIZEOF_IO_BUFFER + DATA_OFFSET))"
        by (simp add: heap_acquire_def)
      from pool.acquire_law [OF wf1 this] have "block_valid (blk, 56)"
        by (simp add: SIZEOF_IO_BUFFER_def DATA_OFFSET_def)
      then have "unat (blk + DATA_OFFSET) = unat blk + 8" using block_end [of blk 56]
        by (simp add: DATA_OFFSET_def unat_word_ariths)
      then have "blk + DATA_OFFSET \<noteq> NULL" by (auto simp: NULL_def)
      with mal al s \<open>blk \<noteq> NULL\<close> show False by (simp add: malloc_def realloc_def Let_def)
    qed
    with mal al s have "h2 = h3" by (simp add: malloc_def realloc_def Let_def)
    with al \<open>blk = NULL\<close> show ?thesis using alloc_memblock_NULL wf1 by blast
  qed
  from ret consider "h' = h"
    | n a d where "alloc_memblock [] vo n a offset h = Some (h', d)" "d = NULL"
    | n a h1 d h2 where "alloc_memblock [] vo n a offset h = Some (h1, d)" "d \<noteq> NULL"
        "malloc [] vo SIZEOF_IO_BUFFER h1 = Some (h2, NULL)" "h' = free_memblock d n h2"
    by (auto simp: alloc_iob_raw_def Let_def malloc_dma_offset_def free_dma_def split: if_splits option.splits)
  then show ?thesis
  proof cases
    case 2
    then have "h' = h" using alloc_memblock_NULL wf by blast
    with ok show ?thesis by simp
  next
    case (3 n a h1 d h2)
    have acq: "heap_acquire vo (n, a, offset) h = Some (h1, (d, n))" using 3 by (simp add: heap_acquire_def)
    note ok1 = pool.pool_ok_acquire [OF ok acq]
    then have "h2 = h1" using m 3(3) by (auto simp: pool.pool_ok_def)
    then have "h' = heap_release (d, n) h1" using 3(4) by (simp add: heap_release_def)
    then show ?thesis
      using pool.pool_ok_release [OF ok1, of "(d, n)"] acquire_frame(1,2) [OF wf acq] 3(2)
      by (simp add: heap_release_def free_memblock_def Let_def)
  qed (use ok in simp)
qed


text \<open>Buffers in use do not overlap, so their lengths cannot add up to more than the address space.\<close>

lemma total_length:
  assumes "disjoint_all block_region (concat (map iob_blocks bs))" "\<forall>b \<in> set bs. iob_ok h b"
  shows "(\<Sum>b\<leftarrow>bs. unat (iob_len b)) \<le> card (\<Union> (block_region ` set (concat (map iob_blocks bs))))"
  using assms
proof (induction bs)
  case (Cons b bs)
  let ?R = "\<Union> (block_region ` set (concat (map iob_blocks bs)))" and ?B = "block_region (hd (iob_blocks b))"
  have fin: "finite (block_region x)" for x by (simp add: block_region_def)
  have o: "iob_ordered b" "unat (ib_end b) \<le> unat (ib_head b) + unat (actual_size (snd (hd (iob_blocks b))))"
    using Cons.prems(2) by (simp_all add: iob_ok_def)
  then have "unat (iob_len b) \<le> card ?B"
    by (auto simp: iob_ordered_def iob_len_def unat_sub word_le_nat_alt block_region_def)
  moreover have "?B \<inter> ?R = {}" using Cons.prems(1) iob_blocks_hd(2) [of b] by (auto simp: disjoint_all_append)
  moreover have "(\<Sum>b\<leftarrow>bs. unat (iob_len b)) \<le> card ?R" using Cons by (simp add: disjoint_all_append)
  ultimately have "(\<Sum>b\<leftarrow>b # bs. unat (iob_len b)) \<le> card (?B \<union> ?R)"
    by (subst card_Un_disjoint) (auto intro: fin)
  also have "\<dots> \<le> card (\<Union> (block_region ` set (concat (map iob_blocks (b # bs)))))"
    using iob_blocks_hd(2) [of b] by (intro card_mono) (auto intro: fin)
  finally show ?case .
qed simp

lemma unat_sum_list: "unat (sum_list ws) = sum_list (map unat ws) mod 2 ^ 64" for ws :: "u64 list"
  by (induction ws) (simp_all add: unat_word_ariths mod_add_right_eq)

lemma sum_lengths:
  assumes "pool.pool_ok h (concat (map iob_blocks bs) @ live)" "\<forall>b \<in> set bs. iob_ok h b"
  shows "unat (sum_list (map iob_len bs)) = (\<Sum>b\<leftarrow>bs. unat (iob_len b))"
proof -
  let ?U = "\<Union> (block_region ` set (concat (map iob_blocks bs)))"
  have "block_region x \<subseteq> {0..<2 ^ 63}" if "block_valid x" for x
    using that by (auto simp: block_valid_def block_region_def)
  then have "?U \<subseteq> {0..<2 ^ 63}" using assms(1) by (fastforce simp: pool.pool_ok_def)
  then have "card ?U \<le> card {0..<(2::nat) ^ 63}" by (intro card_mono) auto
  moreover have "(\<Sum>b\<leftarrow>bs. unat (iob_len b)) \<le> card ?U"
    using total_length assms by (auto simp: pool.pool_ok_def disjoint_all_append)
  ultimately have "(\<Sum>b\<leftarrow>bs. unat (iob_len b)) < 2 ^ 64" by simp
  then show ?thesis unfolding unat_sum_list by (simp add: comp_def)
qed

lemma fresh_bytes: "fresh_iob len h h' b \<Longrightarrow> iob_bytes h' b = [] \<and> iob_len b = 0 \<and> len \<le> iob_tailroom b"
  by (simp add: fresh_iob_def iob_bytes_def iob_len_def iob_tailroom_def bytes_at_def)

text \<open>An allocation leaves the buffers in use as they are.\<close>

lemma fresh_keeps:
  fixes h :: heap
  assumes "fresh_iob len h h' d" "pool.pool_ok h (iob_blocks b @ live)" "iob_ok h b"
  shows "iob_ok h' b"
proof (cases "ib_end b = ib_addr b")
  case False
  let ?y = "(ib_addr b - DATA_OFFSET, SIZEOF_IO_BUFFER + DATA_OFFSET)"
  have "?y \<in> set (iob_blocks b)" using False by (simp add: iob_blocks_def)
  then have y: "block_valid ?y" "block_region ?y \<inter> free_bytes (free_blocks h) = {}"
    using assms(2) by (auto simp: pool.pool_ok_def)
  then have "unat (ib_addr b - DATA_OFFSET) \<notin> free_bytes (free_blocks h)" using block_region_nonempty by fastforce
  then have "hdr h' (ib_addr b - DATA_OFFSET) = hdr h (ib_addr b - DATA_OFFSET)"
    using assms(1) unfolding fresh_iob_def by blast
  then show ?thesis using assms(3) by (simp add: iob_ok_def iob_live_def)
qed (use assms(3) in \<open>simp add: iob_ok_def iob_live_def\<close>)


lemma pool_ok_of_member:
  assumes "pool.pool_ok h (concat (map iob_blocks bs) @ live)" "b \<in> set bs"
  shows "pool.pool_ok h (iob_blocks b @ [])"
proof -
  obtain xs ys where "bs = xs @ b # ys" using assms(2) split_list by metis
  with assms(1) show ?thesis by (simp add: pool.pool_ok_def disjoint_all_append ball_Un)
qed


definition example_iob2 :: io_buffer where
  "example_iob2 = example_iob\<lparr>ib_data := 0x100101, ib_tail := 0x100104\<rparr>"

lemma example_iob2_ok: "iob_ok example_iob_heap example_iob2"
proof -
  have "unat (actual_size 136) = 160" by (simp add: unat_actual_size)
  then show ?thesis
    by (simp add: iob_ok_def iob_live_def iob_ordered_def example_iob2_def example_iob_def iob_blocks_def SIZEOF_IO_BUFFER_def)
qed

lemma example_iob2_pool: "pool.pool_ok example_iob_heap (iob_blocks example_iob2 @ [(0x100000, 100)])"
proof -
  have "iob_blocks example_iob2 = iob_blocks example_iob" by (simp add: example_iob2_def iob_blocks_def)
  then show ?thesis using alloc_iob_raw_ok(1) [OF example_pool example_alloc_iob] by simp
qed

definition example_iob3 :: io_buffer where
  "example_iob3 = \<lparr> ib_addr = 0x100090, ib_head = 0x100080, ib_data = 0x100080, ib_tail = 0x100080, ib_end = 0x100090 \<rparr>"

definition example_iob_heap3 :: heap where
  "example_iob_heap3 = example_heap1\<lparr>free_blocks := [\<lparr>mb_addr = 0x1000c0, mb_size = 0x40\<rparr>,
       \<lparr>mb_addr = 0x1001a0, mb_size = 0x7fe60\<rparr>],
     freemem := 0x7fea0, usedmem := 0x160, maxusedmem := 0x160\<rparr>"

lemma example_alloc_iob3: "alloc_iob_raw [] 0 9 8 0 example_iob_heap = Some (example_iob_heap3, Some example_iob3)"
proof -
  have "fls 54 = 6" by (simp add: fls_def flsll_def Let_def)
  then show ?thesis
    by (simp add: alloc_iob_raw_def malloc_dma_offset_def Let_def SIZEOF_IO_BUFFER_def ALIGNOF_IO_BUFFER_def
        heap_eval example_heap1_def example_iob_heap_def example_iob_heap3_def empty_heap_def
        populate_descriptor_def example_iob3_def)
qed



lemma pull_bytes:
  assumes "iob_ok h b" "len \<le> iob_len b"
  shows "iob_bytes h (iob_pull len b) = drop (unat len) (iob_bytes h b)" "iob_ok h (iob_pull len b)"
    "iob_blocks (iob_pull len b) = iob_blocks b"
proof -
  have o: "iob_ordered b" "in_room (Pull len) b" using assms by (simp_all add: iob_ok_def)
  from iob_exec_view [OF o, of "store h"]
  show "iob_bytes h (iob_pull len b) = drop (unat len) (iob_bytes h b)" by (simp add: iob_view_def iob_bytes_def)
  show bl: "iob_blocks (iob_pull len b) = iob_blocks b" by (simp add: iob_blocks_def iob_pull_def)
  from iob_exec_view [OF o, of "store h"] show "iob_ok h (iob_pull len b)"
    using assms(1) by (simp add: iob_ok_def bl) (simp add: iob_live_def iob_pull_def)
qed

text \<open>
  C35: \<open>iob_split()\<close> always returns.  On success the new buffer holds the first
  \<open>len\<close> bytes and the old one the rest, in disjoint memory; on an allocation
  failure the buffer is unmodified.
\<close>

theorem iob_split_contents:
  fixes h :: heap
  assumes ok: "pool.pool_ok h (iob_blocks b @ live)" and b: "iob_ok h b" and len: "len \<le> iob_len b"
  shows "\<exists>h' b' r. iob_split [] vo len b h = Some (h', b', r)
    \<and> (case r of
         None \<Rightarrow> b' = b \<and> pool.pool_ok h' (iob_blocks b @ live) \<and> store h' = store h
       | Some new \<Rightarrow> pool.pool_ok h' (iob_blocks new @ iob_blocks b' @ live) \<and> iob_ok h' new \<and> iob_ok h' b'
           \<and> iob_bytes h' new = take (unat len) (iob_bytes h b)
           \<and> iob_bytes h' b' = drop (unat len) (iob_bytes h b))"
proof -
  define n where "n = (if len < IOB_ZLEN then IOB_ZLEN else len)"
  obtain h1 r where al: "alloc_iob_raw [] vo n n 0 h = Some (h1, r)" using alloc_iob_raw_total by blast
  then have al': "alloc_iob [] vo len h = Some (h1, r)" unfolding alloc_iob_def n_def Let_def .
  show ?thesis
  proof (cases r)
    case None
    then show ?thesis using alloc_iob_raw_None [OF ok] al al' by (simp add: iob_split_def)
  next
    case (Some d)
    note a = alloc_iob_raw_ok(1,2) [OF ok al [unfolded Some]]
    note f = fresh_bytes [OF a(2)]
    have st: "store h1 = store h" using a(2) by (simp add: fresh_iob_def)
    have b1: "iob_ok h1 b" by (rule fresh_keeps [OF a(2) ok b])
    define h2 where "h2 = h1\<lparr>store := memcpy (ib_tail d) (ib_data b) len (store h1)\<rparr>"
    define d2 where "d2 = fst (iob_put len d)"
    have "len \<le> n" by (auto simp: n_def)
    then have r1: "unat len \<le> unat (iob_tailroom d)" using f by (simp add: word_le_nat_alt)
    have r2: "unat len \<le> unat (iob_len b)" using len by (simp add: word_le_nat_alt)
    note p = append_data [OF fresh_iob_ok [OF a(2)] b1 r1 r2 d2_def h2_def]
    have b2: "iob_ok h2 b" using b1 by (simp add: iob_ok_def iob_live_def h2_def)
    have "block_region (hd (iob_blocks d)) \<inter> block_region (hd (iob_blocks b)) = {}"
      by (rule pool_ok_disjoint [OF a(1)]) (simp_all add: iob_blocks_hd)
    then have "store h2 (ib_data b + of_nat i) = store h (ib_data b + of_nat i)" if "i < unat (iob_len b)" for i
      unfolding st [symmetric] using data_in_block(1) [OF b1 that] by (intro p(6)) blast
    then have same: "iob_bytes h2 b = iob_bytes h b" unfolding iob_bytes_def by (intro bytes_at_cong)
    have "iob_bytes h1 b = iob_bytes h b" by (simp add: iob_bytes_def st)
    then have new: "iob_bytes h2 d2 = take (unat len) (iob_bytes h b)" using p(5) f by simp
    note q = pull_bytes [OF b2 len]
    have "pool.pool_ok h2 (iob_blocks d2 @ iob_blocks (iob_pull len b) @ live)"
      using a(1) by (simp add: p(2) q(3) h2_def)
    moreover have "iob_split [] vo len b h = Some (h2, iob_pull len b, Some d2)"
      by (simp add: iob_split_def al' Some h2_def d2_def iob_put_def)
    ultimately show ?thesis using p(1) q(1,2) new same by simp
  qed
qed

theorem iob_split_contents_witness:
  "\<exists>h' b' r. iob_split [] 0 2 example_iob2 example_iob_heap = Some (h', b', r)
     \<and> (\<forall>new. r = Some new \<longrightarrow> iob_bytes h' new = take 2 (iob_bytes example_iob_heap example_iob2))"
proof -
  have "(2::u64) \<le> iob_len example_iob2" by (simp add: example_iob2_def iob_len_def)
  from iob_split_contents [OF example_iob2_pool example_iob2_ok this, of 0] show ?thesis by fastforce
qed

end
