(* ===== verification/Digest.thy ===== *)
theory Digest
  imports Bytes
begin

text \<open>
  What the message digest algorithms have in common (\<open>include/ipxe/crypto.h\<close>,
  \<open>include/ipxe/rotate.h\<close>): the algorithm descriptor, the context that
  accumulates bytes in a block, and the contract that their \<open>update\<close> and
  \<open>final\<close> functions keep: however the message is cut into pieces, the digest is
  the compression of the blocks of the padded message.
\<close>

section \<open>Digest algorithms\<close>

record 'c digest_algorithm =
  da_name :: string
  da_blocksize :: nat
  da_digestsize :: nat
  da_init :: "'c \<Rightarrow> 'c"
  da_update :: "'c \<Rightarrow> u8 list \<Rightarrow> 'c"
  da_final :: "'c \<Rightarrow> ('c \<times> u8 list) option"

definition digest_init :: "'c digest_algorithm \<Rightarrow> 'c \<Rightarrow> 'c" where
  "digest_init digest ctx = da_init digest ctx"

definition digest_update :: "'c digest_algorithm \<Rightarrow> 'c \<Rightarrow> u8 list \<Rightarrow> 'c" where
  "digest_update digest ctx data = da_update digest ctx data"

definition digest_final :: "'c digest_algorithm \<Rightarrow> 'c \<Rightarrow> ('c \<times> u8 list) option" where
  "digest_final digest ctx = da_final digest ctx"

text \<open>The context: the length so far, the bytes of the digest words and of the data block.\<close>

record digest_context =
  ctx_len :: u64
  ctx_digest :: "u8 list"
  ctx_data :: "u8 list"

section \<open>Rotation and byte order\<close>

definition rol32 :: "u32 \<Rightarrow> nat \<Rightarrow> u32" where
  "rol32 data rotation = push_bit rotation data OR drop_bit (32 - rotation) data"

definition ror32 :: "u32 \<Rightarrow> nat \<Rightarrow> u32" where
  "ror32 data rotation = drop_bit rotation data OR push_bit (32 - rotation) data"

definition ror64 :: "u64 \<Rightarrow> nat \<Rightarrow> u64" where
  "ror64 data rotation = drop_bit rotation data OR push_bit (64 - rotation) data"

definition cpu_to_be32 :: "u32 \<Rightarrow> u8 list" where
  "cpu_to_be32 x = htonl x"

definition be32_to_cpu :: "u8 list \<Rightarrow> u32" where
  "be32_to_cpu bs = ntohl bs"

definition cpu_to_le32 :: "u32 \<Rightarrow> u8 list" where
  "cpu_to_le32 x = rev (htonl x)"

definition le32_to_cpu :: "u8 list \<Rightarrow> u32" where
  "le32_to_cpu bs = ntohl (rev bs)"

definition cpu_to_be64 :: "u64 \<Rightarrow> u8 list" where
  "cpu_to_be64 x = htonl (ucast (drop_bit 32 x)) @ htonl (ucast x)"

definition be64_to_cpu :: "u8 list \<Rightarrow> u64" where
  "be64_to_cpu bs = push_bit 32 (ucast (ntohl (take 4 bs))) OR ucast (ntohl (drop 4 bs))"

definition cpu_to_le64 :: "u64 \<Rightarrow> u8 list" where
  "cpu_to_le64 x = rev (cpu_to_be64 x)"

text \<open>The words of a byte string and the blocks of a message.\<close>

definition blocks :: "nat \<Rightarrow> 'a list \<Rightarrow> 'a list list" where
  "blocks n xs = map (\<lambda>i. take n (drop (n * i) xs)) [0..<length xs div n]"

lemma rotl_shifts:
  fixes x :: "'a::len word"
  assumes "0 < r" "r < LENGTH('a)"
  shows "push_bit r x OR drop_bit (LENGTH('a) - r) x = word_rotl r x"
proof (rule bit_word_eqI)
  fix n assume n: "n < LENGTH('a)"
  show "bit (push_bit r x OR drop_bit (LENGTH('a) - r) x) n = bit (word_rotl r x) n"
  proof (cases "r \<le> n")
    case True
    then have "(n + (LENGTH('a) - r)) mod LENGTH('a) = n - r" and "\<not> LENGTH('a) - r + n < LENGTH('a)"
      using n assms by (simp_all add: mod_if)
    with n assms True show ?thesis
      by (auto simp: bit_simps bit_word_rotl_iff dest: bit_imp_le_length)
  next
    case False
    with n assms show ?thesis by (auto simp: bit_simps bit_word_rotl_iff add.commute)
  qed
qed

lemma rotr_shifts:
  fixes x :: "'a::len word"
  assumes "0 < r" "r < LENGTH('a)"
  shows "drop_bit r x OR push_bit (LENGTH('a) - r) x = word_rotr r x"
proof (rule bit_word_eqI)
  fix n assume n: "n < LENGTH('a)"
  show "bit (drop_bit r x OR push_bit (LENGTH('a) - r) x) n = bit (word_rotr r x) n"
  proof (cases "n + r < LENGTH('a)")
    case True
    with n assms show ?thesis by (auto simp: bit_simps bit_word_rotr_iff add.commute)
  next
    case False
    then have "(n + r) mod LENGTH('a) = n - (LENGTH('a) - r)" using n assms by (simp add: mod_if)
    with n assms False show ?thesis
      by (auto simp: bit_simps bit_word_rotr_iff add.commute dest: bit_imp_le_length)
  qed
qed

lemma rol32_rotl: "0 < r \<Longrightarrow> r < 32 \<Longrightarrow> rol32 x r = word_rotl r x"
  using rotl_shifts [of r x] by (simp add: rol32_def)

lemma ror32_rotr: "0 < r \<Longrightarrow> r < 32 \<Longrightarrow> ror32 x r = word_rotr r x"
  using rotr_shifts [of r x] by (simp add: ror32_def)

lemma ror64_rotr: "0 < r \<Longrightarrow> r < 64 \<Longrightarrow> ror64 x r = word_rotr r x"
  using rotr_shifts [of r x] by (simp add: ror64_def)

lemma length_be64 [simp]: "length (cpu_to_be64 x) = 8" "length (cpu_to_le64 x) = 8"
  by (simp_all add: cpu_to_be64_def cpu_to_le64_def)

lemma length_32 [simp]: "length (cpu_to_be32 x) = 4" "length (cpu_to_le32 x) = 4"
  by (simp_all add: cpu_to_be32_def cpu_to_le32_def)

lemma to_from_32 [simp]: "be32_to_cpu (cpu_to_be32 x) = x" "le32_to_cpu (cpu_to_le32 x) = x"
  by (simp_all add: be32_to_cpu_def cpu_to_be32_def le32_to_cpu_def cpu_to_le32_def)

lemma to_from_64 [simp]: "be64_to_cpu (cpu_to_be64 x) = x"
proof (rule bit_word_eqI)
  fix n assume "n < LENGTH(64)"
  then show "bit (be64_to_cpu (cpu_to_be64 x)) n = bit x n"
    by (cases "n < 32") (auto simp: be64_to_cpu_def cpu_to_be64_def bit_simps)
qed

lemma length_blocks [simp]: "length (blocks n xs) = length xs div n"
  by (simp add: blocks_def)

lemma blocks_append:
  assumes n: "0 < n" and m: "length xs mod n = 0"
  shows "blocks n (xs @ ys) = blocks n xs @ blocks n ys"
proof -
  let ?p = "length xs div n"
  have p: "n * ?p = length xs" using m by (metis add.right_neutral mult_div_mod_eq)
  then have "length (xs @ ys) div n = ?p + length ys div n"
    using n by (metis div_mult_self2 length_append add.commute less_numeral_extra(3))
  then have "blocks n (xs @ ys) = map (\<lambda>i. take n (drop (n * i) (xs @ ys))) ([0..<?p] @ map (\<lambda>i. i + ?p) [0..<length ys div n])"
    unfolding blocks_def map_add_upt by (simp add: upt_add_eq_append [of 0 ?p] add.commute)
  also have "\<dots> = map (\<lambda>i. take n (drop (n * i) (xs @ ys))) [0..<?p]
      @ map (\<lambda>i. take n (drop (n * (i + ?p)) (xs @ ys))) [0..<length ys div n]" by simp
  also have "map (\<lambda>i. take n (drop (n * i) (xs @ ys))) [0..<?p] = blocks n xs" unfolding blocks_def
  proof (rule map_cong [OF refl])
    fix i assume "i \<in> set [0..<?p]"
    then have "n * Suc i \<le> n * ?p" by (intro mult_le_mono2) simp
    then show "take n (drop (n * i) (xs @ ys)) = take n (drop (n * i) xs)" by (simp add: p)
  qed
  also have "map (\<lambda>i. take n (drop (n * (i + ?p)) (xs @ ys))) [0..<length ys div n] = blocks n ys"
    unfolding blocks_def by (rule map_cong [OF refl]) (simp add: distrib_left p)
  finally show ?thesis .
qed

lemma blocks_short: "length xs < n \<Longrightarrow> blocks n xs = []"
  by (simp add: blocks_def)

lemma blocks_single: "length xs = n \<Longrightarrow> 0 < n \<Longrightarrow> blocks n xs = [xs]"
  by (simp add: blocks_def)

text \<open>The words of the digest and of the data block, read as one array.\<close>

lemma dwords:
  assumes "0 < k" "length h = k * n" "dword = map f (blocks k (h @ b))"
  shows "take n dword = map f (blocks k h)" "drop n dword = map f (blocks k b)"
    "i < n \<Longrightarrow> dword ! i = map f (blocks k h) ! i" "length (drop n dword) = length b div k"
proof -
  have d: "dword = map f (blocks k h) @ map f (blocks k b)"
    unfolding assms(3) using assms(1,2) by (subst blocks_append) simp_all
  moreover have "length (map f (blocks k h)) = n" using assms(1,2) by simp
  ultimately show "take n dword = map f (blocks k h)" "drop n dword = map f (blocks k b)"
    "i < n \<Longrightarrow> dword ! i = map f (blocks k h) ! i" "length (drop n dword) = length b div k"
    by (simp_all add: nth_append)
qed

lemma list_nths:
  "length xs = 4 \<Longrightarrow> xs = [xs ! 0, xs ! 1, xs ! 2, xs ! 3]"
  "length xs = 5 \<Longrightarrow> xs = [xs ! 0, xs ! 1, xs ! 2, xs ! 3, xs ! 4]"
  "length xs = 8 \<Longrightarrow> xs = [xs ! 0, xs ! 1, xs ! 2, xs ! 3, xs ! 4, xs ! 5, xs ! 6, xs ! 7]"
  by (rule nth_equalityI; auto simp: less_Suc_eq numeral_eq_Suc)+

lemma length_concat_words:
  "length (concat (map cpu_to_le32 ws)) = 4 * length ws" "length (concat (map cpu_to_be32 ws)) = 4 * length ws"
  "length (concat (map cpu_to_le64 vs)) = 8 * length vs" "length (concat (map cpu_to_be64 vs)) = 8 * length vs"
  by (simp_all add: length_concat comp_def sum_list_triv)

section \<open>Loops\<close>

text \<open>A loop simulates another when its steps do, under an invariant of its state.\<close>

lemma foldl_sim:
  assumes "\<And>v i. i < n \<Longrightarrow> P v \<Longrightarrow> out (step v i) = op (out v) i \<and> P (step v i)" "P v"
  shows "out (foldl step v [0..<n]) = foldl op (out v) [0..<n]"
proof -
  have "m \<le> n \<Longrightarrow> out (foldl step v [0..<m]) = foldl op (out v) [0..<m] \<and> P (foldl step v [0..<m])" for m
    by (induction m) (simp_all add: assms)
  then show ?thesis by simp
qed

lemma schedule:
  assumes "\<And>i. 16 \<le> i \<Longrightarrow> i < n \<Longrightarrow> ext (map W [0..<i]) i = map W [0..<i] @ [W i]" "16 \<le> n"
  shows "foldl ext (map W [0..<16]) [16..<n] = map W [0..<n]"
proof -
  have "16 \<le> m \<Longrightarrow> m \<le> n \<Longrightarrow> foldl ext (map W [0..<16]) [16..<m] = map W [0..<m]" for m
    by (induction m rule: nat_induct_at_least) (simp_all add: assms(1))
  from this [OF assms(2)] show ?thesis by simp
qed

section \<open>The contract of an update function\<close>

text \<open>
  An \<open>update\<close> function stores each byte behind the previous one in the data
  block and runs the compression when the block is full.  \<open>absorbed\<close> says
  what a context holds after a message: its length, the compression of its
  complete blocks, and its last incomplete block.
\<close>

locale block_digest =
  fixes dg :: "'a digest_context_scheme \<Rightarrow> 'a digest_context_scheme"
    and upd :: "'a digest_context_scheme \<Rightarrow> u8 list \<Rightarrow> 'a digest_context_scheme"
    and compress :: "u8 list \<Rightarrow> u8 list \<Rightarrow> u8 list"
    and B D :: nat
  assumes B: "0 < B" "B dvd 2 ^ 64"
    and upd_Nil: "upd c [] = c"
    and upd_Cons: "upd c (x # xs) =
      (let c1 = c\<lparr>ctx_data := (ctx_data c)[unat (ctx_len c) mod B := x], ctx_len := ctx_len c + 1\<rparr>
       in upd (if unat (ctx_len c1) mod B = 0 then dg c1 else c1) xs)"
    and dg: "length (ctx_digest c) = D \<Longrightarrow> length (ctx_data c) = B \<Longrightarrow>
      ctx_len (dg c) = ctx_len c \<and> ctx_digest (dg c) = compress (ctx_digest c) (ctx_data c)
      \<and> length (ctx_data (dg c)) = B \<and> digest_context.more (dg c) = digest_context.more c"
    and compress: "length d = D \<Longrightarrow> length b = B \<Longrightarrow> length (compress d b) = D"
begin

definition absorbed :: "u8 list \<Rightarrow> 'a digest_context_scheme \<Rightarrow> u8 list \<Rightarrow> bool" where
  "absorbed iv c msg \<longleftrightarrow> length (ctx_digest c) = D \<and> length (ctx_data c) = B
     \<and> ctx_len c = of_nat (length msg) \<and> ctx_digest c = foldl compress iv (blocks B msg)
     \<and> take (length msg mod B) (ctx_data c) = drop (length msg - length msg mod B) msg"

lemma len_mod: "unat (of_nat n :: u64) mod B = n mod B"
  using B(2) by (simp add: unat_of_nat mod_mod_cancel)

lemma absorb_byte:
  assumes "absorbed iv c msg"
  shows "\<exists>c'. absorbed iv c' (msg @ [x]) \<and> (\<forall>xs. upd c (x # xs) = upd c' xs)
    \<and> digest_context.more c' = digest_context.more c"
proof -
  let ?L = "length msg" and ?r = "length msg mod B"
  define m0 tl where "m0 = take (?L - ?r) msg" and "tl = drop (?L - ?r) msg"
  have msg: "msg = m0 @ tl" by (simp add: m0_def tl_def)
  then have e: "msg @ [x] = m0 @ tl @ [x]" by simp
  have m0: "length m0 mod B = 0" by (simp add: m0_def minus_mod_eq_mult_div)
  have tl: "length tl = ?r" "?r < B" using B(1) by (simp_all add: tl_def)
  define c1 where "c1 = c\<lparr>ctx_data := (ctx_data c)[unat (ctx_len c) mod B := x], ctx_len := ctx_len c + 1\<rparr>"
  have len1: "ctx_len c1 = of_nat (Suc ?L)" using assms by (simp add: c1_def absorbed_def add.commute)
  have bl: "ctx_digest c1 = foldl compress iv (blocks B m0)"
    using assms blocks_append [OF B(1) m0, of tl] blocks_short [of tl B] tl
    by (simp add: c1_def absorbed_def msg [symmetric])
  have "length (ctx_data c) = B" "length (ctx_digest c) = D" using assms unfolding absorbed_def by blast+
  then have d1: "length (ctx_data c1) = B" "length (ctx_digest c1) = D" by (simp_all add: c1_def)
  have "unat (ctx_len c) mod B = ?r" using assms by (simp add: absorbed_def len_mod)
  then have new: "take (Suc ?r) (ctx_data c1) = tl @ [x]"
    using assms tl by (simp add: c1_def absorbed_def take_Suc_conv_app_nth tl_def)
  have upd: "upd c (x # xs) = upd (if unat (ctx_len c1) mod B = 0 then dg c1 else c1) xs" for xs
    unfolding upd_Cons c1_def [symmetric] Let_def ..
  show ?thesis
  proof (cases "Suc ?r = B")
    case True
    then have "ctx_data c1 = tl @ [x]" using new d1 by simp
    moreover have "length (tl @ [x]) = B" using True tl by simp
    ultimately have "blocks B (msg @ [x]) = blocks B m0 @ [ctx_data c1]"
      using blocks_append [OF B(1) m0, of "tl @ [x]"] blocks_single [of "tl @ [x]" B] B(1) by (simp add: e)
    moreover have z: "Suc ?L mod B = 0" using True by (simp add: mod_Suc)
    ultimately have "absorbed iv (dg c1) (msg @ [x])"
      using dg [of c1] d1 bl len1 compress by (simp add: absorbed_def)
    moreover have "unat (ctx_len c1) mod B = 0" unfolding len1 len_mod by (rule z)
    ultimately show ?thesis using upd dg [of c1] d1 by (intro exI [of _ "dg c1"]) (simp add: c1_def)
  next
    case False
    then have z: "Suc ?L mod B = Suc ?r" by (simp add: mod_Suc)
    have "length (tl @ [x]) < B" using False tl by simp
    then have "blocks B (msg @ [x]) = blocks B m0"
      using blocks_append [OF B(1) m0, of "tl @ [x]"] blocks_short [of "tl @ [x]" B] by (simp add: e)
    then have "absorbed iv c1 (msg @ [x])" using d1 bl len1 new z by (simp add: absorbed_def tl_def)
    moreover have "unat (ctx_len c1) mod B \<noteq> 0" unfolding len1 len_mod z by simp
    ultimately show ?thesis using upd by (intro exI [of _ c1]) (simp add: c1_def)
  qed
qed

lemma absorb:
  "absorbed iv c msg \<Longrightarrow> absorbed iv (upd c xs) (msg @ xs) \<and> digest_context.more (upd c xs) = digest_context.more c"
proof (induction xs arbitrary: c msg)
  case (Cons x xs)
  from absorb_byte [OF Cons.prems, of x] obtain c' where
    c': "absorbed iv c' (msg @ [x])" "\<forall>xs. upd c (x # xs) = upd c' xs" "digest_context.more c' = digest_context.more c"
    by blast
  from Cons.IH [OF c'(1)] c'(2,3) show ?case by simp
qed (simp add: upd_Nil)

lemma absorb_pieces:
  assumes "absorbed iv c []"
  shows "absorbed iv (foldl upd c pieces) (concat pieces)
    \<and> digest_context.more (foldl upd c pieces) = digest_context.more c"
  by (induction pieces rule: rev_induct) (use assms absorb in auto)

end

section \<open>Padding\<close>

text \<open>
  The padding of the standards: a one bit, the least number of zero bytes that
  leaves room for the length in the last block, and the length of the message
  in bits.
\<close>

definition zeros_needed :: "nat \<Rightarrow> nat \<Rightarrow> nat \<Rightarrow> nat" where
  "zeros_needed B off n = (off + B - n mod B) mod B"

definition padded :: "nat \<Rightarrow> nat \<Rightarrow> (nat \<Rightarrow> u8 list) \<Rightarrow> u8 list \<Rightarrow> u8 list" where
  "padded B off enc msg =
     msg @ 0x80 # replicate (zeros_needed B off (length msg + 1)) 0 @ enc (8 * length msg)"

definition md_hash ::
    "(u8 list \<Rightarrow> u8 list \<Rightarrow> u8 list) \<Rightarrow> u8 list \<Rightarrow> nat \<Rightarrow> nat \<Rightarrow> (nat \<Rightarrow> u8 list) \<Rightarrow> u8 list \<Rightarrow> u8 list" where
  "md_hash compress iv B off enc msg = foldl compress iv (blocks B (padded B off enc msg))"

definition be_nat :: "nat \<Rightarrow> nat \<Rightarrow> u8 list" where
  "be_nat k n = map (\<lambda>i. of_nat (n div 256 ^ (k - 1 - i))) [0..<k]"

definition le_nat :: "nat \<Rightarrow> nat \<Rightarrow> u8 list" where
  "le_nat k n = rev (be_nat k n)"

lemma zeros_needed_0: "off < B \<Longrightarrow> n mod B = off \<Longrightarrow> zeros_needed B off n = 0"
  by (simp add: zeros_needed_def)

lemma zeros_needed_Suc:
  assumes "off < B" "n mod B \<noteq> off"
  shows "zeros_needed B off n = Suc (zeros_needed B off (Suc n))"
proof -
  have r: "n mod B < B" using assms(1) by simp
  show ?thesis
  proof (cases "Suc (n mod B) = B")
    case True
    then have "Suc n mod B = 0" "off + B - n mod B = off + 1" "off + 1 < B" using assms r by (auto simp: mod_Suc)
    then show ?thesis using assms(1) by (simp add: zeros_needed_def)
  next
    case False
    then have s: "Suc n mod B = Suc (n mod B)" by (simp add: mod_Suc)
    show ?thesis
    proof (cases "off < n mod B")
      case True
      then show ?thesis using r by (simp add: zeros_needed_def s)
    next
      case False
      then have e: "off + B - n mod B = (off - n mod B) + B" "off + B - Suc (n mod B) = (off - Suc (n mod B)) + B"
        using assms(2) by simp_all
      show ?thesis unfolding zeros_needed_def s e mod_add_self2 using False assms by simp
    qed
  qed
qed

lemma zeros_needed_total:
  assumes "off < B"
  shows "(n + zeros_needed B off n) mod B = off"
proof (induction "zeros_needed B off n" arbitrary: n)
  case 0
  then show ?case using zeros_needed_Suc [OF assms, of n] by (cases "n mod B = off") auto
next
  case (Suc k)
  then have "n mod B \<noteq> off" using zeros_needed_0 [OF assms] by fastforce
  then have z: "zeros_needed B off n = Suc (zeros_needed B off (Suc n))" by (rule zeros_needed_Suc [OF assms])
  with Suc.hyps(2) have "k = zeros_needed B off (Suc n)" by simp
  then have "(Suc n + zeros_needed B off (Suc n)) mod B = off" by (rule Suc.hyps(1))
  then show ?case by (simp add: z)
qed

locale padded_digest = block_digest +
  fixes pad :: "u8 \<Rightarrow> 'a digest_context_scheme \<Rightarrow> 'a digest_context_scheme option" and off :: nat
  assumes off: "off < B"
    and pad: "pad p c = (let c1 = upd c [p] in if unat (ctx_len c1) mod B \<noteq> off then pad 0 c1 else Some c1)"
begin

lemma upd_append: "absorbed iv c msg \<Longrightarrow> upd c (xs @ ys) = upd (upd c xs) ys"
proof (induction xs arbitrary: c msg)
  case (Cons x xs)
  from absorb_byte [OF Cons.prems, of x] obtain c' where
    "absorbed iv c' (msg @ [x])" "\<forall>xs. upd c (x # xs) = upd c' xs" by blast
  with Cons.IH show ?case by simp
qed (simp add: upd_Nil)

text \<open>The loop that appends the padding ends, and has appended what the standards ask for.\<close>

lemma pad_returns:
  "absorbed iv c msg \<Longrightarrow>
     pad p c = Some (upd c (p # replicate (zeros_needed B off (length msg + 1)) 0))"
proof (induction "zeros_needed B off (length msg + 1)" arbitrary: c msg p)
  case (0 msg c p)
  have "absorbed iv (upd c [p]) (msg @ [p])" using absorb [OF "0.prems"] by blast
  then have "unat (ctx_len (upd c [p])) mod B = (length msg + 1) mod B" by (simp add: absorbed_def len_mod del: of_nat_Suc)
  moreover have "(length msg + 1) mod B = off"
    using zeros_needed_total [OF off, of "length msg + 1"] unfolding "0.hyps" [symmetric] by simp
  ultimately show ?case using "0.hyps" by (subst pad) (simp add: Let_def)
next
  case (Suc k msg c p)
  have a: "absorbed iv (upd c [p]) (msg @ [p])" using absorb [OF Suc.prems] by blast
  then have "unat (ctx_len (upd c [p])) mod B = (length msg + 1) mod B" by (simp add: absorbed_def len_mod del: of_nat_Suc)
  moreover have ne: "(length msg + 1) mod B \<noteq> off"
    using zeros_needed_0 [OF off, of "length msg + 1"] Suc.hyps(2) by auto
  ultimately have e: "pad p c = pad 0 (upd c [p])" by (subst pad) (simp add: Let_def)
  have z: "zeros_needed B off (length msg + 1) = Suc (zeros_needed B off (length (msg @ [p]) + 1))"
    using zeros_needed_Suc [OF off ne] by simp
  then have "k = zeros_needed B off (length (msg @ [p]) + 1)" using Suc.hyps(2) by simp
  note ih = Suc.hyps(1) [OF this a, of 0]
  show ?case unfolding e ih z replicate_Suc
    using upd_append [OF Suc.prems, of "[p]" "0 # replicate (zeros_needed B off (length (msg @ [p]) + 1)) 0"] by simp
qed

lemma finish:
  assumes "absorbed iv c msg" "enc (8 * length msg) = e"
  shows "\<exists>c1. pad 0x80 c = Some c1 \<and> ctx_digest (upd c1 e) = md_hash compress iv B off enc msg
    \<and> digest_context.more (upd c1 e) = digest_context.more c \<and> length (ctx_data (upd c1 e)) = B"
proof -
  let ?p = "0x80 # replicate (zeros_needed B off (length msg + 1)) 0"
  have a: "absorbed iv (upd c ?p) (msg @ ?p)" "digest_context.more (upd c ?p) = digest_context.more c"
    using absorb [OF assms(1)] by blast+
  then have "absorbed iv (upd (upd c ?p) e) ((msg @ ?p) @ e)
      \<and> digest_context.more (upd (upd c ?p) e) = digest_context.more (upd c ?p)"
    using absorb by blast
  then show ?thesis
    using pad_returns [OF assms(1), of "0x80"] a(2) assms(2)
    by (simp add: absorbed_def md_hash_def padded_def)
qed

end

section \<open>Correct algorithms\<close>

lemma byte_of_nat: "k \<le> 56 \<Longrightarrow> ucast (drop_bit k (of_nat n :: u64)) = (of_nat (n div 2 ^ k) :: u8)"
  by (rule bit_word_eqI) (auto simp: bit_simps bit_of_nat_iff simp flip: drop_bit_eq_div)

lemma be64_nat: "cpu_to_be64 (of_nat n) = be_nat 8 n"
proof -
  have u: "ucast (drop_bit k (ucast (drop_bit 32 (x :: u64)) :: u32)) = (ucast (drop_bit (k + 32) x) :: u8)"
    "ucast (drop_bit k (ucast x :: u32)) = (ucast (drop_bit k x) :: u8)" if "k \<le> 24" for k x
    using that by (auto intro!: bit_word_eqI simp: bit_simps ac_simps)
  have "[0..<8] = [0, 1, 2, 3, 4, 5, 6, 7::nat]" by (simp add: upt_rec)
  then show ?thesis
    using byte_of_nat [of 0 n] byte_of_nat [of 8 n] byte_of_nat [of 16 n] byte_of_nat [of 24 n]
      byte_of_nat [of 32 n] byte_of_nat [of 40 n] byte_of_nat [of 48 n] byte_of_nat [of 56 n]
      u(1) [of 0 "of_nat n"] u(2) [of 0 "of_nat n"]
    by (simp add: cpu_to_be64_def htonl_def be_nat_def u)
qed

lemma le64_nat: "cpu_to_le64 (of_nat n) = le_nat 8 n"
  by (simp add: cpu_to_le64_def le_nat_def be64_nat)

lemma le64_bits: "cpu_to_le64 (of_nat n * 8) = le_nat 8 (8 * n)"
  using le64_nat [of "8 * n"] by (simp add: mult.commute)

lemma be64_bits: "cpu_to_be64 (of_nat n * 8) = be_nat 8 (8 * n)"
  using be64_nat [of "8 * n"] by (simp add: mult.commute)

lemma dvd_block: "(64::nat) dvd 2 ^ 64" "(128::nat) dvd 2 ^ 64"
  using le_imp_power_dvd [of 6 64 "2::nat"] le_imp_power_dvd [of 7 64 "2::nat"] by simp_all

text \<open>
  An algorithm implements a hash function when, from any context whose arrays
  have their sizes and whatever they hold, initialising it, updating it with
  the pieces of a message and finalising it returns the hash of the message,
  and leaves a context that can be used again.
\<close>

definition digest_implements :: "'c digest_algorithm \<Rightarrow> ('c \<Rightarrow> bool) \<Rightarrow> (u8 list \<Rightarrow> u8 list) \<Rightarrow> bool" where
  "digest_implements digest valid hash \<longleftrightarrow>
     (\<forall>ctx pieces. valid ctx \<longrightarrow> length (concat pieces) < 2 ^ 61 \<longrightarrow>
        (\<exists>ctx'. valid ctx'
          \<and> digest_final digest (foldl (digest_update digest) (digest_init digest ctx) pieces)
              = Some (ctx', hash (concat pieces))))"

definition array_sizes :: "nat \<Rightarrow> nat \<Rightarrow> 'a digest_context_scheme \<Rightarrow> bool" where
  "array_sizes D B c \<longleftrightarrow> length (ctx_digest c) = D \<and> length (ctx_data c) = B"

text \<open>
  A complete algorithm over such an update function: \<open>init\<close> sets the initial
  digest and length, \<open>final\<close> pads, appends the encoded length and copies the
  first \<open>n\<close> bytes of the digest.
\<close>

locale hash_algorithm = padded_digest +
  fixes alg :: "'a digest_context_scheme digest_algorithm" and iv :: "u8 list" and ext :: 'a
    and encode :: "u64 \<Rightarrow> u8 list" and enc :: "nat \<Rightarrow> u8 list"
    and out :: "'a digest_context_scheme \<Rightarrow> u8 list" and n :: nat
  assumes init: "length (ctx_data c) = B \<Longrightarrow> ctx_digest (da_init alg c) = iv \<and> ctx_len (da_init alg c) = 0
      \<and> length (ctx_data (da_init alg c)) = B \<and> digest_context.more (da_init alg c) = ext"
    and iv: "length iv = D"
    and update: "da_update alg = upd"
    and final: "da_final alg c = map_option
      (\<lambda>c1. let c2 = upd c1 (encode (ctx_len c)) in (c2, out c2)) (pad 0x80 c)"
    and out: "digest_context.more c = ext \<Longrightarrow> length (ctx_digest c) = D \<Longrightarrow> out c = take n (ctx_digest c)"
    and encode: "m < 2 ^ 61 \<Longrightarrow> encode (of_nat m) = enc (8 * m)"
begin

lemma hash_length: "length (md_hash compress iv B off enc msg) = D"
proof -
  have "length b = B" if "b \<in> set (blocks B xs)" for b and xs :: "u8 list"
  proof -
    obtain i where i: "i < length xs div B" "b = take B (drop (B * i) xs)" using \<open>b \<in> _\<close> by (auto simp: blocks_def)
    have "B * i + B \<le> B * (length xs div B)" using i(1) by (metis Suc_leI mult_Suc_right mult_le_mono2 add.commute)
    also have "\<dots> \<le> length xs" by simp
    finally show ?thesis using i(2) by simp
  qed
  moreover have "length d = D \<Longrightarrow> \<forall>b \<in> set bs. length b = B \<Longrightarrow> length (foldl compress d bs) = D" for d bs
    by (induction bs arbitrary: d) (simp_all add: compress)
  ultimately show ?thesis unfolding md_hash_def using iv by blast
qed

lemma implements: "digest_implements alg (array_sizes D B) (\<lambda>msg. take n (md_hash compress iv B off enc msg))"
proof -
  have "\<exists>c'. array_sizes D B c' \<and> da_final alg (foldl upd (da_init alg c) pieces)
      = Some (c', take n (md_hash compress iv B off enc (concat pieces)))"
    if c: "array_sizes D B c" and len: "length (concat pieces) < 2 ^ 61" for c pieces
  proof -
    let ?c = "foldl upd (da_init alg c) pieces"
    have i: "ctx_digest (da_init alg c) = iv" "ctx_len (da_init alg c) = 0"
      "length (ctx_data (da_init alg c)) = B" "digest_context.more (da_init alg c) = ext"
      using init c by (simp_all add: array_sizes_def)
    then have "absorbed iv (da_init alg c) []" by (simp add: absorbed_def iv blocks_def)
    then have a: "absorbed iv ?c (concat pieces)" "digest_context.more ?c = ext"
      using absorb_pieces [of iv "da_init alg c" pieces] i(4) by simp_all
    then have e: "enc (8 * length (concat pieces)) = encode (ctx_len ?c)"
      using encode [OF len] by (simp add: absorbed_def)
    from finish [OF a(1), of enc, OF e] obtain c1 where "pad 0x80 ?c = Some c1"
      "ctx_digest (upd c1 (encode (ctx_len ?c))) = md_hash compress iv B off enc (concat pieces)"
      "digest_context.more (upd c1 (encode (ctx_len ?c))) = ext" "length (ctx_data (upd c1 (encode (ctx_len ?c)))) = B"
      using a(2) by auto
    then show ?thesis by (simp add: final Let_def out hash_length array_sizes_def)
  qed
  then show ?thesis
    by (simp add: digest_implements_def digest_init_def digest_update_def [abs_def] digest_final_def update)
qed

end

end
