(* ===== verification/Digest_Md.thy ===== *)
theory Digest_Md
  imports Digest
begin

text \<open>
  MD4 and MD5 (\<open>crypto/md4.c\<close>, \<open>crypto/md5.c\<close>), and the same algorithms as RFC
  1320 and RFC 1321 describe them.
\<close>

section \<open>MD4\<close>

record md_variables =
  v_a :: u32
  v_b :: u32
  v_c :: u32
  v_d :: u32
  v_w :: "u32 list"

definition md4_r :: "nat list list" where
  "md4_r = [[3, 7, 11, 19], [3, 5, 9, 13], [3, 9, 11, 15]]"

definition md4_f_0_15 :: "md_variables \<Rightarrow> nat \<Rightarrow> u32" where
  "md4_f_0_15 v i = ((v_b v AND v_c v) OR (NOT (v_b v) AND v_d v)) + v_w v ! i"

definition md4_f_16_31 :: "md_variables \<Rightarrow> nat \<Rightarrow> u32" where
  "md4_f_16_31 v i =
     ((v_b v AND v_c v) OR (v_b v AND v_d v) OR (v_c v AND v_d v)) + v_w v ! ((push_bit 2 i OR drop_bit 2 i) mod 16)"

definition md4_reverse :: "nat list" where
  "md4_reverse = [0, 8, 4, 12, 2, 10, 6, 14, 1, 9, 5, 13, 3, 11, 7, 15]"

definition md4_f_32_47 :: "md_variables \<Rightarrow> nat \<Rightarrow> u32" where
  "md4_f_32_47 v i = (v_b v XOR v_c v XOR v_d v) + v_w v ! (md4_reverse ! i)"

record md4_step =
  s4_f :: "md_variables \<Rightarrow> nat \<Rightarrow> u32"
  s4_constant :: u32

definition md4_steps :: "md4_step list" where
  "md4_steps =
     [\<lparr> s4_f = md4_f_0_15, s4_constant = 0 \<rparr>,
      \<lparr> s4_f = md4_f_16_31, s4_constant = 0x5a827999 \<rparr>,
      \<lparr> s4_f = md4_f_32_47, s4_constant = 0x6ed9eba1 \<rparr>]"

definition md4_init :: "digest_context \<Rightarrow> digest_context" where
  "md4_init c = c\<lparr>ctx_digest := concat (map cpu_to_le32 [0x67452301, 0xefcdab89, 0x98badcfe, 0x10325476]),
     ctx_len := 0\<rparr>"

definition md4_loop_step :: "md_variables \<Rightarrow> nat \<Rightarrow> md_variables" where
  "md4_loop_step v i =
     (let round = i div 16;
          step = md4_steps ! round;
          f = s4_f step v (i mod 16);
          temp = v_d v
      in \<lparr> v_a = temp, v_b = rol32 (v_a v + f + s4_constant step) (md4_r ! round ! (i mod 4)),
           v_c = v_b v, v_d = v_c v, v_w = v_w v \<rparr>)"

text \<open>
  The words of the context are converted to host order in place; the digest is
  converted back, the data block is left in host order until it is overwritten.
\<close>

definition md4_digest :: "digest_context \<Rightarrow> digest_context" where
  "md4_digest c =
     (let dword = map le32_to_cpu (blocks 4 (ctx_digest c @ ctx_data c));
          v = \<lparr> v_a = dword ! 0, v_b = dword ! 1, v_c = dword ! 2, v_d = dword ! 3, v_w = drop 4 dword \<rparr>;
          v = foldl md4_loop_step v [0..<48];
          h = map2 (+) (take 4 dword) [v_a v, v_b v, v_c v, v_d v]
      in c\<lparr>ctx_digest := concat (map cpu_to_le32 h), ctx_data := concat (map cpu_to_le32 (drop 4 dword))\<rparr>)"

fun md4_update :: "digest_context \<Rightarrow> u8 list \<Rightarrow> digest_context" where
  "md4_update c [] = c"
| "md4_update c (byte # rest) =
     (let offset = unat (ctx_len c) mod 64;
          c = c\<lparr>ctx_data := (ctx_data c)[offset := byte]\<rparr>;
          c = c\<lparr>ctx_len := ctx_len c + 1\<rparr>;
          c = (if unat (ctx_len c) mod 64 = 0 then md4_digest c else c)
      in md4_update c rest)"

partial_function (option) md4_pad :: "u8 \<Rightarrow> digest_context \<Rightarrow> digest_context option" where
  "md4_pad pad c =
     (let c = md4_update c [pad]
      in if unat (ctx_len c) mod 64 \<noteq> 56 then md4_pad 0 c else Some c)"

declare md4_pad.simps [code]

definition md4_final :: "digest_context \<Rightarrow> (digest_context \<times> u8 list) option" where
  "md4_final c =
     (let len_bits = cpu_to_le64 (ctx_len c * 8)
      in case md4_pad 0x80 c of
           None \<Rightarrow> None
         | Some c \<Rightarrow>
             let c = md4_update c len_bits
             in Some (c, ctx_digest c))"

definition md4_algorithm :: "digest_context digest_algorithm" where
  "md4_algorithm = \<lparr> da_name = ''md4'', da_blocksize = 64, da_digestsize = 16,
     da_init = md4_init, da_update = md4_update, da_final = md4_final \<rparr>"


section \<open>MD5\<close>

type_synonym md5_variables = md_variables

definition md5_k :: "u32 list" where
  "md5_k =
     [0xd76aa478, 0xe8c7b756, 0x242070db, 0xc1bdceee, 0xf57c0faf, 0x4787c62a, 0xa8304613, 0xfd469501,
      0x698098d8, 0x8b44f7af, 0xffff5bb1, 0x895cd7be, 0x6b901122, 0xfd987193, 0xa679438e, 0x49b40821,
      0xf61e2562, 0xc040b340, 0x265e5a51, 0xe9b6c7aa, 0xd62f105d, 0x02441453, 0xd8a1e681, 0xe7d3fbc8,
      0x21e1cde6, 0xc33707d6, 0xf4d50d87, 0x455a14ed, 0xa9e3e905, 0xfcefa3f8, 0x676f02d9, 0x8d2a4c8a,
      0xfffa3942, 0x8771f681, 0x6d9d6122, 0xfde5380c, 0xa4beea44, 0x4bdecfa9, 0xf6bb4b60, 0xbebfbc70,
      0x289b7ec6, 0xeaa127fa, 0xd4ef3085, 0x04881d05, 0xd9d4d039, 0xe6db99e5, 0x1fa27cf8, 0xc4ac5665,
      0xf4292244, 0x432aff97, 0xab9423a7, 0xfc93a039, 0x655b59c3, 0x8f0ccc92, 0xffeff47d, 0x85845dd1,
      0x6fa87e4f, 0xfe2ce6e0, 0xa3014314, 0x4e0811a1, 0xf7537e82, 0xbd3af235, 0x2ad7d2bb, 0xeb86d391]"

definition md5_r :: "nat list list" where
  "md5_r = [[7, 12, 17, 22], [5, 9, 14, 20], [4, 11, 16, 23], [6, 10, 15, 21]]"

definition md5_f_0_15 :: "md5_variables \<Rightarrow> u32" where
  "md5_f_0_15 v = v_d v XOR (v_b v AND (v_c v XOR v_d v))"

definition md5_f_16_31 :: "md5_variables \<Rightarrow> u32" where
  "md5_f_16_31 v = v_c v XOR (v_d v AND (v_b v XOR v_c v))"

definition md5_f_32_47 :: "md5_variables \<Rightarrow> u32" where
  "md5_f_32_47 v = v_b v XOR v_c v XOR v_d v"

definition md5_f_48_63 :: "md5_variables \<Rightarrow> u32" where
  "md5_f_48_63 v = v_c v XOR (v_b v OR NOT (v_d v))"

record md5_step =
  s5_f :: "md5_variables \<Rightarrow> u32"
  s5_coefficient :: nat
  s5_constant :: nat

definition md5_steps :: "md5_step list" where
  "md5_steps =
     [\<lparr> s5_f = md5_f_0_15, s5_coefficient = 1, s5_constant = 0 \<rparr>,
      \<lparr> s5_f = md5_f_16_31, s5_coefficient = 5, s5_constant = 1 \<rparr>,
      \<lparr> s5_f = md5_f_32_47, s5_coefficient = 3, s5_constant = 5 \<rparr>,
      \<lparr> s5_f = md5_f_48_63, s5_coefficient = 7, s5_constant = 0 \<rparr>]"

definition md5_init :: "digest_context \<Rightarrow> digest_context" where
  "md5_init c = c\<lparr>ctx_digest := concat (map cpu_to_le32 [0x67452301, 0xefcdab89, 0x98badcfe, 0x10325476]),
     ctx_len := 0\<rparr>"

definition md5_loop_step :: "md5_variables \<Rightarrow> nat \<Rightarrow> md5_variables" where
  "md5_loop_step v i =
     (let round = i div 16;
          step = md5_steps ! round;
          f = s5_f step v;
          g = (s5_coefficient step * i + s5_constant step) mod 16;
          temp = v_d v
      in \<lparr> v_a = temp, v_b = v_b v + rol32 (v_a v + f + md5_k ! i + v_w v ! g) (md5_r ! round ! (i mod 4)),
           v_c = v_b v, v_d = v_c v, v_w = v_w v \<rparr>)"

definition md5_digest :: "digest_context \<Rightarrow> digest_context" where
  "md5_digest c =
     (let dword = map le32_to_cpu (blocks 4 (ctx_digest c @ ctx_data c));
          v = \<lparr> v_a = dword ! 0, v_b = dword ! 1, v_c = dword ! 2, v_d = dword ! 3, v_w = drop 4 dword \<rparr>;
          v = foldl md5_loop_step v [0..<64];
          h = map2 (+) (take 4 dword) [v_a v, v_b v, v_c v, v_d v]
      in c\<lparr>ctx_digest := concat (map cpu_to_le32 h), ctx_data := concat (map cpu_to_le32 (drop 4 dword))\<rparr>)"

fun md5_update :: "digest_context \<Rightarrow> u8 list \<Rightarrow> digest_context" where
  "md5_update c [] = c"
| "md5_update c (byte # rest) =
     (let offset = unat (ctx_len c) mod 64;
          c = c\<lparr>ctx_data := (ctx_data c)[offset := byte]\<rparr>;
          c = c\<lparr>ctx_len := ctx_len c + 1\<rparr>;
          c = (if unat (ctx_len c) mod 64 = 0 then md5_digest c else c)
      in md5_update c rest)"

partial_function (option) md5_pad :: "u8 \<Rightarrow> digest_context \<Rightarrow> digest_context option" where
  "md5_pad pad c =
     (let c = md5_update c [pad]
      in if unat (ctx_len c) mod 64 \<noteq> 56 then md5_pad 0 c else Some c)"

declare md5_pad.simps [code]

definition md5_final :: "digest_context \<Rightarrow> (digest_context \<times> u8 list) option" where
  "md5_final c =
     (let len_bits = cpu_to_le64 (ctx_len c * 8)
      in case md5_pad 0x80 c of
           None \<Rightarrow> None
         | Some c \<Rightarrow>
             let c = md5_update c len_bits
             in Some (c, ctx_digest c))"

definition md5_algorithm :: "digest_context digest_algorithm" where
  "md5_algorithm = \<lparr> da_name = ''md5'', da_blocksize = 64, da_digestsize = 16,
     da_init = md5_init, da_update = md5_update, da_final = md5_final \<rparr>"

section \<open>The algorithms of RFC 1320 and RFC 1321\<close>

text \<open>
  The auxiliary functions, the order in which each round takes the words of the
  block, and one operation \<open>a = b + ((a + f(b,c,d) + X[k] + T[i]) <<< s)\<close>, after which
  the variables exchange their roles.
\<close>

definition rfc_F :: "u32 \<Rightarrow> u32 \<Rightarrow> u32 \<Rightarrow> u32" where
  "rfc_F x y z = (x AND y) OR (NOT x AND z)"

definition rfc_G4 :: "u32 \<Rightarrow> u32 \<Rightarrow> u32 \<Rightarrow> u32" where
  "rfc_G4 x y z = (x AND y) OR (x AND z) OR (y AND z)"

definition rfc_G5 :: "u32 \<Rightarrow> u32 \<Rightarrow> u32 \<Rightarrow> u32" where
  "rfc_G5 x y z = (x AND z) OR (y AND NOT z)"

definition rfc_H :: "u32 \<Rightarrow> u32 \<Rightarrow> u32 \<Rightarrow> u32" where
  "rfc_H x y z = x XOR y XOR z"

definition rfc_I :: "u32 \<Rightarrow> u32 \<Rightarrow> u32 \<Rightarrow> u32" where
  "rfc_I x y z = y XOR (x OR NOT z)"

type_synonym md_round = "(u32 \<Rightarrow> u32 \<Rightarrow> u32 \<Rightarrow> u32) \<times> nat list \<times> nat list"

definition rfc1320_rounds :: "(md_round \<times> u32) list" where
  "rfc1320_rounds =
     [((rfc_F, [0, 1, 2, 3, 4, 5, 6, 7, 8, 9, 10, 11, 12, 13, 14, 15], [3, 7, 11, 19]), 0),
      ((rfc_G4, [0, 4, 8, 12, 1, 5, 9, 13, 2, 6, 10, 14, 3, 7, 11, 15], [3, 5, 9, 13]), 0x5a827999),
      ((rfc_H, [0, 8, 4, 12, 2, 10, 6, 14, 1, 9, 5, 13, 3, 11, 7, 15], [3, 9, 11, 15]), 0x6ed9eba1)]"

definition rfc1321_rounds :: "md_round list" where
  "rfc1321_rounds =
     [(rfc_F, [0, 1, 2, 3, 4, 5, 6, 7, 8, 9, 10, 11, 12, 13, 14, 15], [7, 12, 17, 22]),
      (rfc_G5, [1, 6, 11, 0, 5, 10, 15, 4, 9, 14, 3, 8, 13, 2, 7, 12], [5, 9, 14, 20]),
      (rfc_H, [5, 8, 11, 14, 1, 4, 7, 10, 13, 0, 3, 6, 9, 12, 15, 2], [4, 11, 16, 23]),
      (rfc_I, [0, 7, 14, 5, 12, 3, 10, 1, 8, 15, 6, 13, 4, 11, 2, 9], [6, 10, 15, 21])]"

fun rfc1320_op :: "u32 list \<Rightarrow> u32 \<times> u32 \<times> u32 \<times> u32 \<Rightarrow> nat \<Rightarrow> u32 \<times> u32 \<times> u32 \<times> u32" where
  "rfc1320_op X (a, b, c, d) i =
     (let ((f, ks, ss), t) = rfc1320_rounds ! (i div 16)
      in (d, word_rotl (ss ! (i mod 4)) (a + f b c d + X ! (ks ! (i mod 16)) + t), b, c))"

fun rfc1321_op :: "u32 list \<Rightarrow> u32 \<times> u32 \<times> u32 \<times> u32 \<Rightarrow> nat \<Rightarrow> u32 \<times> u32 \<times> u32 \<times> u32" where
  "rfc1321_op X (a, b, c, d) i =
     (let (f, ks, ss) = rfc1321_rounds ! (i div 16)
      in (d, b + word_rotl (ss ! (i mod 4)) (a + f b c d + X ! (ks ! (i mod 16)) + md5_k ! i), b, c))"

definition md_compress ::
    "(u32 list \<Rightarrow> u32 \<times> u32 \<times> u32 \<times> u32 \<Rightarrow> nat \<Rightarrow> u32 \<times> u32 \<times> u32 \<times> u32) \<Rightarrow> nat \<Rightarrow> u8 list \<Rightarrow> u8 list \<Rightarrow> u8 list" where
  "md_compress op n h blk =
     (let H = map le32_to_cpu (blocks 4 h);
          X = map le32_to_cpu (blocks 4 blk);
          (a, b, c, d) = foldl (op X) (H ! 0, H ! 1, H ! 2, H ! 3) [0..<n]
      in concat (map cpu_to_le32 [H ! 0 + a, H ! 1 + b, H ! 2 + c, H ! 3 + d]))"

definition md_iv :: "u8 list" where
  "md_iv = [0x01, 0x23, 0x45, 0x67, 0x89, 0xab, 0xcd, 0xef, 0xfe, 0xdc, 0xba, 0x98, 0x76, 0x54, 0x32, 0x10]"

definition rfc1320_md4 :: "u8 list \<Rightarrow> u8 list" where
  "rfc1320_md4 = md_hash (md_compress rfc1320_op 48) md_iv 64 56 (le_nat 8)"

definition rfc1321_md5 :: "u8 list \<Rightarrow> u8 list" where
  "rfc1321_md5 = md_hash (md_compress rfc1321_op 64) md_iv 64 56 (le_nat 8)"


section \<open>The code computes the algorithms of the RFCs\<close>

lemma md_choice:
  "(z :: u32) XOR (x AND (y XOR z)) = rfc_F x y z" "rfc_F z x y = rfc_G5 x y z"
  by (rule bit_word_eqI, auto simp: rfc_F_def rfc_G5_def bit_simps)+

lemma md4_tables:
  "list_all (\<lambda>i. md4_r ! (i div 16) ! (i mod 4) = snd (snd (fst (rfc1320_rounds ! (i div 16)))) ! (i mod 4)
     \<and> 0 < md4_r ! (i div 16) ! (i mod 4) \<and> md4_r ! (i div 16) ! (i mod 4) < 32) [0..<48]"
  by code_simp

lemma md5_tables:
  "list_all (\<lambda>i. md5_r ! (i div 16) ! (i mod 4) = snd (snd (rfc1321_rounds ! (i div 16))) ! (i mod 4)
     \<and> 0 < md5_r ! (i div 16) ! (i mod 4) \<and> md5_r ! (i div 16) ! (i mod 4) < 32
     \<and> (s5_coefficient (md5_steps ! (i div 16)) * i + s5_constant (md5_steps ! (i div 16))) mod 16
         = fst (snd (rfc1321_rounds ! (i div 16))) ! (i mod 16)) [0..<64]"
  by code_simp

lemma md4_order:
  "list_all (\<lambda>i. i = fst (snd (fst (rfc1320_rounds ! 0))) ! i
     \<and> (push_bit 2 i OR drop_bit 2 i) mod 16 = fst (snd (fst (rfc1320_rounds ! 1))) ! i
     \<and> md4_reverse ! i = fst (snd (fst (rfc1320_rounds ! 2))) ! i) [0..<16]"
  by code_simp


fun md_tuple :: "md_variables \<Rightarrow> u32 \<times> u32 \<times> u32 \<times> u32" where
  "md_tuple v = (v_a v, v_b v, v_c v, v_d v)"

lemma md4_loop_op:
  assumes "i < 48"
  shows "md_tuple (md4_loop_step v i) = rfc1320_op (v_w v) (md_tuple v) i" "v_w (md4_loop_step v i) = v_w v"
proof -
  have i: "i \<in> set [0..<48]" "i mod 16 \<in> set [0..<16]" using assms by auto
  note t = md4_tables [unfolded list_all_iff, rule_format, OF i(1)]
    and o = md4_order [unfolded list_all_iff, rule_format, OF i(2)]
  have rot: "rol32 x (md4_r ! (i div 16) ! (i mod 4)) = word_rotl (snd (snd (fst (rfc1320_rounds ! (i div 16)))) ! (i mod 4)) x" for x
    using t rol32_rotl by metis
  have "n < 3 \<Longrightarrow> n \<in> {0, 1, 2}" for n :: nat by auto
  then have "i div 16 \<in> {0, 1, 2}" using assms by simp
  then have "s4_f (md4_steps ! (i div 16)) v (i mod 16) + s4_constant (md4_steps ! (i div 16))
      = (fst (fst (rfc1320_rounds ! (i div 16)))) (v_b v) (v_c v) (v_d v)
        + v_w v ! (fst (snd (fst (rfc1320_rounds ! (i div 16)))) ! (i mod 16)) + snd (rfc1320_rounds ! (i div 16))"
    using o by (elim insertE emptyE)
      (simp_all add: md4_steps_def md4_f_0_15_def md4_f_16_31_def md4_f_32_47_def rfc_F_def rfc_G4_def rfc_H_def
        rfc1320_rounds_def)
  then show "md_tuple (md4_loop_step v i) = rfc1320_op (v_w v) (md_tuple v) i"
    unfolding md4_loop_step_def Let_def rot by (simp add: split_beta add.assoc)
  show "v_w (md4_loop_step v i) = v_w v" by (simp add: md4_loop_step_def Let_def)
qed

lemma md5_loop_op:
  assumes "i < 64"
  shows "md_tuple (md5_loop_step v i) = rfc1321_op (v_w v) (md_tuple v) i" "v_w (md5_loop_step v i) = v_w v"
proof -
  have i: "i \<in> set [0..<64]" using assms by auto
  note t = md5_tables [unfolded list_all_iff, rule_format, OF i]
  have rot: "rol32 x (md5_r ! (i div 16) ! (i mod 4)) = word_rotl (snd (snd (rfc1321_rounds ! (i div 16))) ! (i mod 4)) x" for x
    using t rol32_rotl by metis
  have idx: "(s5_coefficient (md5_steps ! (i div 16)) * i + s5_constant (md5_steps ! (i div 16))) mod 16
      = fst (snd (rfc1321_rounds ! (i div 16))) ! (i mod 16)" using t by blast
  have "n < 4 \<Longrightarrow> n \<in> {0, 1, 2, 3}" for n :: nat by auto
  then have "i div 16 \<in> {0, 1, 2, 3}" using assms by simp
  then have f: "s5_f (md5_steps ! (i div 16)) v = fst (rfc1321_rounds ! (i div 16)) (v_b v) (v_c v) (v_d v)"
    by (elim insertE emptyE)
      (simp_all add: md5_steps_def md5_f_0_15_def md5_f_16_31_def md5_f_32_47_def md5_f_48_63_def
        rfc_H_def rfc_I_def md_choice rfc1321_rounds_def)
  show "md_tuple (md5_loop_step v i) = rfc1321_op (v_w v) (md_tuple v) i"
    unfolding md5_loop_step_def Let_def rot idx f by (simp add: split_beta ac_simps)
  show "v_w (md5_loop_step v i) = v_w v" by (simp add: md5_loop_step_def Let_def)
qed

text \<open>A loop whose steps compute the operation computes their composition.\<close>

lemma md_loop:
  assumes "\<And>v i. i < n \<Longrightarrow> md_tuple (step v i) = op (v_w v) (md_tuple v) i"
    "\<And>v i. i < n \<Longrightarrow> v_w (step v i) = v_w v"
  shows "md_tuple (foldl step v [0..<n]) = foldl (op (v_w v)) (md_tuple v) [0..<n]"
  by (rule foldl_sim [of n "\<lambda>u. v_w u = v_w v"]) (simp_all add: assms del: md_tuple.simps)

text \<open>The words of a context with a digest of 16 and a block of 64 bytes.\<close>

lemma md_dwords:
  assumes "length h = 16" "length b = 64" "H = map le32_to_cpu (blocks 4 h)"
    "dword = map le32_to_cpu (blocks 4 (h @ b))"
  shows "take 4 dword = [H ! 0, H ! 1, H ! 2, H ! 3]" "drop 4 dword = map le32_to_cpu (blocks 4 b)"
    "dword ! 0 = H ! 0" "dword ! 1 = H ! 1" "dword ! 2 = H ! 2" "dword ! 3 = H ! 3" "length (drop 4 dword) = 16"
  using dwords [of 4 h 4 dword le32_to_cpu b] list_nths(1) [of H] assms by simp_all

lemma md_compress_tuple:
  assumes "md_tuple v = foldl (op (map le32_to_cpu (blocks 4 b)))
      (H ! 0, H ! 1, H ! 2, H ! 3) [0..<n]" "H = map le32_to_cpu (blocks 4 h)"
  shows "concat (map cpu_to_le32 (map2 (+) [H ! 0, H ! 1, H ! 2, H ! 3] [v_a v, v_b v, v_c v, v_d v]))
    = md_compress op n h b"
  unfolding md_compress_def Let_def assms(2) [symmetric] assms(1) [symmetric] by simp

lemma md_compress_length: "length (md_compress op n h b) = 16"
  by (simp add: md_compress_def Let_def split_beta)

lemma md_iv_words: "concat (map cpu_to_le32 [0x67452301, 0xefcdab89, 0x98badcfe, 0x10325476]) = md_iv"
  by (simp add: md_iv_def cpu_to_le32_def htonl_def)

lemma md_iv_length: "length md_iv = 16"
  by (simp add: md_iv_def)

lemma md4_digest_law:
  assumes "length (ctx_digest c) = 16" "length (ctx_data c) = 64"
  shows "ctx_len (md4_digest c) = ctx_len c
    \<and> ctx_digest (md4_digest c) = md_compress rfc1320_op 48 (ctx_digest c) (ctx_data c)
    \<and> length (ctx_data (md4_digest c)) = 64"
proof -
  define H X where "H = map le32_to_cpu (blocks 4 (ctx_digest c))" and "X = map le32_to_cpu (blocks 4 (ctx_data c))"
  note d = md_dwords [OF assms H_def refl, folded X_def]
  define v where "v = foldl md4_loop_step \<lparr> v_a = H ! 0, v_b = H ! 1, v_c = H ! 2, v_d = H ! 3, v_w = X \<rparr> [0..<48]"
  have "md_tuple v = foldl (rfc1320_op X) (H ! 0, H ! 1, H ! 2, H ! 3) [0..<48]"
    unfolding v_def using md_loop [of 48 md4_loop_step rfc1320_op, OF md4_loop_op] by simp
  note cmp = md_compress_tuple [of v rfc1320_op "ctx_data c" H, OF this [unfolded X_def] H_def]
  show ?thesis
    unfolding md4_digest_def Let_def d(1,3-6) d(2) v_def [symmetric]
    using cmp d(7) by (simp add: d(2) length_concat_words)
qed

interpretation md4: hash_algorithm md4_digest md4_update "md_compress rfc1320_op 48" 64 16 md4_pad 56
  md4_algorithm md_iv "()" "\<lambda>len. cpu_to_le64 (len * 8)" "le_nat 8" ctx_digest 16
proof
  show "md4_pad p c = (let c1 = md4_update c [p] in if unat (ctx_len c1) mod 64 \<noteq> 56 then md4_pad 0 c1 else Some c1)" for p c
    by (subst md4_pad.simps) (rule refl)
  show "da_final md4_algorithm c = map_option
      (\<lambda>c1. let c2 = md4_update c1 (cpu_to_le64 (ctx_len c * 8)) in (c2, ctx_digest c2)) (md4_pad 0x80 c)" for c
    by (simp add: md4_algorithm_def md4_final_def Let_def split: option.split)
qed (use md4_digest_law in \<open>auto simp: Let_def dvd_block md_compress_length md_iv_length le64_bits
      md4_algorithm_def md4_init_def md_iv_words [simplified]\<close>)

lemma md5_digest_law:
  assumes "length (ctx_digest c) = 16" "length (ctx_data c) = 64"
  shows "ctx_len (md5_digest c) = ctx_len c
    \<and> ctx_digest (md5_digest c) = md_compress rfc1321_op 64 (ctx_digest c) (ctx_data c)
    \<and> length (ctx_data (md5_digest c)) = 64"
proof -
  define H X where "H = map le32_to_cpu (blocks 4 (ctx_digest c))" and "X = map le32_to_cpu (blocks 4 (ctx_data c))"
  note d = md_dwords [OF assms H_def refl, folded X_def]
  define v where "v = foldl md5_loop_step \<lparr> v_a = H ! 0, v_b = H ! 1, v_c = H ! 2, v_d = H ! 3, v_w = X \<rparr> [0..<64]"
  have "md_tuple v = foldl (rfc1321_op X) (H ! 0, H ! 1, H ! 2, H ! 3) [0..<64]"
    unfolding v_def using md_loop [of 64 md5_loop_step rfc1321_op, OF md5_loop_op] by simp
  note cmp = md_compress_tuple [of v rfc1321_op "ctx_data c" H, OF this [unfolded X_def] H_def]
  show ?thesis
    unfolding md5_digest_def Let_def d(1,3-6) d(2) v_def [symmetric]
    using cmp d(7) by (simp add: d(2) length_concat_words)
qed

interpretation md5: hash_algorithm md5_digest md5_update "md_compress rfc1321_op 64" 64 16 md5_pad 56
  md5_algorithm md_iv "()" "\<lambda>len. cpu_to_le64 (len * 8)" "le_nat 8" ctx_digest 16
proof
  show "md5_pad p c = (let c1 = md5_update c [p] in if unat (ctx_len c1) mod 64 \<noteq> 56 then md5_pad 0 c1 else Some c1)" for p c
    by (subst md5_pad.simps) (rule refl)
  show "da_final md5_algorithm c = map_option
      (\<lambda>c1. let c2 = md5_update c1 (cpu_to_le64 (ctx_len c * 8)) in (c2, ctx_digest c2)) (md5_pad 0x80 c)" for c
    by (simp add: md5_algorithm_def md5_final_def Let_def split: option.split)
qed (use md5_digest_law in \<open>auto simp: Let_def dvd_block md_compress_length md_iv_length le64_bits
      md5_algorithm_def md5_init_def md_iv_words [simplified]\<close>)

lemma md4_implements: "digest_implements md4_algorithm (array_sizes 16 64) rfc1320_md4"
  using md4.implements md4.hash_length by (simp add: rfc1320_md4_def [abs_def])

lemma md5_implements: "digest_implements md5_algorithm (array_sizes 16 64) rfc1321_md5"
  using md5.implements md5.hash_length by (simp add: rfc1321_md5_def [abs_def])

end
