(* ===== verification/Digest_Sha.thy ===== *)
theory Digest_Sha
  imports Digest
begin

text \<open>
  SHA-1, SHA-224, SHA-256, SHA-384, SHA-512, SHA-512/224 and SHA-512/256
  (\<open>crypto/sha1.c\<close>, \<open>crypto/sha256.c\<close>, \<open>crypto/sha512.c\<close> and the files of the
  truncated variants), and the same algorithms as FIPS 180-4 describes them.
\<close>

section \<open>SHA-1\<close>

record sha1_variables =
  s1_a :: u32
  s1_b :: u32
  s1_c :: u32
  s1_d :: u32
  s1_e :: u32
  s1_w :: "u32 list"

definition sha1_f_0_19 :: "sha1_variables \<Rightarrow> u32" where
  "sha1_f_0_19 v = (s1_b v AND s1_c v) OR (NOT (s1_b v) AND s1_d v)"

definition sha1_f_20_39_60_79 :: "sha1_variables \<Rightarrow> u32" where
  "sha1_f_20_39_60_79 v = s1_b v XOR s1_c v XOR s1_d v"

definition sha1_f_40_59 :: "sha1_variables \<Rightarrow> u32" where
  "sha1_f_40_59 v = (s1_b v AND s1_c v) OR (s1_b v AND s1_d v) OR (s1_c v AND s1_d v)"

record sha1_step =
  st1_f :: "sha1_variables \<Rightarrow> u32"
  st1_k :: u32

definition sha1_steps :: "sha1_step list" where
  "sha1_steps =
     [\<lparr> st1_f = sha1_f_0_19, st1_k = 0x5a827999 \<rparr>,
      \<lparr> st1_f = sha1_f_20_39_60_79, st1_k = 0x6ed9eba1 \<rparr>,
      \<lparr> st1_f = sha1_f_40_59, st1_k = 0x8f1bbcdc \<rparr>,
      \<lparr> st1_f = sha1_f_20_39_60_79, st1_k = 0xca62c1d6 \<rparr>]"

definition sha1_init :: "digest_context \<Rightarrow> digest_context" where
  "sha1_init c = c\<lparr>ctx_digest :=
       concat (map cpu_to_be32 [0x67452301, 0xefcdab89, 0x98badcfe, 0x10325476, 0xc3d2e1f0]),
     ctx_len := 0\<rparr>"

text \<open>The loops that fill the array \<open>w\<close> append its next word to the words so far.\<close>

definition sha1_extend :: "u32 list \<Rightarrow> nat \<Rightarrow> u32 list" where
  "sha1_extend w i = w @ [rol32 (w ! (i - 3) XOR w ! (i - 8) XOR w ! (i - 14) XOR w ! (i - 16)) 1]"

definition sha1_loop_step :: "sha1_variables \<Rightarrow> nat \<Rightarrow> sha1_variables" where
  "sha1_loop_step v i =
     (let step = sha1_steps ! (i div 20);
          f = st1_f step v;
          k = st1_k step;
          temp = rol32 (s1_a v) 5 + f + s1_e v + k + s1_w v ! i
      in \<lparr> s1_a = temp, s1_b = s1_a v, s1_c = rol32 (s1_b v) 30, s1_d = s1_c v, s1_e = s1_d v, s1_w = s1_w v \<rparr>)"

definition sha1_digest :: "digest_context \<Rightarrow> digest_context" where
  "sha1_digest c =
     (let dword = map be32_to_cpu (blocks 4 (ctx_digest c @ ctx_data c));
          w = foldl sha1_extend (drop 5 dword) [16..<80];
          v = \<lparr> s1_a = dword ! 0, s1_b = dword ! 1, s1_c = dword ! 2, s1_d = dword ! 3, s1_e = dword ! 4, s1_w = w \<rparr>;
          v = foldl sha1_loop_step v [0..<80];
          h = map2 (+) (take 5 dword) [s1_a v, s1_b v, s1_c v, s1_d v, s1_e v]
      in c\<lparr>ctx_digest := concat (map cpu_to_be32 h), ctx_data := concat (map cpu_to_le32 (drop 5 dword))\<rparr>)"

fun sha1_update :: "digest_context \<Rightarrow> u8 list \<Rightarrow> digest_context" where
  "sha1_update c [] = c"
| "sha1_update c (byte # rest) =
     (let offset = unat (ctx_len c) mod 64;
          c = c\<lparr>ctx_data := (ctx_data c)[offset := byte]\<rparr>;
          c = c\<lparr>ctx_len := ctx_len c + 1\<rparr>;
          c = (if unat (ctx_len c) mod 64 = 0 then sha1_digest c else c)
      in sha1_update c rest)"

partial_function (option) sha1_pad :: "u8 \<Rightarrow> digest_context \<Rightarrow> digest_context option" where
  "sha1_pad pad c =
     (let c = sha1_update c [pad]
      in if unat (ctx_len c) mod 64 \<noteq> 56 then sha1_pad 0 c else Some c)"

declare sha1_pad.simps [code]

definition sha1_final :: "digest_context \<Rightarrow> (digest_context \<times> u8 list) option" where
  "sha1_final c =
     (let len_bits = cpu_to_be64 (ctx_len c * 8)
      in case sha1_pad 0x80 c of
           None \<Rightarrow> None
         | Some c \<Rightarrow>
             let c = sha1_update c len_bits
             in Some (c, ctx_digest c))"

definition sha1_algorithm :: "digest_context digest_algorithm" where
  "sha1_algorithm = \<lparr> da_name = ''sha1'', da_blocksize = 64, da_digestsize = 20,
     da_init = sha1_init, da_update = sha1_update, da_final = sha1_final \<rparr>"

section \<open>The context of the SHA-2 algorithms\<close>

record sha2_context = digest_context +
  ctx_digestsize :: u64

section \<open>The SHA-256 family\<close>

record sha256_variables =
  s2_a :: u32
  s2_b :: u32
  s2_c :: u32
  s2_d :: u32
  s2_e :: u32
  s2_f :: u32
  s2_g :: u32
  s2_h :: u32
  s2_w :: "u32 list"

definition sha256_k :: "u32 list" where
  "sha256_k = concat
     [[0x428a2f98, 0x71374491, 0xb5c0fbcf, 0xe9b5dba5, 0x3956c25b, 0x59f111f1],
      [0x923f82a4, 0xab1c5ed5, 0xd807aa98, 0x12835b01, 0x243185be, 0x550c7dc3],
      [0x72be5d74, 0x80deb1fe, 0x9bdc06a7, 0xc19bf174, 0xe49b69c1, 0xefbe4786],
      [0x0fc19dc6, 0x240ca1cc, 0x2de92c6f, 0x4a7484aa, 0x5cb0a9dc, 0x76f988da],
      [0x983e5152, 0xa831c66d, 0xb00327c8, 0xbf597fc7, 0xc6e00bf3, 0xd5a79147],
      [0x06ca6351, 0x14292967, 0x27b70a85, 0x2e1b2138, 0x4d2c6dfc, 0x53380d13],
      [0x650a7354, 0x766a0abb, 0x81c2c92e, 0x92722c85, 0xa2bfe8a1, 0xa81a664b],
      [0xc24b8b70, 0xc76c51a3, 0xd192e819, 0xd6990624, 0xf40e3585, 0x106aa070],
      [0x19a4c116, 0x1e376c08, 0x2748774c, 0x34b0bcb5, 0x391c0cb3, 0x4ed8aa4a],
      [0x5b9cca4f, 0x682e6ff3, 0x748f82ee, 0x78a5636f, 0x84c87814, 0x8cc70208],
      [0x90befffa, 0xa4506ceb, 0xbef9a3f7, 0xc67178f2]]"

definition sha256_init_digest :: "u32 list" where
  "sha256_init_digest =
     [0x6a09e667, 0xbb67ae85, 0x3c6ef372, 0xa54ff53a,
      0x510e527f, 0x9b05688c, 0x1f83d9ab, 0x5be0cd19]"

definition sha256_family_init :: "sha2_context \<Rightarrow> u32 list \<Rightarrow> u64 \<Rightarrow> sha2_context" where
  "sha256_family_init c h digestsize =
     c\<lparr>ctx_len := 0, ctx_digestsize := digestsize, ctx_digest := concat (map cpu_to_be32 h)\<rparr>"

definition sha256_init :: "sha2_context \<Rightarrow> sha2_context" where
  "sha256_init c = sha256_family_init c sha256_init_digest 32"

definition sha256_extend :: "u32 list \<Rightarrow> nat \<Rightarrow> u32 list" where
  "sha256_extend w i =
     (let s0 = ror32 (w ! (i - 15)) 7 XOR ror32 (w ! (i - 15)) 18 XOR drop_bit 3 (w ! (i - 15));
          s1 = ror32 (w ! (i - 2)) 17 XOR ror32 (w ! (i - 2)) 19 XOR drop_bit 10 (w ! (i - 2))
      in w @ [w ! (i - 16) + s0 + w ! (i - 7) + s1])"

definition sha256_loop_step :: "sha256_variables \<Rightarrow> nat \<Rightarrow> sha256_variables" where
  "sha256_loop_step v i =
     (let s0 = ror32 (s2_a v) 2 XOR ror32 (s2_a v) 13 XOR ror32 (s2_a v) 22;
          maj = (s2_a v AND s2_b v) XOR (s2_a v AND s2_c v) XOR (s2_b v AND s2_c v);
          t2 = s0 + maj;
          s1 = ror32 (s2_e v) 6 XOR ror32 (s2_e v) 11 XOR ror32 (s2_e v) 25;
          ch = (s2_e v AND s2_f v) XOR (NOT (s2_e v) AND s2_g v);
          t1 = s2_h v + s1 + ch + sha256_k ! i + s2_w v ! i
      in \<lparr> s2_a = t1 + t2, s2_b = s2_a v, s2_c = s2_b v, s2_d = s2_c v,
           s2_e = s2_d v + t1, s2_f = s2_e v, s2_g = s2_f v, s2_h = s2_g v, s2_w = s2_w v \<rparr>)"

definition sha256_digest :: "sha2_context \<Rightarrow> sha2_context" where
  "sha256_digest c =
     (let dword = map be32_to_cpu (blocks 4 (ctx_digest c @ ctx_data c));
          w = foldl sha256_extend (drop 8 dword) [16..<64];
          v = \<lparr> s2_a = dword ! 0, s2_b = dword ! 1, s2_c = dword ! 2, s2_d = dword ! 3,
                s2_e = dword ! 4, s2_f = dword ! 5, s2_g = dword ! 6, s2_h = dword ! 7, s2_w = w \<rparr>;
          v = foldl sha256_loop_step v [0..<64];
          h = map2 (+) (take 8 dword) [s2_a v, s2_b v, s2_c v, s2_d v, s2_e v, s2_f v, s2_g v, s2_h v]
      in c\<lparr>ctx_digest := concat (map cpu_to_be32 h), ctx_data := concat (map cpu_to_le32 (drop 8 dword))\<rparr>)"

fun sha256_update :: "sha2_context \<Rightarrow> u8 list \<Rightarrow> sha2_context" where
  "sha256_update c [] = c"
| "sha256_update c (byte # rest) =
     (let offset = unat (ctx_len c) mod 64;
          c = c\<lparr>ctx_data := (ctx_data c)[offset := byte]\<rparr>;
          c = c\<lparr>ctx_len := ctx_len c + 1\<rparr>;
          c = (if unat (ctx_len c) mod 64 = 0 then sha256_digest c else c)
      in sha256_update c rest)"

partial_function (option) sha256_pad :: "u8 \<Rightarrow> sha2_context \<Rightarrow> sha2_context option" where
  "sha256_pad pad c =
     (let c = sha256_update c [pad]
      in if unat (ctx_len c) mod 64 \<noteq> 56 then sha256_pad 0 c else Some c)"

declare sha256_pad.simps [code]

definition sha256_final :: "sha2_context \<Rightarrow> (sha2_context \<times> u8 list) option" where
  "sha256_final c =
     (let len_bits = cpu_to_be64 (ctx_len c * 8)
      in case sha256_pad 0x80 c of
           None \<Rightarrow> None
         | Some c \<Rightarrow>
             let c = sha256_update c len_bits
             in Some (c, take (unat (ctx_digestsize c)) (ctx_digest c)))"

definition sha256_algorithm :: "sha2_context digest_algorithm" where
  "sha256_algorithm = \<lparr> da_name = ''sha256'', da_blocksize = 64, da_digestsize = 32,
     da_init = sha256_init, da_update = sha256_update, da_final = sha256_final \<rparr>"

definition sha224_init_digest :: "u32 list" where
  "sha224_init_digest =
     [0xc1059ed8, 0x367cd507, 0x3070dd17, 0xf70e5939,
      0xffc00b31, 0x68581511, 0x64f98fa7, 0xbefa4fa4]"

definition sha224_init :: "sha2_context \<Rightarrow> sha2_context" where
  "sha224_init c = sha256_family_init c sha224_init_digest 28"

definition sha224_algorithm :: "sha2_context digest_algorithm" where
  "sha224_algorithm = \<lparr> da_name = ''sha224'', da_blocksize = 64, da_digestsize = 28,
     da_init = sha224_init, da_update = sha256_update, da_final = sha256_final \<rparr>"

section \<open>The SHA-512 family\<close>

record sha512_variables =
  q_a :: u64
  q_b :: u64
  q_c :: u64
  q_d :: u64
  q_e :: u64
  q_f :: u64
  q_g :: u64
  q_h :: u64
  q_w :: "u64 list"

definition sha512_k :: "u64 list" where
  "sha512_k = concat
     [[0x428a2f98d728ae22, 0x7137449123ef65cd, 0xb5c0fbcfec4d3b2f],
      [0xe9b5dba58189dbbc, 0x3956c25bf348b538, 0x59f111f1b605d019],
      [0x923f82a4af194f9b, 0xab1c5ed5da6d8118, 0xd807aa98a3030242],
      [0x12835b0145706fbe, 0x243185be4ee4b28c, 0x550c7dc3d5ffb4e2],
      [0x72be5d74f27b896f, 0x80deb1fe3b1696b1, 0x9bdc06a725c71235],
      [0xc19bf174cf692694, 0xe49b69c19ef14ad2, 0xefbe4786384f25e3],
      [0x0fc19dc68b8cd5b5, 0x240ca1cc77ac9c65, 0x2de92c6f592b0275],
      [0x4a7484aa6ea6e483, 0x5cb0a9dcbd41fbd4, 0x76f988da831153b5],
      [0x983e5152ee66dfab, 0xa831c66d2db43210, 0xb00327c898fb213f],
      [0xbf597fc7beef0ee4, 0xc6e00bf33da88fc2, 0xd5a79147930aa725],
      [0x06ca6351e003826f, 0x142929670a0e6e70, 0x27b70a8546d22ffc],
      [0x2e1b21385c26c926, 0x4d2c6dfc5ac42aed, 0x53380d139d95b3df],
      [0x650a73548baf63de, 0x766a0abb3c77b2a8, 0x81c2c92e47edaee6],
      [0x92722c851482353b, 0xa2bfe8a14cf10364, 0xa81a664bbc423001],
      [0xc24b8b70d0f89791, 0xc76c51a30654be30, 0xd192e819d6ef5218],
      [0xd69906245565a910, 0xf40e35855771202a, 0x106aa07032bbd1b8],
      [0x19a4c116b8d2d0c8, 0x1e376c085141ab53, 0x2748774cdf8eeb99],
      [0x34b0bcb5e19b48a8, 0x391c0cb3c5c95a63, 0x4ed8aa4ae3418acb],
      [0x5b9cca4f7763e373, 0x682e6ff3d6b2b8a3, 0x748f82ee5defb2fc],
      [0x78a5636f43172f60, 0x84c87814a1f0ab72, 0x8cc702081a6439ec],
      [0x90befffa23631e28, 0xa4506cebde82bde9, 0xbef9a3f7b2c67915],
      [0xc67178f2e372532b, 0xca273eceea26619c, 0xd186b8c721c0c207],
      [0xeada7dd6cde0eb1e, 0xf57d4f7fee6ed178, 0x06f067aa72176fba],
      [0x0a637dc5a2c898a6, 0x113f9804bef90dae, 0x1b710b35131c471b],
      [0x28db77f523047d84, 0x32caab7b40c72493, 0x3c9ebe0a15c9bebc],
      [0x431d67c49c100d4c, 0x4cc5d4becb3e42b6, 0x597f299cfc657e2a],
      [0x5fcb6fab3ad6faec, 0x6c44198c4a475817]]"

definition sha512_init_digest :: "u64 list" where
  "sha512_init_digest =
     [0x6a09e667f3bcc908, 0xbb67ae8584caa73b,
      0x3c6ef372fe94f82b, 0xa54ff53a5f1d36f1,
      0x510e527fade682d1, 0x9b05688c2b3e6c1f,
      0x1f83d9abfb41bd6b, 0x5be0cd19137e2179]"

definition sha512_family_init :: "sha2_context \<Rightarrow> u64 list \<Rightarrow> u64 \<Rightarrow> sha2_context" where
  "sha512_family_init c h digestsize =
     c\<lparr>ctx_len := 0, ctx_digestsize := digestsize, ctx_digest := concat (map cpu_to_be64 h)\<rparr>"

definition sha512_init :: "sha2_context \<Rightarrow> sha2_context" where
  "sha512_init c = sha512_family_init c sha512_init_digest 64"

definition sha512_extend :: "u64 list \<Rightarrow> nat \<Rightarrow> u64 list" where
  "sha512_extend w i =
     (let s0 = ror64 (w ! (i - 15)) 1 XOR ror64 (w ! (i - 15)) 8 XOR drop_bit 7 (w ! (i - 15));
          s1 = ror64 (w ! (i - 2)) 19 XOR ror64 (w ! (i - 2)) 61 XOR drop_bit 6 (w ! (i - 2))
      in w @ [w ! (i - 16) + s0 + w ! (i - 7) + s1])"

definition sha512_loop_step :: "sha512_variables \<Rightarrow> nat \<Rightarrow> sha512_variables" where
  "sha512_loop_step v i =
     (let s0 = ror64 (q_a v) 28 XOR ror64 (q_a v) 34 XOR ror64 (q_a v) 39;
          maj = (q_a v AND q_b v) XOR (q_a v AND q_c v) XOR (q_b v AND q_c v);
          t2 = s0 + maj;
          s1 = ror64 (q_e v) 14 XOR ror64 (q_e v) 18 XOR ror64 (q_e v) 41;
          ch = (q_e v AND q_f v) XOR (NOT (q_e v) AND q_g v);
          t1 = q_h v + s1 + ch + sha512_k ! i + q_w v ! i
      in \<lparr> q_a = t1 + t2, q_b = q_a v, q_c = q_b v, q_d = q_c v,
           q_e = q_d v + t1, q_f = q_e v, q_g = q_f v, q_h = q_g v, q_w = q_w v \<rparr>)"

definition sha512_digest :: "sha2_context \<Rightarrow> sha2_context" where
  "sha512_digest c =
     (let dword = map be64_to_cpu (blocks 8 (ctx_digest c @ ctx_data c));
          w = foldl sha512_extend (drop 8 dword) [16..<80];
          v = \<lparr> q_a = dword ! 0, q_b = dword ! 1, q_c = dword ! 2, q_d = dword ! 3,
                q_e = dword ! 4, q_f = dword ! 5, q_g = dword ! 6, q_h = dword ! 7, q_w = w \<rparr>;
          v = foldl sha512_loop_step v [0..<80];
          h = map2 (+) (take 8 dword) [q_a v, q_b v, q_c v, q_d v, q_e v, q_f v, q_g v, q_h v]
      in c\<lparr>ctx_digest := concat (map cpu_to_be64 h), ctx_data := concat (map cpu_to_le64 (drop 8 dword))\<rparr>)"

fun sha512_update :: "sha2_context \<Rightarrow> u8 list \<Rightarrow> sha2_context" where
  "sha512_update c [] = c"
| "sha512_update c (byte # rest) =
     (let offset = unat (ctx_len c) mod 128;
          c = c\<lparr>ctx_data := (ctx_data c)[offset := byte]\<rparr>;
          c = c\<lparr>ctx_len := ctx_len c + 1\<rparr>;
          c = (if unat (ctx_len c) mod 128 = 0 then sha512_digest c else c)
      in sha512_update c rest)"

partial_function (option) sha512_pad :: "u8 \<Rightarrow> sha2_context \<Rightarrow> sha2_context option" where
  "sha512_pad pad c =
     (let c = sha512_update c [pad]
      in if unat (ctx_len c) mod 128 \<noteq> 112 then sha512_pad 0 c else Some c)"

declare sha512_pad.simps [code]

definition sha512_final :: "sha2_context \<Rightarrow> (sha2_context \<times> u8 list) option" where
  "sha512_final c =
     (let len_bits_hi = replicate 8 0;
          len_bits_lo = cpu_to_be64 (ctx_len c * 8)
      in case sha512_pad 0x80 c of
           None \<Rightarrow> None
         | Some c \<Rightarrow>
             let c = sha512_update c len_bits_hi;
                 c = sha512_update c len_bits_lo
             in Some (c, take (unat (ctx_digestsize c)) (ctx_digest c)))"

definition sha512_algorithm :: "sha2_context digest_algorithm" where
  "sha512_algorithm = \<lparr> da_name = ''sha512'', da_blocksize = 128, da_digestsize = 64,
     da_init = sha512_init, da_update = sha512_update, da_final = sha512_final \<rparr>"

definition sha384_init_digest :: "u64 list" where
  "sha384_init_digest =
     [0xcbbb9d5dc1059ed8, 0x629a292a367cd507,
      0x9159015a3070dd17, 0x152fecd8f70e5939,
      0x67332667ffc00b31, 0x8eb44a8768581511,
      0xdb0c2e0d64f98fa7, 0x47b5481dbefa4fa4]"

definition sha384_init :: "sha2_context \<Rightarrow> sha2_context" where
  "sha384_init c = sha512_family_init c sha384_init_digest 48"

definition sha384_algorithm :: "sha2_context digest_algorithm" where
  "sha384_algorithm = \<lparr> da_name = ''sha384'', da_blocksize = 128, da_digestsize = 48,
     da_init = sha384_init, da_update = sha512_update, da_final = sha512_final \<rparr>"

definition sha512_256_init_digest :: "u64 list" where
  "sha512_256_init_digest =
     [0x22312194fc2bf72c, 0x9f555fa3c84c64c2,
      0x2393b86b6f53b151, 0x963877195940eabd,
      0x96283ee2a88effe3, 0xbe5e1e2553863992,
      0x2b0199fc2c85b8aa, 0x0eb72ddc81c52ca2]"

definition sha512_256_init :: "sha2_context \<Rightarrow> sha2_context" where
  "sha512_256_init c = sha512_family_init c sha512_256_init_digest 32"

definition sha512_256_algorithm :: "sha2_context digest_algorithm" where
  "sha512_256_algorithm = \<lparr> da_name = ''sha512/256'', da_blocksize = 128, da_digestsize = 32,
     da_init = sha512_256_init, da_update = sha512_update, da_final = sha512_final \<rparr>"

definition sha512_224_init_digest :: "u64 list" where
  "sha512_224_init_digest =
     [0x8c3d37c819544da2, 0x73e1996689dcd4d6,
      0x1dfab7ae32ff9c82, 0x679dd514582f9fcf,
      0x0f6d2b697bd44da8, 0x77e36f7304c48942,
      0x3f9d85a86a1d36c8, 0x1112e6ad91d692a1]"

definition sha512_224_init :: "sha2_context \<Rightarrow> sha2_context" where
  "sha512_224_init c = sha512_family_init c sha512_224_init_digest 28"

definition sha512_224_algorithm :: "sha2_context digest_algorithm" where
  "sha512_224_algorithm = \<lparr> da_name = ''sha512/224'', da_blocksize = 128, da_digestsize = 28,
     da_init = sha512_224_init, da_update = sha512_update, da_final = sha512_final \<rparr>"


section \<open>The algorithms of FIPS 180-4\<close>

definition Ch :: "'a::len word \<Rightarrow> 'a word \<Rightarrow> 'a word \<Rightarrow> 'a word" where
  "Ch x y z = (x AND y) XOR (NOT x AND z)"

definition Parity :: "'a::len word \<Rightarrow> 'a word \<Rightarrow> 'a word \<Rightarrow> 'a word" where
  "Parity x y z = x XOR y XOR z"

definition Maj :: "'a::len word \<Rightarrow> 'a word \<Rightarrow> 'a word \<Rightarrow> 'a word" where
  "Maj x y z = (x AND y) XOR (x AND z) XOR (y AND z)"

fun sha1_W :: "u32 list \<Rightarrow> nat \<Rightarrow> u32" where
  "sha1_W M t = (if t < 16 then M ! t
     else word_rotl 1 (sha1_W M (t - 3) XOR sha1_W M (t - 8) XOR sha1_W M (t - 14) XOR sha1_W M (t - 16)))"

definition sha1_ft :: "nat \<Rightarrow> u32 \<Rightarrow> u32 \<Rightarrow> u32 \<Rightarrow> u32" where
  "sha1_ft t = (if t \<le> 19 then Ch else if t \<le> 39 then Parity else if t \<le> 59 then Maj else Parity)"

definition sha1_Kt :: "nat \<Rightarrow> u32" where
  "sha1_Kt t = (if t \<le> 19 then 0x5a827999 else if t \<le> 39 then 0x6ed9eba1 else if t \<le> 59 then 0x8f1bbcdc else 0xca62c1d6)"

fun sha1_op :: "u32 list \<Rightarrow> u32 \<times> u32 \<times> u32 \<times> u32 \<times> u32 \<Rightarrow> nat \<Rightarrow> u32 \<times> u32 \<times> u32 \<times> u32 \<times> u32" where
  "sha1_op M (a, b, c, d, e) t =
     (word_rotl 5 a + sha1_ft t b c d + e + sha1_Kt t + sha1_W M t, a, word_rotl 30 b, c, d)"

definition sha1_compress :: "u8 list \<Rightarrow> u8 list \<Rightarrow> u8 list" where
  "sha1_compress h blk =
     (let H = map be32_to_cpu (blocks 4 h);
          M = map be32_to_cpu (blocks 4 blk);
          (a, b, c, d, e) = foldl (sha1_op M) (H ! 0, H ! 1, H ! 2, H ! 3, H ! 4) [0..<80]
      in concat (map cpu_to_be32 [H ! 0 + a, H ! 1 + b, H ! 2 + c, H ! 3 + d, H ! 4 + e]))"

definition sha1_iv :: "u8 list" where
  "sha1_iv = concat (map cpu_to_be32 [0x67452301, 0xefcdab89, 0x98badcfe, 0x10325476, 0xc3d2e1f0])"

definition fips_sha1 :: "u8 list \<Rightarrow> u8 list" where
  "fips_sha1 = md_hash sha1_compress sha1_iv 64 56 (be_nat 8)"

section \<open>SHA-1 is correct\<close>

lemma or_forms:
  "(x AND y) OR (NOT x AND z) = Ch x y z" "(x AND y) OR (x AND z) OR (y AND z) = Maj x y z" for x y z :: "'a::len word"
  by (rule bit_word_eqI, auto simp: Ch_def Maj_def bit_simps)+

declare sha1_W.simps [simp del]

lemma sha1_schedule:
  assumes "length M = 16"
  shows "foldl sha1_extend M [16..<80] = map (sha1_W M) [0..<80]"
proof -
  have "map (sha1_W M) [0..<16] = M"
    using assms by (intro nth_equalityI) (simp_all add: sha1_W.simps)
  moreover have "sha1_extend (map (sha1_W M) [0..<i]) i = map (sha1_W M) [0..<i] @ [sha1_W M i]" if "16 \<le> i" for i
    using that by (simp add: sha1_extend_def rol32_rotl sha1_W.simps [of M i])
  ultimately show ?thesis using schedule [of 80 sha1_extend "sha1_W M"] by simp
qed

fun sha1_tuple :: "sha1_variables \<Rightarrow> u32 \<times> u32 \<times> u32 \<times> u32 \<times> u32" where
  "sha1_tuple v = (s1_a v, s1_b v, s1_c v, s1_d v, s1_e v)"

lemma sha1_loop_op:
  assumes "i < 80" "s1_w v = map (sha1_W M) [0..<80]"
  shows "sha1_tuple (sha1_loop_step v i) = sha1_op M (sha1_tuple v) i \<and> s1_w (sha1_loop_step v i) = s1_w v"
proof -
  have "n < 4 \<Longrightarrow> n \<in> {0, 1, 2, 3}" for n :: nat by auto
  then have q: "i div 20 \<in> {0, 1, 2, 3}" using assms by simp
  have "i \<le> 19 \<longleftrightarrow> i div 20 = 0" "i \<le> 39 \<longleftrightarrow> i div 20 \<le> 1" "i \<le> 59 \<longleftrightarrow> i div 20 \<le> 2" by (simp_all, arith+)
  then have "st1_f (sha1_steps ! (i div 20)) v = sha1_ft i (s1_b v) (s1_c v) (s1_d v)
      \<and> st1_k (sha1_steps ! (i div 20)) = sha1_Kt i"
    using q by (elim insertE emptyE)
      (simp_all add: sha1_steps_def sha1_ft_def sha1_Kt_def sha1_f_0_19_def sha1_f_20_39_60_79_def
        sha1_f_40_59_def or_forms Parity_def)
  then show ?thesis using assms by (simp add: sha1_loop_step_def Let_def rol32_rotl)
qed


lemma sha1_digest_law:
  assumes "length (ctx_digest c) = 20" "length (ctx_data c) = 64"
  shows "ctx_len (sha1_digest c) = ctx_len c
    \<and> ctx_digest (sha1_digest c) = sha1_compress (ctx_digest c) (ctx_data c)
    \<and> length (ctx_data (sha1_digest c)) = 64"
proof -
  define H M where "H = map be32_to_cpu (blocks 4 (ctx_digest c))" and "M = map be32_to_cpu (blocks 4 (ctx_data c))"
  have k: "0 < (4::nat)" "length (ctx_digest c) = 4 * 5" using assms by simp_all
  note d = dwords [OF k refl, where f = be32_to_cpu and b = "ctx_data c", folded H_def M_def]
  have i: "0 < (5::nat)" "1 < (5::nat)" "2 < (5::nat)" "3 < (5::nat)" "4 < (5::nat)" by simp_all
  note e = i [THEN d(3)]
  have len: "length H = 5" "length M = 16" using assms by (simp_all add: H_def M_def)
  define v where "v = foldl sha1_loop_step \<lparr> s1_a = H ! 0, s1_b = H ! 1, s1_c = H ! 2, s1_d = H ! 3, s1_e = H ! 4,
    s1_w = map (sha1_W M) [0..<80] \<rparr> [0..<80]"
  have t: "sha1_tuple v = foldl (sha1_op M) (H ! 0, H ! 1, H ! 2, H ! 3, H ! 4) [0..<80]"
    unfolding v_def
    by (subst foldl_sim [of 80 "\<lambda>u. s1_w u = map (sha1_W M) [0..<80]" sha1_tuple sha1_loop_step "sha1_op M"])
      (simp_all only: sha1_loop_op sha1_variables.simps, simp)
  have "concat (map cpu_to_be32 (map2 (+) H [s1_a v, s1_b v, s1_c v, s1_d v, s1_e v]))
      = sha1_compress (ctx_digest c) (ctx_data c)"
    unfolding sha1_compress_def Let_def H_def [symmetric] M_def [symmetric] t [symmetric] sha1_tuple.simps
    by (subst list_nths(2) [OF len(1)]) simp
  then show ?thesis
    unfolding sha1_digest_def Let_def d(1,2) e sha1_schedule [OF len(2)] v_def [symmetric]
    using len(2) by (simp add: length_concat_words)
qed

lemma sha1_compress_length: "length (sha1_compress h b) = 20"
  by (simp add: sha1_compress_def Let_def split_beta)

interpretation sha1: hash_algorithm sha1_digest sha1_update sha1_compress 64 20 sha1_pad 56
  sha1_algorithm sha1_iv "()" "\<lambda>len. cpu_to_be64 (len * 8)" "be_nat 8" ctx_digest 20
proof
  show "sha1_pad p c = (let c1 = sha1_update c [p] in if unat (ctx_len c1) mod 64 \<noteq> 56 then sha1_pad 0 c1 else Some c1)" for p c
    by (subst sha1_pad.simps) (rule refl)
  show "da_final sha1_algorithm c = map_option
      (\<lambda>c1. let c2 = sha1_update c1 (cpu_to_be64 (ctx_len c * 8)) in (c2, ctx_digest c2)) (sha1_pad 0x80 c)" for c
    by (simp add: sha1_algorithm_def sha1_final_def Let_def split: option.split)
qed (use sha1_digest_law in \<open>auto simp: Let_def dvd_block sha1_compress_length be64_bits
      sha1_algorithm_def sha1_init_def sha1_iv_def\<close>)

lemma sha1_implements: "digest_implements sha1_algorithm (array_sizes 20 64) fips_sha1"
  using sha1.implements sha1.hash_length by (simp add: fips_sha1_def [abs_def])


section \<open>The constants of FIPS 180-4\<close>

text \<open>
  The standard takes the constants from the first bits of the fractional parts
  of the square and cube roots of the first primes: for words of \<open>w\<close> bits, the
  last \<open>w\<close> bits of the integer part of \<open>2 ^ w\<close> times the root.
\<close>

definition primes :: "nat list" where
  "primes =
    [2, 3, 5, 7, 11, 13, 17, 19, 23, 29, 31, 37, 41, 43, 47, 53, 59, 61, 67, 71, 73, 79, 83, 89, 97, 101, 103, 107,
     109, 113, 127, 131, 137, 139, 149, 151, 157, 163, 167, 173, 179, 181, 191, 193, 197, 199, 211, 223, 227, 229,
     233, 239, 241, 251, 257, 263, 269, 271, 277, 281, 283, 293, 307, 311, 313, 317, 331, 337, 347, 349, 353, 359,
     367, 373, 379, 383, 389, 397, 401, 409]"

definition floor_root :: "nat \<Rightarrow> nat \<Rightarrow> nat" where
  "floor_root k n = (GREATEST c. c ^ k \<le> n)"

definition frac_root :: "nat \<Rightarrow> nat \<Rightarrow> 'a::len word" where
  "frac_root k p = of_nat (floor_root k (p * 2 ^ (k * LENGTH('a))))"

lemma floor_root_eqI: "c ^ k \<le> n \<Longrightarrow> n < (c + 1) ^ k \<Longrightarrow> floor_root k n = c"
  unfolding floor_root_def
proof (rule Greatest_equality)
  fix y assume "n < (c + 1) ^ k" "y ^ k \<le> n"
  then have "y ^ k < (c + 1) ^ k" by simp
  then have "y < c + 1" by (rule power_less_imp_less_base) simp
  then show "y \<le> c" by simp
qed

definition root_check :: "nat \<Rightarrow> nat \<Rightarrow> int \<Rightarrow> int \<Rightarrow> bool" where
  "root_check k w p x \<longleftrightarrow>
     (let i = of_nat (length (filter (\<lambda>i. i ^ k \<le> p) [1, 2, 3, 4, 5, 6, 7]));
          c = i * 2 ^ w + x; n = p * 2 ^ (k * w)
      in c ^ k \<le> n \<and> n < (c + 1) ^ k)"

lemma root_check:
  assumes "root_check k LENGTH('a) (int p) (uint x)"
  shows "frac_root k p = (x :: 'a::len word)"
proof -
  define i where "i = int (length (filter (\<lambda>i. i ^ k \<le> int p) [1, 2, 3, 4, 5, 6, 7]))"
  have c: "(i * 2 ^ LENGTH('a) + uint x) ^ k \<le> int p * 2 ^ (k * LENGTH('a))"
      "int p * 2 ^ (k * LENGTH('a)) < (i * 2 ^ LENGTH('a) + uint x + 1) ^ k"
    using assms unfolding root_check_def Let_def i_def [symmetric] by simp_all
  have i: "0 \<le> i" by (simp add: i_def)
  define c' where "c' = nat i * 2 ^ LENGTH('a) + unat x"
  have e: "int c' = i * 2 ^ LENGTH('a) + uint x" using i by (simp add: c'_def)
  have "int (c' ^ k) \<le> int (p * 2 ^ (k * LENGTH('a)))" "int (p * 2 ^ (k * LENGTH('a))) < int ((c' + 1) ^ k)"
    using c unfolding e [symmetric] by (simp_all add: add.commute)
  then have "floor_root k (p * 2 ^ (k * LENGTH('a))) = c'" by (intro floor_root_eqI) (simp_all only: of_nat_le_iff of_nat_less_iff)
  then show ?thesis by (simp add: frac_root_def c'_def)
qed

lemma root_table:
  assumes "list_all2 (\<lambda>p x. root_check k LENGTH('a) (int p) (uint x)) ps xs"
  shows "map (frac_root k) ps = (xs :: 'a::len word list)"
  using assms by (induction rule: list_all2_induct) (simp_all add: root_check)

definition fips_K256 :: "u32 list" where
  "fips_K256 = map (frac_root 3) (take 64 primes)"

definition fips_K512 :: "u64 list" where
  "fips_K512 = map (frac_root 3) (take 80 primes)"

definition fips_H256 :: "u32 list" where
  "fips_H256 = map (frac_root 2) (take 8 primes)"

definition fips_H512 :: "u64 list" where
  "fips_H512 = map (frac_root 2) (take 8 primes)"

definition fips_H384 :: "u64 list" where
  "fips_H384 = map (frac_root 2) (take 8 (drop 8 primes))"

definition fips_H224 :: "u32 list" where
  "fips_H224 = map ucast fips_H384"

lemma fips_K256: "fips_K256 = sha256_k"
  unfolding fips_K256_def by (rule root_table) (simp add: primes_def sha256_k_def root_check_def)

lemma fips_K512: "fips_K512 = sha512_k"
  unfolding fips_K512_def by (rule root_table) (simp add: primes_def sha512_k_def root_check_def)

lemma fips_H256: "fips_H256 = sha256_init_digest"
  unfolding fips_H256_def by (rule root_table) (simp add: primes_def sha256_init_digest_def root_check_def)

lemma fips_H512: "fips_H512 = sha512_init_digest"
  unfolding fips_H512_def by (rule root_table) (simp add: primes_def sha512_init_digest_def root_check_def)

lemma fips_H384: "fips_H384 = sha384_init_digest"
  unfolding fips_H384_def by (rule root_table) (simp add: primes_def sha384_init_digest_def root_check_def)

lemma fips_H224: "fips_H224 = sha224_init_digest"
  by (simp add: fips_H224_def fips_H384 sha384_init_digest_def sha224_init_digest_def)

lemmas fips_constants = fips_K256 fips_K512 fips_H256 fips_H512 fips_H384 fips_H224

section \<open>The SHA-2 functions of FIPS 180-4\<close>

fun sha2_W :: "('a::len word \<Rightarrow> 'a word) \<Rightarrow> ('a word \<Rightarrow> 'a word) \<Rightarrow> 'a word list \<Rightarrow> nat \<Rightarrow> 'a word" where
  "sha2_W s0 s1 M t = (if t < 16 then M ! t
     else s1 (sha2_W s0 s1 M (t - 2)) + sha2_W s0 s1 M (t - 7) + s0 (sha2_W s0 s1 M (t - 15)) + sha2_W s0 s1 M (t - 16))"

declare sha2_W.simps [simp del]

type_synonym 'a sha2_state = "'a word \<times> 'a word \<times> 'a word \<times> 'a word \<times> 'a word \<times> 'a word \<times> 'a word \<times> 'a word"

fun sha2_op ::
    "('a::len word \<Rightarrow> 'a word) \<Rightarrow> ('a word \<Rightarrow> 'a word) \<Rightarrow> 'a word list \<Rightarrow> (nat \<Rightarrow> 'a word) \<Rightarrow> 'a sha2_state \<Rightarrow> nat \<Rightarrow> 'a sha2_state" where
  "sha2_op S0 S1 K W (a, b, c, d, e, f, g, h) t =
     (let T1 = h + S1 e + Ch e f g + K ! t + W t;
          T2 = S0 a + Maj a b c
      in (T1 + T2, a, b, c, d + T1, e, f, g))"

definition sha2_add :: "'a::len word list \<Rightarrow> 'a sha2_state \<Rightarrow> 'a word list" where
  "sha2_add H s = (case s of (a, b, c, d, e, f, g, h) \<Rightarrow>
     [H ! 0 + a, H ! 1 + b, H ! 2 + c, H ! 3 + d, H ! 4 + e, H ! 5 + f, H ! 6 + g, H ! 7 + h])"

lemma sha2_schedule:
  assumes "length M = 16" "16 \<le> n"
    "\<And>w i. 16 \<le> i \<Longrightarrow> ext w i = w @ [w ! (i - 16) + s0 (w ! (i - 15)) + w ! (i - 7) + s1 (w ! (i - 2))]"
  shows "foldl ext M [16..<n] = map (sha2_W s0 s1 M) [0..<n]"
proof -
  have "map (sha2_W s0 s1 M) [0..<16] = M"
    using assms(1) by (intro nth_equalityI) (simp_all add: sha2_W.simps)
  moreover have "ext (map (sha2_W s0 s1 M) [0..<i]) i = map (sha2_W s0 s1 M) [0..<i] @ [sha2_W s0 s1 M i]" if "16 \<le> i" for i
    using that by (simp add: assms(3) sha2_W.simps [of s0 s1 M i] ac_simps)
  ultimately show ?thesis using schedule [of n ext "sha2_W s0 s1 M"] assms(2) by simp
qed

lemma sha2_ext: "digest_context.more c = sha2_context.fields n \<longleftrightarrow> ctx_digestsize c = n" for c :: sha2_context
  by (cases c) (simp add: sha2_context.defs)

section \<open>The SHA-256 family is correct\<close>

definition sha256_W :: "u32 list \<Rightarrow> nat \<Rightarrow> u32" where
  "sha256_W = sha2_W (\<lambda>x. word_rotr 7 x XOR word_rotr 18 x XOR drop_bit 3 x)
     (\<lambda>x. word_rotr 17 x XOR word_rotr 19 x XOR drop_bit 10 x)"

definition sha256_op :: "u32 list \<Rightarrow> 32 sha2_state \<Rightarrow> nat \<Rightarrow> 32 sha2_state" where
  "sha256_op M = sha2_op (\<lambda>x. word_rotr 2 x XOR word_rotr 13 x XOR word_rotr 22 x)
     (\<lambda>x. word_rotr 6 x XOR word_rotr 11 x XOR word_rotr 25 x) fips_K256 (sha256_W M)"

definition sha256_compress :: "u8 list \<Rightarrow> u8 list \<Rightarrow> u8 list" where
  "sha256_compress h blk =
     (let H = map be32_to_cpu (blocks 4 h);
          M = map be32_to_cpu (blocks 4 blk)
      in concat (map cpu_to_be32
           (sha2_add H (foldl (sha256_op M) (H ! 0, H ! 1, H ! 2, H ! 3, H ! 4, H ! 5, H ! 6, H ! 7) [0..<64]))))"

fun sha256_tuple :: "sha256_variables \<Rightarrow> 32 sha2_state" where
  "sha256_tuple v = (s2_a v, s2_b v, s2_c v, s2_d v, s2_e v, s2_f v, s2_g v, s2_h v)"

lemma sha256_schedule: "length M = 16 \<Longrightarrow> foldl sha256_extend M [16..<64] = map (sha256_W M) [0..<64]"
  unfolding sha256_W_def by (rule sha2_schedule) (simp_all add: sha256_extend_def Let_def ror32_rotr)

lemma sha256_loop_op:
  assumes "i < 64" "s2_w v = map (sha256_W M) [0..<64]"
  shows "sha256_tuple (sha256_loop_step v i) = sha256_op M (sha256_tuple v) i \<and> s2_w (sha256_loop_step v i) = s2_w v"
  using assms by (simp add: sha256_loop_step_def sha256_op_def fips_constants Let_def ror32_rotr Ch_def Maj_def)

lemma sha256_digest_law:
  assumes "length (ctx_digest c) = 32" "length (ctx_data c) = 64"
  shows "ctx_len (sha256_digest c) = ctx_len c
    \<and> ctx_digest (sha256_digest c) = sha256_compress (ctx_digest c) (ctx_data c)
    \<and> length (ctx_data (sha256_digest c)) = 64 \<and> digest_context.more (sha256_digest c) = digest_context.more c"
proof -
  define H M where "H = map be32_to_cpu (blocks 4 (ctx_digest c))" and "M = map be32_to_cpu (blocks 4 (ctx_data c))"
  have k: "0 < (4::nat)" "length (ctx_digest c) = 4 * 8" using assms by simp_all
  note d = dwords [OF k refl, where f = be32_to_cpu and b = "ctx_data c", folded H_def M_def]
  have i: "0 < (8::nat)" "1 < (8::nat)" "2 < (8::nat)" "3 < (8::nat)" "4 < (8::nat)" "5 < (8::nat)" "6 < (8::nat)" "7 < (8::nat)"
    by simp_all
  note e = i [THEN d(3)]
  have len: "length H = 8" "length M = 16" using assms by (simp_all add: H_def M_def)
  define v where "v = foldl sha256_loop_step \<lparr> s2_a = H ! 0, s2_b = H ! 1, s2_c = H ! 2, s2_d = H ! 3, s2_e = H ! 4,
    s2_f = H ! 5, s2_g = H ! 6, s2_h = H ! 7, s2_w = map (sha256_W M) [0..<64] \<rparr> [0..<64]"
  have t: "sha256_tuple v = foldl (sha256_op M) (H ! 0, H ! 1, H ! 2, H ! 3, H ! 4, H ! 5, H ! 6, H ! 7) [0..<64]"
    unfolding v_def
    by (subst foldl_sim [of 64 "\<lambda>u. s2_w u = map (sha256_W M) [0..<64]" sha256_tuple sha256_loop_step "sha256_op M"])
      (simp_all only: sha256_loop_op sha256_variables.simps, simp)
  have "concat (map cpu_to_be32 (map2 (+) H [s2_a v, s2_b v, s2_c v, s2_d v, s2_e v, s2_f v, s2_g v, s2_h v]))
      = sha256_compress (ctx_digest c) (ctx_data c)"
    unfolding sha256_compress_def Let_def H_def [symmetric] M_def [symmetric] t [symmetric] sha256_tuple.simps
    by (subst list_nths(3) [OF len(1)]) (simp add: sha2_add_def)
  then show ?thesis
    unfolding sha256_digest_def Let_def d(1,2) e sha256_schedule [OF len(2)] v_def [symmetric]
    using len(2) by (simp add: length_concat_words)
qed

lemma sha256_compress_length: "length (sha256_compress h b) = 32"
  by (simp add: sha256_compress_def Let_def split_beta sha2_add_def)

lemma sha256_family:
  assumes "da_init alg = (\<lambda>c. sha256_family_init c h n)" "da_update alg = sha256_update" "da_final alg = sha256_final" "length h = 8"
  shows "hash_algorithm sha256_digest sha256_update sha256_compress 64 32 sha256_pad 56 alg
    (concat (map cpu_to_be32 h)) (sha2_context.fields n) (\<lambda>len. cpu_to_be64 (len * 8)) (be_nat 8)
    (\<lambda>c. take (unat (ctx_digestsize c)) (ctx_digest c)) (unat n)"
proof
  show "sha256_pad p c = (let c1 = sha256_update c [p] in if unat (ctx_len c1) mod 64 \<noteq> 56 then sha256_pad 0 c1 else Some c1)" for p c
    by (subst sha256_pad.simps) (rule refl)
  show "da_final alg c = map_option (\<lambda>c1. let c2 = sha256_update c1 (cpu_to_be64 (ctx_len c * 8))
      in (c2, take (unat (ctx_digestsize c2)) (ctx_digest c2))) (sha256_pad 0x80 c)" for c
    by (simp add: assms(3) sha256_final_def Let_def split: option.split)
qed (use sha256_digest_law in \<open>auto simp: Let_def dvd_block sha256_compress_length be64_bits sha2_ext length_concat_words
      assms sha256_family_init_def\<close>)

interpretation sha256: hash_algorithm sha256_digest sha256_update sha256_compress 64 32 sha256_pad 56 sha256_algorithm
  "concat (map cpu_to_be32 sha256_init_digest)" "sha2_context.fields 32" "\<lambda>len. cpu_to_be64 (len * 8)" "be_nat 8"
  "\<lambda>c. take (unat (ctx_digestsize c)) (ctx_digest c)" "unat (32 :: u64)"
  by (rule sha256_family) (simp_all add: sha256_algorithm_def sha256_init_def [abs_def] sha256_init_digest_def)

definition fips_sha256 :: "u8 list \<Rightarrow> u8 list" where
  "fips_sha256 msg = take 32 (md_hash sha256_compress (concat (map cpu_to_be32 fips_H256)) 64 56 (be_nat 8) msg)"

lemma sha256_implements: "digest_implements sha256_algorithm (array_sizes 32 64) fips_sha256"
  using sha256.implements by (simp add: fips_sha256_def [abs_def] fips_constants)

interpretation sha224: hash_algorithm sha256_digest sha256_update sha256_compress 64 32 sha256_pad 56 sha224_algorithm
  "concat (map cpu_to_be32 sha224_init_digest)" "sha2_context.fields 28" "\<lambda>len. cpu_to_be64 (len * 8)" "be_nat 8"
  "\<lambda>c. take (unat (ctx_digestsize c)) (ctx_digest c)" "unat (28 :: u64)"
  by (rule sha256_family) (simp_all add: sha224_algorithm_def sha224_init_def [abs_def] sha224_init_digest_def)

definition fips_sha224 :: "u8 list \<Rightarrow> u8 list" where
  "fips_sha224 msg = take 28 (md_hash sha256_compress (concat (map cpu_to_be32 fips_H224)) 64 56 (be_nat 8) msg)"

lemma sha224_implements: "digest_implements sha224_algorithm (array_sizes 32 64) fips_sha224"
  using sha224.implements by (simp add: fips_sha224_def [abs_def] fips_constants)

section \<open>The SHA-512 family is correct\<close>

definition sha512_W :: "u64 list \<Rightarrow> nat \<Rightarrow> u64" where
  "sha512_W = sha2_W (\<lambda>x. word_rotr 1 x XOR word_rotr 8 x XOR drop_bit 7 x)
     (\<lambda>x. word_rotr 19 x XOR word_rotr 61 x XOR drop_bit 6 x)"

definition sha512_op :: "u64 list \<Rightarrow> 64 sha2_state \<Rightarrow> nat \<Rightarrow> 64 sha2_state" where
  "sha512_op M = sha2_op (\<lambda>x. word_rotr 28 x XOR word_rotr 34 x XOR word_rotr 39 x)
     (\<lambda>x. word_rotr 14 x XOR word_rotr 18 x XOR word_rotr 41 x) fips_K512 (sha512_W M)"

definition sha512_compress :: "u8 list \<Rightarrow> u8 list \<Rightarrow> u8 list" where
  "sha512_compress h blk =
     (let H = map be64_to_cpu (blocks 8 h);
          M = map be64_to_cpu (blocks 8 blk)
      in concat (map cpu_to_be64
           (sha2_add H (foldl (sha512_op M) (H ! 0, H ! 1, H ! 2, H ! 3, H ! 4, H ! 5, H ! 6, H ! 7) [0..<80]))))"

fun sha512_tuple :: "sha512_variables \<Rightarrow> 64 sha2_state" where
  "sha512_tuple v = (q_a v, q_b v, q_c v, q_d v, q_e v, q_f v, q_g v, q_h v)"

lemma sha512_schedule: "length M = 16 \<Longrightarrow> foldl sha512_extend M [16..<80] = map (sha512_W M) [0..<80]"
  unfolding sha512_W_def by (rule sha2_schedule) (simp_all add: sha512_extend_def Let_def ror64_rotr)

lemma sha512_loop_op:
  assumes "i < 80" "q_w v = map (sha512_W M) [0..<80]"
  shows "sha512_tuple (sha512_loop_step v i) = sha512_op M (sha512_tuple v) i \<and> q_w (sha512_loop_step v i) = q_w v"
  using assms by (simp add: sha512_loop_step_def sha512_op_def fips_constants Let_def ror64_rotr Ch_def Maj_def)

lemma sha512_digest_law:
  assumes "length (ctx_digest c) = 64" "length (ctx_data c) = 128"
  shows "ctx_len (sha512_digest c) = ctx_len c
    \<and> ctx_digest (sha512_digest c) = sha512_compress (ctx_digest c) (ctx_data c)
    \<and> length (ctx_data (sha512_digest c)) = 128 \<and> digest_context.more (sha512_digest c) = digest_context.more c"
proof -
  define H M where "H = map be64_to_cpu (blocks 8 (ctx_digest c))" and "M = map be64_to_cpu (blocks 8 (ctx_data c))"
  have k: "0 < (8::nat)" "length (ctx_digest c) = 8 * 8" using assms by simp_all
  note d = dwords [OF k refl, where f = be64_to_cpu and b = "ctx_data c", folded H_def M_def]
  have i: "0 < (8::nat)" "1 < (8::nat)" "2 < (8::nat)" "3 < (8::nat)" "4 < (8::nat)" "5 < (8::nat)" "6 < (8::nat)" "7 < (8::nat)"
    by simp_all
  note e = i [THEN d(3)]
  have len: "length H = 8" "length M = 16" using assms by (simp_all add: H_def M_def)
  define v where "v = foldl sha512_loop_step \<lparr> q_a = H ! 0, q_b = H ! 1, q_c = H ! 2, q_d = H ! 3, q_e = H ! 4,
    q_f = H ! 5, q_g = H ! 6, q_h = H ! 7, q_w = map (sha512_W M) [0..<80] \<rparr> [0..<80]"
  have t: "sha512_tuple v = foldl (sha512_op M) (H ! 0, H ! 1, H ! 2, H ! 3, H ! 4, H ! 5, H ! 6, H ! 7) [0..<80]"
    unfolding v_def
    by (subst foldl_sim [of 80 "\<lambda>u. q_w u = map (sha512_W M) [0..<80]" sha512_tuple sha512_loop_step "sha512_op M"])
      (simp_all only: sha512_loop_op sha512_variables.simps, simp)
  have "concat (map cpu_to_be64 (map2 (+) H [q_a v, q_b v, q_c v, q_d v, q_e v, q_f v, q_g v, q_h v]))
      = sha512_compress (ctx_digest c) (ctx_data c)"
    unfolding sha512_compress_def Let_def H_def [symmetric] M_def [symmetric] t [symmetric] sha512_tuple.simps
    by (subst list_nths(3) [OF len(1)]) (simp add: sha2_add_def)
  then show ?thesis
    unfolding sha512_digest_def Let_def d(1,2) e sha512_schedule [OF len(2)] v_def [symmetric]
    using len(2) by (simp add: length_concat_words)
qed

lemma sha512_compress_length: "length (sha512_compress h b) = 64"
  by (simp add: sha512_compress_def Let_def split_beta sha2_add_def)

lemma sha512_update_append: "sha512_update c (xs @ ys) = sha512_update (sha512_update c xs) ys"
  by (induction xs arbitrary: c) (simp_all add: Let_def)

lemma be128_bits: "m < 2 ^ 61 \<Longrightarrow> replicate 8 0 @ cpu_to_be64 (of_nat m * 8) = be_nat 16 (8 * m)"
proof -
  assume m: "m < 2 ^ 61"
  have "[0..<16] = [0..<8] @ map (\<lambda>i. i + 8) [0..<(8::nat)]" by (simp add: upt_rec)
  moreover have "8 * m div 256 ^ (15 - i) = 0" if "i < 8" for i
  proof -
    have "(256::nat) ^ 8 \<le> 256 ^ (15 - i)" using that by (intro power_increasing) auto
    with m show ?thesis by simp
  qed
  then have "map (\<lambda>i. of_nat (8 * m div 256 ^ (15 - i)) :: u8) [0..<8] = replicate 8 0"
    by (intro nth_equalityI) simp_all
  ultimately show ?thesis unfolding be64_bits by (simp add: be_nat_def)
qed

lemma sha512_family:
  assumes "da_init alg = (\<lambda>c. sha512_family_init c h n)" "da_update alg = sha512_update" "da_final alg = sha512_final" "length h = 8"
  shows "hash_algorithm sha512_digest sha512_update sha512_compress 128 64 sha512_pad 112 alg
    (concat (map cpu_to_be64 h)) (sha2_context.fields n) (\<lambda>len. replicate 8 0 @ cpu_to_be64 (len * 8)) (be_nat 16)
    (\<lambda>c. take (unat (ctx_digestsize c)) (ctx_digest c)) (unat n)"
proof
  show "sha512_pad p c = (let c1 = sha512_update c [p] in if unat (ctx_len c1) mod 128 \<noteq> 112 then sha512_pad 0 c1 else Some c1)" for p c
    by (subst sha512_pad.simps) (rule refl)
  show "da_final alg c = map_option (\<lambda>c1. let c2 = sha512_update c1 (replicate 8 0 @ cpu_to_be64 (ctx_len c * 8))
      in (c2, take (unat (ctx_digestsize c2)) (ctx_digest c2))) (sha512_pad 0x80 c)" for c
    by (simp add: assms(3) sha512_final_def Let_def sha512_update_append split: option.split)
qed (use sha512_digest_law in \<open>auto simp: Let_def dvd_block sha512_compress_length be128_bits sha2_ext length_concat_words
      assms sha512_family_init_def\<close>)

interpretation sha512: hash_algorithm sha512_digest sha512_update sha512_compress 128 64 sha512_pad 112 sha512_algorithm
  "concat (map cpu_to_be64 sha512_init_digest)" "sha2_context.fields 64" "\<lambda>len. replicate 8 0 @ cpu_to_be64 (len * 8)" "be_nat 16"
  "\<lambda>c. take (unat (ctx_digestsize c)) (ctx_digest c)" "unat (64 :: u64)"
  by (rule sha512_family) (simp_all add: sha512_algorithm_def sha512_init_def [abs_def] sha512_init_digest_def)

definition fips_sha512 :: "u8 list \<Rightarrow> u8 list" where
  "fips_sha512 msg = take 64 (md_hash sha512_compress (concat (map cpu_to_be64 fips_H512)) 128 112 (be_nat 16) msg)"

lemma sha512_implements: "digest_implements sha512_algorithm (array_sizes 64 128) fips_sha512"
  using sha512.implements by (simp add: fips_sha512_def [abs_def] fips_constants)

interpretation sha384: hash_algorithm sha512_digest sha512_update sha512_compress 128 64 sha512_pad 112 sha384_algorithm
  "concat (map cpu_to_be64 sha384_init_digest)" "sha2_context.fields 48" "\<lambda>len. replicate 8 0 @ cpu_to_be64 (len * 8)" "be_nat 16"
  "\<lambda>c. take (unat (ctx_digestsize c)) (ctx_digest c)" "unat (48 :: u64)"
  by (rule sha512_family) (simp_all add: sha384_algorithm_def sha384_init_def [abs_def] sha384_init_digest_def)

definition fips_sha384 :: "u8 list \<Rightarrow> u8 list" where
  "fips_sha384 msg = take 48 (md_hash sha512_compress (concat (map cpu_to_be64 fips_H384)) 128 112 (be_nat 16) msg)"

lemma sha384_implements: "digest_implements sha384_algorithm (array_sizes 64 128) fips_sha384"
  using sha384.implements by (simp add: fips_sha384_def [abs_def] fips_constants)

interpretation sha512_256: hash_algorithm sha512_digest sha512_update sha512_compress 128 64 sha512_pad 112 sha512_256_algorithm
  "concat (map cpu_to_be64 sha512_256_init_digest)" "sha2_context.fields 32" "\<lambda>len. replicate 8 0 @ cpu_to_be64 (len * 8)" "be_nat 16"
  "\<lambda>c. take (unat (ctx_digestsize c)) (ctx_digest c)" "unat (32 :: u64)"
  by (rule sha512_family) (simp_all add: sha512_256_algorithm_def sha512_256_init_def [abs_def] sha512_256_init_digest_def)

definition fips_sha512_256 :: "u8 list \<Rightarrow> u8 list" where
  "fips_sha512_256 msg = take 32 (md_hash sha512_compress (concat (map cpu_to_be64 sha512_256_init_digest)) 128 112 (be_nat 16) msg)"

lemma sha512_256_implements: "digest_implements sha512_256_algorithm (array_sizes 64 128) fips_sha512_256"
  using sha512_256.implements by (simp add: fips_sha512_256_def [abs_def])

interpretation sha512_224: hash_algorithm sha512_digest sha512_update sha512_compress 128 64 sha512_pad 112 sha512_224_algorithm
  "concat (map cpu_to_be64 sha512_224_init_digest)" "sha2_context.fields 28" "\<lambda>len. replicate 8 0 @ cpu_to_be64 (len * 8)" "be_nat 16"
  "\<lambda>c. take (unat (ctx_digestsize c)) (ctx_digest c)" "unat (28 :: u64)"
  by (rule sha512_family) (simp_all add: sha512_224_algorithm_def sha512_224_init_def [abs_def] sha512_224_init_digest_def)

definition fips_sha512_224 :: "u8 list \<Rightarrow> u8 list" where
  "fips_sha512_224 msg = take 28 (md_hash sha512_compress (concat (map cpu_to_be64 sha512_224_init_digest)) 128 112 (be_nat 16) msg)"

lemma sha512_224_implements: "digest_implements sha512_224_algorithm (array_sizes 64 128) fips_sha512_224"
  using sha512_224.implements by (simp add: fips_sha512_224_def [abs_def])

end
