(* ===== verification/Hmac.thy ===== *)
theory Hmac
  imports Digest_Md Digest_Sha
begin

text \<open>
  Keyed hashing (\<open>crypto/hmac.c\<close>) over any of the digest algorithms, and the
  correctness of the algorithms together.  A key is the bytes of the buffer up
  to its length; reducing it replaces both.
\<close>

section \<open>The code\<close>

definition hmac_reduce_key :: "'c digest_algorithm \<Rightarrow> 'c \<Rightarrow> u8 list \<Rightarrow> u8 list option" where
  "hmac_reduce_key digest digest_ctx key =
     (let digest_ctx = digest_init digest digest_ctx;
          digest_ctx = digest_update digest digest_ctx key
      in map_option snd (digest_final digest digest_ctx))"

definition reduced_key :: "'c digest_algorithm \<Rightarrow> 'c \<Rightarrow> u8 list \<Rightarrow> u8 list option" where
  "reduced_key digest scratch key =
     (if length key > da_blocksize digest then hmac_reduce_key digest scratch key else Some key)"

definition hmac_pad :: "'c digest_algorithm \<Rightarrow> u8 \<Rightarrow> u8 list \<Rightarrow> u8 list" where
  "hmac_pad digest x key = map (\<lambda>b. b XOR x) (key @ replicate (da_blocksize digest - length key) 0)"

definition hmac_init :: "'c digest_algorithm \<Rightarrow> 'c \<Rightarrow> 'c \<Rightarrow> u8 list \<Rightarrow> ('c \<times> u8 list) option" where
  "hmac_init digest scratch digest_ctx key =
     (case reduced_key digest scratch key of
        None \<Rightarrow> None
      | Some key \<Rightarrow>
          let k_ipad = hmac_pad digest 0x36 key;
              digest_ctx = digest_init digest digest_ctx;
              digest_ctx = digest_update digest digest_ctx k_ipad
          in Some (digest_ctx, key))"

definition hmac_update :: "'c digest_algorithm \<Rightarrow> 'c \<Rightarrow> u8 list \<Rightarrow> 'c" where
  "hmac_update digest digest_ctx data = digest_update digest digest_ctx data"

definition hmac_final :: "'c digest_algorithm \<Rightarrow> 'c \<Rightarrow> 'c \<Rightarrow> u8 list \<Rightarrow> ('c \<times> u8 list \<times> u8 list) option" where
  "hmac_final digest scratch digest_ctx key =
     (case reduced_key digest scratch key of
        None \<Rightarrow> None
      | Some key \<Rightarrow>
          let k_opad = hmac_pad digest 0x5c key
          in case digest_final digest digest_ctx of
               None \<Rightarrow> None
             | Some (digest_ctx, hmac) \<Rightarrow>
                 let digest_ctx = digest_init digest digest_ctx;
                     digest_ctx = digest_update digest digest_ctx k_opad;
                     digest_ctx = digest_update digest digest_ctx (take (da_digestsize digest) hmac)
                 in map_option (\<lambda>(digest_ctx, hmac). (digest_ctx, key, hmac)) (digest_final digest digest_ctx))"

section \<open>The algorithms are correct\<close>

text \<open>
  C4: every digest algorithm of the code, from a context with any contents and
  however the message is cut into pieces, returns the digest that RFC 1320, RFC
  1321 or FIPS 180-4 define for the message: the accumulation of bytes into
  blocks, the padding loop (which ends), the encoded length, the message
  schedule and the rounds with their rewritten bit operations and table
  look-ups compute the functions of the standards.
\<close>

theorem digest_algorithms_correct:
  "digest_implements md4_algorithm (array_sizes 16 64) rfc1320_md4
   \<and> digest_implements md5_algorithm (array_sizes 16 64) rfc1321_md5
   \<and> digest_implements sha1_algorithm (array_sizes 20 64) fips_sha1
   \<and> digest_implements sha224_algorithm (array_sizes 32 64) fips_sha224
   \<and> digest_implements sha256_algorithm (array_sizes 32 64) fips_sha256
   \<and> digest_implements sha384_algorithm (array_sizes 64 128) fips_sha384
   \<and> digest_implements sha512_algorithm (array_sizes 64 128) fips_sha512
   \<and> digest_implements sha512_224_algorithm (array_sizes 64 128) fips_sha512_224
   \<and> digest_implements sha512_256_algorithm (array_sizes 64 128) fips_sha512_256"
  by (intro conjI md4_implements md5_implements sha1_implements sha224_implements sha256_implements
      sha384_implements sha512_implements sha512_224_implements sha512_256_implements)

section \<open>Keyed hashing\<close>

definition rfc2104_hmac :: "(u8 list \<Rightarrow> u8 list) \<Rightarrow> nat \<Rightarrow> u8 list \<Rightarrow> u8 list \<Rightarrow> u8 list" where
  "rfc2104_hmac H B K msg =
     (let K = (if length K > B then H K else K);
          K0 = K @ replicate (B - length K) 0
      in H (map (\<lambda>b. b XOR 0x5c) K0 @ H (map (\<lambda>b. b XOR 0x36) K0 @ msg)))"

lemma digest_run:
  assumes "digest_implements digest valid hash" "valid ctx" "length (concat pieces) < 2 ^ 61"
  obtains ctx' where "digest_final digest (foldl (digest_update digest) (digest_init digest ctx) pieces)
      = Some (ctx', hash (concat pieces))" "valid ctx'"
  using assms unfolding digest_implements_def by blast

lemma reduced_key_eq:
  assumes "digest_implements digest valid hash" "valid scratch" "length key < 2 ^ 61"
  shows "reduced_key digest scratch key = Some (if length key > da_blocksize digest then hash key else key)"
  using digest_run [OF assms(1,2), of "[key]"] assms(3)
  by (auto simp: reduced_key_def hmac_reduce_key_def Let_def)

text \<open>
  C14: keyed hashing over an algorithm that implements a hash function computes
  HMAC of RFC 2104, for keys of any length and messages in any number of pieces:
  a key longer than the block is reduced once, by \<open>hmac_init()\<close>, and the key
  that it leaves in the buffer is the one \<open>hmac_final()\<close> needs.
\<close>

theorem hmac_correct:
  assumes digest: "digest_implements digest valid hash"
    and sizes: "\<forall>m. length (hash m) = da_digestsize digest" "da_digestsize digest \<le> da_blocksize digest"
      "da_blocksize digest \<le> 2 ^ 32"
    and ctx: "valid scratch" "valid ctx"
    and lens: "length key < 2 ^ 60" "length (concat pieces) < 2 ^ 60"
  shows "\<exists>ctx1 key1 ctx2. hmac_init digest scratch ctx key = Some (ctx1, key1)
    \<and> hmac_final digest scratch (foldl (hmac_update digest) ctx1 pieces) key1
        = Some (ctx2, key1, rfc2104_hmac hash (da_blocksize digest) key (concat pieces))"
proof -
  let ?K = "if length key > da_blocksize digest then hash key else key"
  have K: "length ?K \<le> da_blocksize digest" using sizes by simp
  have pad: "length (hmac_pad digest x ?K) = da_blocksize digest" for x using K by (simp add: hmac_pad_def)
  have k1: "reduced_key digest scratch key = Some ?K"
    using reduced_key_eq [OF digest ctx(1), of key] lens(1) by simp
  have k2: "reduced_key digest scratch ?K = Some ?K"
    using reduced_key_eq [OF digest ctx(1), of ?K] K sizes(3) by simp
  have i: "hmac_init digest scratch ctx key
      = Some (digest_update digest (digest_init digest ctx) (hmac_pad digest 0x36 ?K), ?K)"
    by (simp add: hmac_init_def k1 Let_def)
  have "length (concat (hmac_pad digest 0x36 ?K # pieces)) < 2 ^ 61" using pad lens sizes(3) by simp
  from digest_run [OF digest ctx(2) this] obtain c1 where
    c1: "digest_final digest (foldl (digest_update digest)
        (digest_update digest (digest_init digest ctx) (hmac_pad digest 0x36 ?K)) pieces)
      = Some (c1, hash (hmac_pad digest 0x36 ?K @ concat pieces))" "valid c1" by auto
  let ?h = "hash (hmac_pad digest 0x36 ?K @ concat pieces)"
  have "length (concat [hmac_pad digest 0x5c ?K, ?h]) < 2 ^ 61" using pad sizes by simp
  from digest_run [OF digest c1(2) this] obtain c2 where
    "digest_final digest (digest_update digest (digest_update digest (digest_init digest c1) (hmac_pad digest 0x5c ?K)) ?h)
      = Some (c2, hash (hmac_pad digest 0x5c ?K @ ?h))" by auto
  then have "hmac_final digest scratch (foldl (hmac_update digest)
      (digest_update digest (digest_init digest ctx) (hmac_pad digest 0x36 ?K)) pieces) ?K
      = Some (c2, ?K, hash (hmac_pad digest 0x5c ?K @ ?h))"
    using c1(1) sizes(1) by (simp add: hmac_final_def k2 Let_def hmac_update_def [abs_def])
  with i show ?thesis by (simp add: rfc2104_hmac_def Let_def hmac_pad_def)
qed

definition blank_context :: sha2_context where
  "blank_context = \<lparr> ctx_len = 0, ctx_digest = replicate 32 0, ctx_data = replicate 64 0, ctx_digestsize = 0 \<rparr>"

theorem hmac_correct_witness:
  "\<exists>ctx1 key1 ctx2. hmac_init sha256_algorithm blank_context blank_context (replicate 100 7) = Some (ctx1, key1)
    \<and> hmac_final sha256_algorithm blank_context (foldl (hmac_update sha256_algorithm) ctx1 [[1, 2], [3]]) key1
        = Some (ctx2, key1, rfc2104_hmac fips_sha256 64 (replicate 100 7) [1, 2, 3])"
proof -
  have v: "array_sizes 32 64 blank_context" by (simp add: array_sizes_def blank_context_def)
  have s: "da_blocksize sha256_algorithm = 64" "da_digestsize sha256_algorithm = 32" by (simp_all add: sha256_algorithm_def)
  have l: "\<forall>m. length (fips_sha256 m) = da_digestsize sha256_algorithm"
    by (simp add: s fips_sha256_def fips_constants sha256.hash_length)
  show ?thesis using hmac_correct [OF sha256_implements l _ _ v v, of "replicate 100 7" "[[1, 2], [3]]"] by (simp add: s)
qed

end
