(* ===== verification/Bigint.thy ===== *)
theory Bigint
  imports Digest
begin

text \<open>
  Big integers (\<open>include/ipxe/bigint.h\<close>, \<open>arch/x86/include/bits/bigint.h\<close>,
  \<open>arch/x86/core/x86_bigint.c\<close>, \<open>crypto/bigint.c\<close>): arrays of 32-bit elements,
  least significant first.  The assembly loops are recursions with the carry
  flag as an argument; a big integer has at least one element, which the
  \<open>loop\<close> instruction relies on.
\<close>

type_synonym bigint = "u32 list"

section \<open>Assembly loops\<close>

text \<open>\<open>adcl\<close>: the sum with the carry flag, and the new carry flag.\<close>

definition adcl :: "bool \<Rightarrow> u32 \<Rightarrow> u32 \<Rightarrow> u32 \<times> bool" where
  "adcl cf x y = (x + y + of_bool cf, unat x + unat y + of_bool cf \<ge> 2 ^ 32)"

definition sbbl :: "bool \<Rightarrow> u32 \<Rightarrow> u32 \<Rightarrow> u32 \<times> bool" where
  "sbbl cf x y = (x - y - of_bool cf, unat x < unat y + of_bool cf)"

definition rcll :: "bool \<Rightarrow> u32 \<Rightarrow> u32 \<times> bool" where
  "rcll cf x = (push_bit 1 x OR of_bool cf, bit x 31)"

definition rcrl :: "bool \<Rightarrow> u32 \<Rightarrow> u32 \<times> bool" where
  "rcrl cf x = (drop_bit 1 x OR push_bit 31 (of_bool cf), bit x 0)"

fun add_loop :: "bool \<Rightarrow> bigint \<Rightarrow> bigint \<Rightarrow> bigint" where
  "add_loop cf (a # addend) (v # vs) = (let (v, cf) = adcl cf v a in v # add_loop cf addend vs)"
| "add_loop cf _ vs = vs"

definition bigint_add_raw :: "bigint \<Rightarrow> bigint \<Rightarrow> bigint" where
  "bigint_add_raw addend value = add_loop False addend value"

fun sub_loop :: "bool \<Rightarrow> bigint \<Rightarrow> bigint \<Rightarrow> bigint" where
  "sub_loop cf (s # subtrahend) (v # vs) = (let (v, cf) = sbbl cf v s in v # sub_loop cf subtrahend vs)"
| "sub_loop cf _ vs = vs"

definition bigint_subtract_raw :: "bigint \<Rightarrow> bigint \<Rightarrow> bigint" where
  "bigint_subtract_raw subtrahend value = sub_loop False subtrahend value"

fun rol_loop :: "bool \<Rightarrow> bigint \<Rightarrow> bigint" where
  "rol_loop cf [] = []"
| "rol_loop cf (v # vs) = (let (v, cf) = rcll cf v in v # rol_loop cf vs)"

definition bigint_rol_raw :: "bigint \<Rightarrow> bigint" where
  "bigint_rol_raw value = rol_loop False value"

text \<open>The loops that start at the last element run over the reversed array.\<close>

fun ror_loop :: "bool \<Rightarrow> bigint \<Rightarrow> bigint" where
  "ror_loop cf [] = []"
| "ror_loop cf (v # vs) = (let (v, cf) = rcrl cf v in v # ror_loop cf vs)"

definition bigint_ror_raw :: "bigint \<Rightarrow> bigint" where
  "bigint_ror_raw value = rev (ror_loop False (rev value))"

fun bigint_is_zero_raw :: "bigint \<Rightarrow> bool" where
  "bigint_is_zero_raw [] = True"
| "bigint_is_zero_raw (v # vs) = (if v = 0 then bigint_is_zero_raw vs else False)"

fun geq_loop :: "bigint \<Rightarrow> bigint \<Rightarrow> bool" where
  "geq_loop (v # vs) (r # rs) = (if v = r \<and> vs \<noteq> [] then geq_loop vs rs else v \<ge> r)"
| "geq_loop _ _ = True"

definition bigint_is_geq_raw :: "bigint \<Rightarrow> bigint \<Rightarrow> bool" where
  "bigint_is_geq_raw value reference = geq_loop (rev value) (rev reference)"

definition bigint_bit_is_set_raw :: "bigint \<Rightarrow> nat \<Rightarrow> bool" where
  "bigint_bit_is_set_raw value b =
     (let index = b div 32;
          subindex = b mod 32
      in value ! index AND push_bit subindex 1 \<noteq> 0)"

text \<open>\<open>bsrl\<close>: the position of the last set bit of a non-zero word.\<close>

fun bsrl_loop :: "u32 \<Rightarrow> nat \<Rightarrow> nat" where
  "bsrl_loop x 0 = 0"
| "bsrl_loop x (Suc n) = (if bit x (Suc n) then Suc n else bsrl_loop x n)"

definition bsrl :: "u32 \<Rightarrow> nat" where
  "bsrl x = bsrl_loop x 31"

fun max_bit_loop :: "bigint \<Rightarrow> nat" where
  "max_bit_loop [] = 0"
| "max_bit_loop (v # vs) = (if v = 0 then max_bit_loop vs else 1 + bsrl v + 32 * length vs)"

definition bigint_max_set_bit_raw :: "bigint \<Rightarrow> nat" where
  "bigint_max_set_bit_raw value = max_bit_loop (rev value)"

definition bigint_grow_raw :: "bigint \<Rightarrow> nat \<Rightarrow> bigint" where
  "bigint_grow_raw source dest_size = source @ replicate (dest_size - length source) 0"

definition bigint_shrink_raw :: "bigint \<Rightarrow> nat \<Rightarrow> bigint" where
  "bigint_shrink_raw source dest_size = take dest_size source"

definition bigint_init_raw :: "nat \<Rightarrow> u8 list \<Rightarrow> bigint" where
  "bigint_init_raw n data =
     (let pad_len = 4 * n - length data
      in map le32_to_cpu (blocks 4 (rev data @ replicate pad_len 0)))"

definition bigint_done_raw :: "bigint \<Rightarrow> nat \<Rightarrow> u8 list" where
  "bigint_done_raw value n = rev (take n (concat (map cpu_to_le32 value)))"

section \<open>Multiplication\<close>

text \<open>
  The array is the memory from the result on: an access behind its end is an
  access to memory that the model does not have, and gives \<open>None\<close>.
\<close>

fun carry_loop :: "nat \<Rightarrow> bool \<Rightarrow> nat \<Rightarrow> u32 list \<Rightarrow> u32 list option" where
  "carry_loop 0 cf k mem = None"
| "carry_loop (Suc fuel) cf k mem =
     (if k < length mem
      then let (x, cf) = adcl cf (mem ! k) 0;
               mem = mem[k := x]
           in if cf then carry_loop fuel cf (k + 1) mem else Some mem
      else None)"

definition mull :: "u32 \<Rightarrow> u32 \<Rightarrow> u32 \<times> u32" where
  "mull x y = (let p = ucast x * ucast y :: u64 in (ucast p, ucast (drop_bit 32 p)))"

definition multiply_step :: "u32 \<Rightarrow> u32 \<Rightarrow> nat \<Rightarrow> u32 list \<Rightarrow> u32 list option" where
  "multiply_step multiplicand_element multiplier_element k mem =
     (if k + 1 < length mem
      then let (eax, edx) = mull multiplicand_element multiplier_element;
               (x, cf) = adcl False (mem ! k) eax;
               mem = mem[k := x];
               (x, cf) = adcl cf (mem ! (k + 1)) edx;
               mem = mem[k + 1 := x]
           in carry_loop (length mem + 1) cf (k + 2) mem
      else None)"

fun multiply_row :: "u32 \<Rightarrow> bigint \<Rightarrow> nat \<Rightarrow> u32 list \<Rightarrow> u32 list option" where
  "multiply_row a [] k mem = Some mem"
| "multiply_row a (b # bs) k mem =
     (case multiply_step a b k mem of None \<Rightarrow> None | Some mem \<Rightarrow> multiply_row a bs (k + 1) mem)"

fun multiply_rows :: "bigint \<Rightarrow> bigint \<Rightarrow> nat \<Rightarrow> u32 list \<Rightarrow> u32 list option" where
  "multiply_rows [] multiplier i mem = Some mem"
| "multiply_rows (a # as) multiplier i mem =
     (case multiply_row a multiplier i mem of None \<Rightarrow> None | Some mem \<Rightarrow> multiply_rows as multiplier (i + 1) mem)"

definition bigint_multiply_raw :: "bigint \<Rightarrow> bigint \<Rightarrow> u32 list \<Rightarrow> u32 list option" where
  "bigint_multiply_raw multiplicand multiplier mem =
     (let sz = length multiplicand
      in multiply_rows multiplicand multiplier 0 (replicate (2 * sz) 0 @ drop (2 * sz) mem))"

section \<open>Modular arithmetic\<close>

fun rescale_loop :: "nat \<Rightarrow> bigint \<Rightarrow> bigint" where
  "rescale_loop 0 modulus = modulus"
| "rescale_loop (Suc n) modulus = rescale_loop n (bigint_rol_raw modulus)"

fun subtract_loop :: "nat \<Rightarrow> bigint \<Rightarrow> bigint \<Rightarrow> bigint \<times> bigint" where
  "subtract_loop 0 modulus res = (modulus, res)"
| "subtract_loop (Suc n) modulus res =
     (let res = (if bigint_is_geq_raw res modulus then bigint_subtract_raw modulus res else res)
      in subtract_loop n (bigint_ror_raw modulus) res)"

text \<open>
  The temporary space holds the double-size result and, right behind it, the
  double-size modulus; it is returned as the call leaves it.
\<close>

definition bigint_mod_multiply_raw :: "bigint \<Rightarrow> bigint \<Rightarrow> bigint \<Rightarrow> u32 list \<Rightarrow> (bigint \<times> u32 list) option" where
  "bigint_mod_multiply_raw multiplicand multiplier modulus tmp =
     (let sz = length modulus
      in case bigint_multiply_raw multiplicand multiplier tmp of
           None \<Rightarrow> None
         | Some temp \<Rightarrow>
             let temp_result = take (2 * sz) temp;
                 temp_modulus = bigint_grow_raw modulus (2 * sz);
                 rotation = int (bigint_max_set_bit_raw temp_result) - int (bigint_max_set_bit_raw temp_modulus);
                 temp_modulus = rescale_loop (nat rotation) temp_modulus;
                 (temp_modulus, temp_result) = subtract_loop (nat (rotation + 1)) temp_modulus temp_result
             in Some (bigint_shrink_raw temp_result sz, temp_result @ temp_modulus))"

partial_function (option) mod_exp_loop :: "bigint \<Rightarrow> u32 list \<Rightarrow> bigint \<Rightarrow> bigint \<Rightarrow> bigint \<Rightarrow> bigint option" where
  "mod_exp_loop modulus tmp base exponent res =
     (if bigint_is_zero_raw exponent then Some res
      else case (if bigint_bit_is_set_raw exponent 0
                 then bigint_mod_multiply_raw res base modulus tmp else Some (res, tmp)) of
             None \<Rightarrow> None
           | Some (res, tmp) \<Rightarrow>
               let exponent = bigint_ror_raw exponent
               in case bigint_mod_multiply_raw base base modulus tmp of
                    None \<Rightarrow> None
                  | Some (base, tmp) \<Rightarrow> mod_exp_loop modulus tmp base exponent res)"

declare mod_exp_loop.simps [code]

definition bigint_mod_exp_raw :: "bigint \<Rightarrow> bigint \<Rightarrow> bigint \<Rightarrow> u32 list \<Rightarrow> bigint option" where
  "bigint_mod_exp_raw base modulus exponent tmp =
     (let start = [0x01];
          res = bigint_init_raw (length base) start
      in mod_exp_loop modulus tmp base exponent res)"


section \<open>The number an array denotes\<close>

fun val :: "bigint \<Rightarrow> nat" where
  "val [] = 0"
| "val (v # vs) = unat v + 2 ^ 32 * val vs"

lemma val_append: "val (xs @ ys) = val xs + 2 ^ (32 * length xs) * val ys"
  by (induction xs) (simp_all add: power_add algebra_simps)

lemma val_bound: "val xs < 2 ^ (32 * length xs)"
proof (induction xs)
  case (Cons x xs)
  have "unat x + 2 ^ 32 * val xs < 2 ^ 32 + 2 ^ 32 * val xs" using unat_u32_less [of x] by simp
  also have "\<dots> \<le> 2 ^ 32 * 2 ^ (32 * length xs)" using Cons by (metis Suc_leI mult_Suc_right mult_le_mono2)
  finally show ?case by (simp add: power_add)
qed simp

lemma val_zeros [simp]: "val (replicate n 0) = 0"
  by (induction n) simp_all

lemma val_eq_0: "val xs = 0 \<longleftrightarrow> (\<forall>x \<in> set xs. x = 0)"
  by (induction xs) (auto simp: unat_eq_0)

lemma val_inject: "length xs = length ys \<Longrightarrow> val xs = val ys \<longleftrightarrow> xs = ys"
proof (induction xs ys rule: list_induct2)
  case (Cons x xs y ys)
  have "unat x + 2 ^ 32 * val xs = unat y + 2 ^ 32 * val ys \<Longrightarrow> unat x = unat y \<and> val xs = val ys"
  proof -
    assume e: "unat x + 2 ^ 32 * val xs = unat y + 2 ^ 32 * val ys"
    have "(unat x + 2 ^ 32 * val xs) mod 2 ^ 32 = unat x" "(unat y + 2 ^ 32 * val ys) mod 2 ^ 32 = unat y"
      using unat_u32_less by simp_all
    with e show ?thesis by simp
  qed
  then show ?case using Cons by (auto simp: word_unat_eq_iff)
qed simp

lemma unat_of_bool: "unat (of_bool b :: u32) = of_bool b"
  by simp

lemma adcl_spec: "adcl cf x y = (z, cf') \<Longrightarrow> unat z + 2 ^ 32 * of_bool cf' = unat x + unat y + of_bool cf"
  using unat_u32_less [of x] unat_u32_less [of y] by (auto simp: adcl_def unat_word_ariths mod_if)

lemma sbbl_spec: "sbbl cf x y = (z, cf') \<Longrightarrow> unat z + unat y + of_bool cf = unat x + 2 ^ 32 * of_bool cf'"
  using unat_u32_less [of x] unat_u32_less [of y] by (auto simp: sbbl_def unat_sub_if' word_le_nat_alt)


section \<open>The assembly loops as arithmetic\<close>

lemma bit_31: "bit (x :: u32) 31 \<longleftrightarrow> 2 ^ 31 \<le> unat x"
proof -
  have "bit x 31 \<longleftrightarrow> bit (unat x) 31" by (simp add: bit_unsigned_iff)
  then have "bit x 31 \<longleftrightarrow> odd (unat x div 2 ^ 31)" by (simp only: bit_iff_odd)
  moreover have "unat x div 2 ^ 31 < 2" using unat_u32_less [of x] by (simp add: div_less_iff_less_mult)
  then have "unat x div 2 ^ 31 = 0 \<or> unat x div 2 ^ 31 = 1" by linarith
  ultimately show ?thesis by (auto simp: div_eq_0_iff)
qed

lemma bit_0_odd: "bit (x :: u32) 0 \<longleftrightarrow> odd (unat x)"
proof -
  have "bit x 0 \<longleftrightarrow> bit (unat x) 0" by (simp only: bit_unsigned_iff) simp
  then show ?thesis by (simp add: bit_0)
qed

lemma rcll_spec: "rcll cf x = (y, cf') \<Longrightarrow> unat y + 2 ^ 32 * of_bool cf' = 2 * unat x + of_bool cf"
proof -
  assume "rcll cf x = (y, cf')"
  then have y: "y = push_bit 1 x OR of_bool cf" and cf': "cf' \<longleftrightarrow> 2 ^ 31 \<le> unat x"
    by (auto simp: rcll_def bit_31)
  have "push_bit 1 x OR of_bool cf = push_bit 1 x + of_bool cf"
    by (rule disjunctive_add_eq_or [symmetric]) (cases cf; simp add: and_one_eq mod_2_eq_odd)
  then have "unat y = (2 * unat x + of_bool cf) mod 2 ^ 32"
    by (simp add: y unat_word_ariths push_bit_eq_mult mod_simps mult.commute)
  then show ?thesis using unat_u32_less [of x] by (auto simp: cf' mod_if)
qed

lemma rcrl_spec: "rcrl cf x = (y, cf') \<Longrightarrow> 2 * unat y + of_bool cf' = unat x + 2 ^ 32 * of_bool cf"
proof -
  assume "rcrl cf x = (y, cf')"
  then have y: "y = drop_bit 1 x OR push_bit 31 (of_bool cf)" and cf': "cf' \<longleftrightarrow> odd (unat x)"
    by (auto simp: rcrl_def bit_0_odd)
  have "\<not> bit x (Suc n)" if "31 \<le> n" for n using bit_imp_le_length [of x "Suc n"] that by auto
  then have "drop_bit 1 x AND push_bit 31 (of_bool cf) = 0"
    by (simp add: bit_eq_iff bit_simps)
  then have "drop_bit 1 x OR push_bit 31 (of_bool cf) = drop_bit 1 x + push_bit 31 (of_bool cf)"
    by (rule disjunctive_add_eq_or [symmetric])
  then have "unat y = (unat x div 2 + 2 ^ 31 * of_bool cf) mod 2 ^ 32"
    by (simp add: y unat_word_ariths unat_drop_bit_eq drop_bit_eq_div push_bit_eq_mult of_bool_def mod_simps)
  moreover have "unat x div 2 < 2 ^ 31" using unat_u32_less [of x] by simp
  ultimately have "unat y = unat x div 2 + 2 ^ 31 * of_bool cf" by (simp add: of_bool_def)
  moreover have "2 * (unat x div 2) + of_bool (odd (unat x)) = unat x" by (simp add: of_bool_odd_eq_mod_2)
  ultimately show ?thesis by (simp add: cf')
qed

lemma add_loop_val:
  "length addend = length vs \<Longrightarrow> length (add_loop cf addend vs) = length vs
    \<and> (\<exists>c. val (add_loop cf addend vs) + 2 ^ (32 * length vs) * of_bool c = val vs + val addend + of_bool cf)"
proof (induction addend vs arbitrary: cf rule: list_induct2)
  case Nil
  show ?case by (intro conjI exI [of _ cf]) simp_all
next
  case (Cons a as v vs)
  obtain x cf' where x: "adcl cf v a = (x, cf')" by fastforce
  then obtain c where "val (add_loop cf' as vs) + 2 ^ (32 * length vs) * of_bool c = val vs + val as + of_bool cf'"
    and l: "length (add_loop cf' as vs) = length vs" using Cons.IH [of cf'] by auto
  then have "2 ^ 32 * val (add_loop cf' as vs) + 2 ^ 32 * (2 ^ (32 * length vs) * of_bool c)
      = 2 ^ 32 * val vs + 2 ^ 32 * val as + 2 ^ 32 * of_bool cf'" by (metis distrib_left)
  with adcl_spec [OF x] x l show ?case by (intro conjI exI [of _ c]) (simp_all add: power_add)
qed

lemma sub_loop_val:
  "length subtrahend = length vs \<Longrightarrow> length (sub_loop cf subtrahend vs) = length vs
    \<and> (\<exists>c. val (sub_loop cf subtrahend vs) + val subtrahend + of_bool cf = val vs + 2 ^ (32 * length vs) * of_bool c)"
proof (induction subtrahend vs arbitrary: cf rule: list_induct2)
  case Nil
  show ?case by (intro conjI exI [of _ cf]) simp_all
next
  case (Cons a as v vs)
  obtain x cf' where x: "sbbl cf v a = (x, cf')" by fastforce
  then obtain c where "val (sub_loop cf' as vs) + val as + of_bool cf' = val vs + 2 ^ (32 * length vs) * of_bool c"
    and l: "length (sub_loop cf' as vs) = length vs" using Cons.IH [of cf'] by auto
  then have "2 ^ 32 * val (sub_loop cf' as vs) + 2 ^ 32 * val as + 2 ^ 32 * of_bool cf'
      = 2 ^ 32 * val vs + 2 ^ 32 * (2 ^ (32 * length vs) * of_bool c)" by (metis distrib_left)
  with sbbl_spec [OF x] x l show ?case by (intro conjI exI [of _ c]) (simp_all add: power_add)
qed

lemma bigint_subtract_val:
  assumes "length subtrahend = length value" "val subtrahend \<le> val value"
  shows "val (bigint_subtract_raw subtrahend value) = val value - val subtrahend"
    and "length (bigint_subtract_raw subtrahend value) = length value"
proof -
  obtain c where c: "val (sub_loop False subtrahend value) + val subtrahend = val value + 2 ^ (32 * length value) * of_bool c"
    and l: "length (sub_loop False subtrahend value) = length value"
    using sub_loop_val [OF assms(1), of False] by auto
  have "\<not> c"
  proof
    assume c
    with c val_bound [of "sub_loop False subtrahend value"] assms(2) show False by (simp add: l)
  qed
  with c l show "val (bigint_subtract_raw subtrahend value) = val value - val subtrahend"
    "length (bigint_subtract_raw subtrahend value) = length value"
    by (simp_all add: bigint_subtract_raw_def)
qed

lemma rol_loop_val:
  "length (rol_loop cf vs) = length vs
    \<and> (\<exists>c. val (rol_loop cf vs) + 2 ^ (32 * length vs) * of_bool c = 2 * val vs + of_bool cf)"
proof (induction vs arbitrary: cf)
  case Nil
  show ?case by (intro conjI exI [of _ cf]) simp_all
next
  case (Cons v vs)
  obtain x cf' where x: "rcll cf v = (x, cf')" by fastforce
  then obtain c where "val (rol_loop cf' vs) + 2 ^ (32 * length vs) * of_bool c = 2 * val vs + of_bool cf'"
    and l: "length (rol_loop cf' vs) = length vs" using Cons.IH [of cf'] by auto
  then have "2 ^ 32 * val (rol_loop cf' vs) + 2 ^ 32 * (2 ^ (32 * length vs) * of_bool c) = 2 ^ 32 * (2 * val vs) + 2 ^ 32 * of_bool cf'"
    by (metis distrib_left)
  with rcll_spec [OF x] x l show ?case by (intro conjI exI [of _ c]) (simp_all add: power_add)
qed

lemma bigint_rol_val:
  assumes "2 * val value < 2 ^ (32 * length value)"
  shows "val (bigint_rol_raw value) = 2 * val value" and "length (bigint_rol_raw value) = length value"
proof -
  obtain c where c: "val (rol_loop False value) + 2 ^ (32 * length value) * of_bool c = 2 * val value"
    and l: "length (rol_loop False value) = length value" using rol_loop_val [of False "value"] by auto
  from c assms have "\<not> c" by auto
  with c l show "val (bigint_rol_raw value) = 2 * val value" "length (bigint_rol_raw value) = length value"
    by (simp_all add: bigint_rol_raw_def)
qed

lemma val_snoc: "val (xs @ [x]) = val xs + 2 ^ (32 * length xs) * unat x"
  by (simp add: val_append)

lemma ror_loop_val:
  "length (ror_loop cf vs) = length vs
    \<and> (\<exists>c. 2 * val (rev (ror_loop cf vs)) + of_bool c = val (rev vs) + 2 ^ (32 * length vs) * of_bool cf)"
proof (induction vs arbitrary: cf)
  case Nil
  show ?case by (intro conjI exI [of _ cf]) simp_all
next
  case (Cons v vs)
  obtain x cf' where x: "rcrl cf v = (x, cf')" by fastforce
  then obtain c where c: "2 * val (rev (ror_loop cf' vs)) + of_bool c = val (rev vs) + 2 ^ (32 * length vs) * of_bool cf'"
    and l: "length (ror_loop cf' vs) = length vs" using Cons.IH [of cf'] by auto
  have "2 ^ (32 * length vs) * (2 * unat x) + 2 ^ (32 * length vs) * of_bool cf'
      = 2 ^ (32 * length vs) * unat v + 2 ^ (32 * length vs) * (2 ^ 32 * of_bool cf)"
    using rcrl_spec [OF x] by (metis distrib_left)
  with c x l show ?case by (intro conjI exI [of _ c]) (simp_all add: val_snoc power_add)
qed

lemma bigint_ror_val: "val (bigint_ror_raw value) = val value div 2" "length (bigint_ror_raw value) = length value"
proof -
  obtain c where c: "2 * val (rev (ror_loop False (rev value))) + of_bool c = val value"
    and l: "length (ror_loop False (rev value)) = length value" using ror_loop_val [of False "rev value"] by auto
  from c have "val (rev (ror_loop False (rev value))) = val value div 2" by (cases c) auto
  with l show "val (bigint_ror_raw value) = val value div 2" "length (bigint_ror_raw value) = length value"
    by (simp_all add: bigint_ror_raw_def)
qed

lemma bigint_is_zero_val: "bigint_is_zero_raw value \<longleftrightarrow> val value = 0"
  by (induction "value") (auto simp: unat_eq_0)


lemma geq_loop_val:
  "length vs = length rs \<Longrightarrow> geq_loop vs rs \<longleftrightarrow> val (rev rs) \<le> val (rev vs)"
proof (induction vs rs rule: list_induct2)
  case (Cons v vs r rs)
  have b: "val (rev vs) < 2 ^ (32 * length vs)" "val (rev rs) < 2 ^ (32 * length vs)"
    using val_bound [of "rev vs"] val_bound [of "rev rs"] Cons.hyps by simp_all
  have less: "val (rev xs) + 2 ^ (32 * length vs) * m < val (rev ys) + 2 ^ (32 * length vs) * n"
    if "m < n" "val (rev xs) < 2 ^ (32 * length vs)" for m n :: nat and xs ys
  proof -
    have "2 ^ (32 * length vs) * (m + 1) \<le> 2 ^ (32 * length vs) * n" using that(1) by (intro mult_le_mono2) simp
    with that(2) show ?thesis by (simp add: algebra_simps)
  qed
  consider "v = r" | "unat v < unat r" | "unat r < unat v" using word_unat_eq_iff nat_neq_iff by metis
  then show ?case
  proof cases
    case 1
    then show ?thesis using Cons by (cases "vs = []") (auto simp: val_snoc)
  next
    case 2
    then show ?thesis using less [OF 2 b(1), of rs] Cons.hyps by (auto simp: val_snoc word_le_nat_alt)
  next
    case 3
    then show ?thesis using less [OF 3 b(2), of vs] Cons.hyps by (auto simp: val_snoc word_le_nat_alt)
  qed
qed simp

lemma bigint_is_geq_val:
  "length value = length reference \<Longrightarrow> bigint_is_geq_raw value reference \<longleftrightarrow> val reference \<le> val value"
  unfolding bigint_is_geq_raw_def by (subst geq_loop_val) simp_all

lemma bigint_bit_0_val: "value \<noteq> [] \<Longrightarrow> bigint_bit_is_set_raw value 0 \<longleftrightarrow> odd (val value)"
  by (cases "value") (simp_all add: bigint_bit_is_set_raw_def and_one_eq mod_2_eq_odd bit_0 [symmetric] bit_0_odd)

lemma bsrl_loop_bounds:
  "unat x < 2 ^ (n + 1) \<Longrightarrow> x \<noteq> 0 \<Longrightarrow> n < 32 \<Longrightarrow>
    bsrl_loop x n \<le> n \<and> 2 ^ bsrl_loop x n \<le> unat x \<and> unat x < 2 ^ (bsrl_loop x n + 1)"
proof (induction n)
  case 0
  then show ?case by (simp add: unat_gt_0 Suc_leI)
next
  case (Suc n)
  have "bit x (Suc n) \<longleftrightarrow> bit (unat x) (Suc n)" using Suc.prems by (simp add: bit_unsigned_iff)
  then have "bit x (Suc n) \<longleftrightarrow> odd (unat x div 2 ^ Suc n)" by (simp only: bit_iff_odd)
  moreover have "unat x div 2 ^ Suc n < 2" using Suc.prems(1) by (simp add: div_less_iff_less_mult)
  then have "unat x div 2 ^ Suc n = 0 \<or> unat x div 2 ^ Suc n = 1" by linarith
  moreover have "unat x div 2 ^ Suc n = 0 \<longleftrightarrow> unat x < 2 ^ Suc n" by (simp only: div_eq_0_iff) simp
  ultimately have "bit x (Suc n) \<longleftrightarrow> 2 ^ Suc n \<le> unat x" by (metis even_zero odd_one not_le)
  with Suc show ?case by auto
qed

lemma bsrl_bounds: "x \<noteq> 0 \<Longrightarrow> bsrl x \<le> 31 \<and> 2 ^ bsrl x \<le> unat x \<and> unat x < 2 ^ (bsrl x + 1)"
  using bsrl_loop_bounds [of x 31] unat_u32_less [of x] by (simp add: bsrl_def)

lemma max_bit_loop_bounds:
  "val (rev vs) < 2 ^ max_bit_loop vs \<and> max_bit_loop vs \<le> 32 * length vs
    \<and> (0 < val (rev vs) \<longrightarrow> 0 < max_bit_loop vs \<and> 2 ^ (max_bit_loop vs - 1) \<le> val (rev vs))"
proof (induction vs)
  case (Cons v vs)
  show ?case
  proof (cases "v = 0")
    case False
    have b: "bsrl v \<le> 31" "2 ^ bsrl v \<le> unat v" "unat v < 2 ^ (bsrl v + 1)" using bsrl_bounds [OF False] by auto
    have "val (rev vs) + 2 ^ (32 * length vs) * unat v < 2 ^ (32 * length vs) * (unat v + 1)"
      using val_bound [of "rev vs"] by simp
    also have "\<dots> \<le> 2 ^ (32 * length vs) * 2 ^ (bsrl v + 1)" using b(3) by (intro mult_le_mono2) simp
    finally have "val (rev (v # vs)) < 2 ^ (1 + bsrl v + 32 * length vs)" by (simp add: val_snoc power_add ac_simps)
    moreover have "2 ^ (bsrl v + 32 * length vs) \<le> val (rev (v # vs))"
      using mult_le_mono2 [OF b(2), of "2 ^ (32 * length vs)"] by (simp add: val_snoc power_add ac_simps trans_le_add2)
    ultimately show ?thesis using False b(1) by simp
  qed (use Cons in \<open>simp_all add: val_snoc\<close>)
qed simp

lemma bigint_max_set_bit_bounds:
  "val value < 2 ^ bigint_max_set_bit_raw value" "bigint_max_set_bit_raw value \<le> 32 * length value"
  "0 < val value \<Longrightarrow> 0 < bigint_max_set_bit_raw value \<and> 2 ^ (bigint_max_set_bit_raw value - 1) \<le> val value"
  using max_bit_loop_bounds [of "rev value"] by (simp_all add: bigint_max_set_bit_raw_def)

section \<open>Multiplication\<close>

lemma val_update:
  "k < length xs \<Longrightarrow> val (xs[k := x]) + 2 ^ (32 * k) * unat (xs ! k) = val xs + 2 ^ (32 * k) * unat x"
proof (induction xs arbitrary: k)
  case (Cons y ys)
  show ?case
  proof (cases k)
    case (Suc j)
    then have "2 ^ 32 * val (ys[j := x]) + 2 ^ 32 * (2 ^ (32 * j) * unat (ys ! j)) = 2 ^ 32 * val ys + 2 ^ 32 * (2 ^ (32 * j) * unat x)"
      using Cons.IH [of j] Cons.prems by (metis Suc_less_eq distrib_left length_Cons)
    with Suc show ?thesis by (simp add: power_add)
  qed simp
qed simp

lemma mull_spec: "mull x y = (lo, hi) \<Longrightarrow> unat lo + 2 ^ 32 * unat hi = unat x * unat y"
proof -
  assume m: "mull x y = (lo, hi)"
  have "unat x * unat y \<le> (2 ^ 32 - 1) * (2 ^ 32 - 1)"
    using unat_u32_less [of x] unat_u32_less [of y] by (intro mult_le_mono) simp_all
  then have p: "unat (ucast x * ucast y :: u64) = unat x * unat y" by (simp add: unat_word_ariths unat_ucast_mod mod_simps)
  have "unat lo = unat x * unat y mod 2 ^ 32" using m p by (auto simp: mull_def Let_def unat_ucast_mod)
  moreover have "unat hi = unat x * unat y div 2 ^ 32 mod 2 ^ 32"
    using m p by (auto simp: mull_def Let_def unat_ucast_mod drop_bit_eq_div unat_div)
  moreover have "unat x * unat y div 2 ^ 32 < 2 ^ 32"
    using \<open>unat x * unat y \<le> _\<close> by (simp add: div_less_iff_less_mult)
  ultimately show ?thesis by simp
qed

lemma add_at:
  assumes "k < length res" "adcl cf (res ! k) y = (x, cf')"
  shows "val (res[k := x]) + 2 ^ (32 * (k + 1)) * of_bool cf' = val res + 2 ^ (32 * k) * (unat y + of_bool cf)"
proof -
  have "2 ^ (32 * k) * unat x + 2 ^ (32 * k) * (2 ^ 32 * of_bool cf') = 2 ^ (32 * k) * unat (res ! k) + 2 ^ (32 * k) * (unat y + of_bool cf)"
    using arg_cong [OF adcl_spec [OF assms(2)], of "(*) (2 ^ (32 * k))"] by (simp only: distrib_left add.assoc)
  with val_update [OF assms(1), of x] show ?thesis by (simp add: power_add)
qed

lemma carry_loop_val:
  assumes "k \<le> length res" "length res - k < fuel" "rest \<noteq> []"
    "val res + 2 ^ (32 * k) * of_bool cf < 2 ^ (32 * length res)"
  shows "\<exists>res'. carry_loop fuel cf k (res @ rest) = Some (res' @ rest) \<and> length res' = length res
    \<and> val res' = val res + 2 ^ (32 * k) * of_bool cf"
  using assms
proof (induction fuel arbitrary: cf k res)
  case (Suc fuel)
  show ?case
  proof (cases "k = length res")
    case True
    then have "\<not> cf" using Suc.prems(4) by auto
    with True Suc.prems(3) unat_u32_less show ?thesis by (cases rest) (auto simp: adcl_def Let_def not_le [symmetric])
  next
    case False
    then have k: "k < length res" using Suc.prems(1) by simp
    obtain x cf' where x: "adcl cf (res ! k) 0 = (x, cf')" by fastforce
    have v: "val (res[k := x]) + 2 ^ (32 * (k + 1)) * of_bool cf' = val res + 2 ^ (32 * k) * of_bool cf"
      using add_at [OF k x] by simp
    show ?thesis
    proof (cases cf')
      case True
      with Suc.IH [of "k + 1" "res[k := x]" True] k v x Suc.prems show ?thesis
        by (simp add: nth_append list_update_append)
    next
      case False
      with k v x show ?thesis by (simp add: nth_append list_update_append)
    qed
  qed
qed simp


lemma multiply_step_val:
  assumes "k + 1 < length res" "rest \<noteq> []" "val res + 2 ^ (32 * k) * (unat a * unat b) < 2 ^ (32 * length res)"
  shows "\<exists>res'. multiply_step a b k (res @ rest) = Some (res' @ rest) \<and> length res' = length res
    \<and> val res' = val res + 2 ^ (32 * k) * (unat a * unat b)"
proof -
  obtain lo hi where m: "mull a b = (lo, hi)" by fastforce
  obtain x1 c1 where x1: "adcl False (res ! k) lo = (x1, c1)" by fastforce
  define res1 where "res1 = res[k := x1]"
  obtain x2 c2 where x2: "adcl c1 (res1 ! (k + 1)) hi = (x2, c2)" by fastforce
  define res2 where "res2 = res1[k + 1 := x2]"
  have len: "k < length res" "k + 1 < length res1" "length res2 = length res" using assms(1) by (simp_all add: res1_def res2_def)
  have "val res1 + 2 ^ (32 * (k + 1)) * of_bool c1 = val res + 2 ^ (32 * k) * unat lo"
    using add_at [OF len(1) x1] by (simp add: res1_def)
  moreover have "val res2 + 2 ^ (32 * (k + 2)) * of_bool c2 = val res1 + 2 ^ (32 * (k + 1)) * (unat hi + of_bool c1)"
    using add_at [OF len(2) x2] by (simp add: res2_def)
  moreover have "2 ^ (32 * k) * unat lo + 2 ^ (32 * (k + 1)) * unat hi = 2 ^ (32 * k) * (unat a * unat b)"
    using arg_cong [OF mull_spec [OF m], of "(*) (2 ^ (32 * k))"] by (simp add: distrib_left power_add)
  ultimately have v: "val res2 + 2 ^ (32 * (k + 2)) * of_bool c2 = val res + 2 ^ (32 * k) * (unat a * unat b)"
    by (simp add: distrib_left)
  have "multiply_step a b k (res @ rest) = carry_loop (length (res @ rest) + 1) c2 (k + 2) (res2 @ rest)"
    using assms(1) len x1 x2 m
    by (simp add: multiply_step_def Let_def nth_append list_update_append res1_def res2_def del: carry_loop.simps)
  with carry_loop_val [of "k + 2" res2 "length (res @ rest) + 1" rest c2] assms len v show ?thesis by (simp del: carry_loop.simps)
qed

lemma multiply_row_val:
  assumes "k + length bs < length res" "rest \<noteq> []" "val res + 2 ^ (32 * k) * (unat a * val bs) < 2 ^ (32 * length res)"
  shows "\<exists>res'. multiply_row a bs k (res @ rest) = Some (res' @ rest) \<and> length res' = length res
    \<and> val res' = val res + 2 ^ (32 * k) * (unat a * val bs)"
  using assms
proof (induction bs arbitrary: k res)
  case (Cons b bs)
  have e: "2 ^ (32 * k) * (unat a * val (b # bs)) = 2 ^ (32 * k) * (unat a * unat b) + 2 ^ (32 * (k + 1)) * (unat a * val bs)"
    by (simp add: distrib_left power_add)
  obtain res1 where r1: "multiply_step a b k (res @ rest) = Some (res1 @ rest)" "length res1 = length res"
    "val res1 = val res + 2 ^ (32 * k) * (unat a * unat b)"
    using multiply_step_val [of k res rest a b] Cons.prems e by auto
  with Cons.IH [of "k + 1" res1] Cons.prems e show ?case by (simp add: add.assoc)
qed simp

lemma multiply_rows_val:
  assumes "i + length as + length bs \<le> length res" "bs \<noteq> []" "rest \<noteq> []"
    "val res + 2 ^ (32 * i) * (val as * val bs) < 2 ^ (32 * length res)"
  shows "\<exists>res'. multiply_rows as bs i (res @ rest) = Some (res' @ rest) \<and> length res' = length res
    \<and> val res' = val res + 2 ^ (32 * i) * (val as * val bs)"
  using assms
proof (induction as arbitrary: i res)
  case (Cons a as)
  have e: "2 ^ (32 * i) * (val (a # as) * val bs) = 2 ^ (32 * i) * (unat a * val bs) + 2 ^ (32 * (i + 1)) * (val as * val bs)"
    by (simp add: distrib_left distrib_right power_add)
  obtain res1 where r1: "multiply_row a bs i (res @ rest) = Some (res1 @ rest)" "length res1 = length res"
    "val res1 = val res + 2 ^ (32 * i) * (unat a * val bs)"
    using multiply_row_val [of i bs res rest a] Cons.prems e by auto
  with Cons.IH [of "i + 1" res1] Cons.prems e show ?case by (simp add: add.assoc)
qed simp

lemma bigint_multiply_val:
  assumes "length a = n" "length b = n" "0 < n" "2 * n < length mem"
  shows "\<exists>res. bigint_multiply_raw a b mem = Some (res @ drop (2 * n) mem) \<and> length res = 2 * n \<and> val res = val a * val b"
proof -
  have "val a * val b < 2 ^ (32 * n) * 2 ^ (32 * n)"
    using val_bound [of a] val_bound [of b] assms(1,2) by (intro mult_strict_mono) auto
  then have "val a * val b < 2 ^ (32 * (2 * n))" by (simp add: power_add [symmetric])
  moreover have "b \<noteq> []" using assms by auto
  ultimately show ?thesis
    using multiply_rows_val [of 0 a b "replicate (2 * n) 0" "drop (2 * n) mem"] assms
    by (auto simp: bigint_multiply_raw_def)
qed

lemma carry_loop_length: "carry_loop fuel cf k mem = Some mem' \<Longrightarrow> length mem' = length mem"
  by (induction fuel cf k mem rule: carry_loop.induct) (auto simp: Let_def split: prod.splits if_splits)

lemma multiply_step_length: "multiply_step a b k mem = Some mem' \<Longrightarrow> length mem' = length mem \<and> k + 2 < length mem"
  by (auto simp: multiply_step_def Let_def split: prod.splits if_splits dest!: carry_loop_length)

lemma multiply_row_length: "multiply_row a bs k mem = Some mem' \<Longrightarrow> length mem' = length mem \<and> (bs \<noteq> [] \<longrightarrow> k + length bs + 1 < length mem)"
proof (induction bs arbitrary: k mem)
  case (Cons b bs)
  then obtain mem1 where "multiply_step a b k mem = Some mem1" "multiply_row a bs (k + 1) mem1 = Some mem'"
    by (auto split: option.splits)
  then show ?case using Cons.IH [of "k + 1" mem1] multiply_step_length [of a b k mem mem1] by (cases "bs = []") auto
qed simp

lemma multiply_rows_length:
  "multiply_rows as bs i mem = Some mem' \<Longrightarrow> length mem' = length mem \<and> (as \<noteq> [] \<and> bs \<noteq> [] \<longrightarrow> i + length as + length bs < length mem)"
proof (induction as arbitrary: i mem)
  case (Cons a as)
  then obtain mem1 where "multiply_row a bs i mem = Some mem1" "multiply_rows as bs (i + 1) mem1 = Some mem'"
    by (auto split: option.splits)
  then show ?case using Cons.IH [of "i + 1" mem1] multiply_row_length [of a bs i mem mem1] by (cases "as = []") auto
qed simp


section \<open>Modular arithmetic\<close>

lemma bigint_grow_val:
  "length source \<le> n \<Longrightarrow> val (bigint_grow_raw source n) = val source \<and> length (bigint_grow_raw source n) = n"
  by (simp add: bigint_grow_raw_def val_append)

lemma bigint_shrink_val:
  "n \<le> length source \<Longrightarrow> val source < 2 ^ (32 * n) \<Longrightarrow>
    val (bigint_shrink_raw source n) = val source \<and> length (bigint_shrink_raw source n) = n"
proof -
  assume n: "n \<le> length source" and v: "val source < 2 ^ (32 * n)"
  have "val source = val (take n source) + 2 ^ (32 * n) * val (drop n source)"
    using val_append [of "take n source" "drop n source"] n by simp
  moreover from this v have "val (drop n source) = 0" by (cases "val (drop n source)") auto
  ultimately show ?thesis using n by (simp add: bigint_shrink_raw_def)
qed

lemma rescale_loop_val:
  "val modulus * 2 ^ n < 2 ^ (32 * length modulus) \<Longrightarrow>
    val (rescale_loop n modulus) = val modulus * 2 ^ n \<and> length (rescale_loop n modulus) = length modulus"
proof (induction n arbitrary: modulus)
  case (Suc n)
  have "2 * val modulus * 1 \<le> 2 * val modulus * 2 ^ n" by (intro mult_le_mono2) simp
  then have "2 * val modulus < 2 ^ (32 * length modulus)" using Suc.prems by (simp add: ac_simps)
  note r = bigint_rol_val [OF this]
  show ?case using Suc.IH [of "bigint_rol_raw modulus"] Suc.prems by (simp add: r ac_simps)
qed simp

lemma subtract_loop_val:
  assumes "length modulus = length res" "val modulus = m * 2 ^ n" "val res < 2 * m * 2 ^ n" "subtract_loop (Suc n) modulus res = (modulus', res')"
  shows "val res' = val res mod m \<and> length res' = length res \<and> length modulus' = length modulus"
  using assms
proof (induction n arbitrary: modulus res)
  case 0
  then have "val res mod m = (if m \<le> val res then val res - m else val res)" by (auto simp: le_mod_geq)
  with 0 show ?case by (auto simp: bigint_is_geq_val bigint_subtract_val bigint_ror_val)
next
  case (Suc n)
  define r where "r = (if bigint_is_geq_raw res modulus then bigint_subtract_raw modulus res else res)"
  have g: "bigint_is_geq_raw res modulus \<longleftrightarrow> val modulus \<le> val res" using Suc.prems(1) by (simp add: bigint_is_geq_val)
  have r: "val r = (if val modulus \<le> val res then val res - val modulus else val res)" "length r = length res"
    using Suc.prems(1) by (auto simp: r_def g bigint_subtract_val)
  have m: "val (bigint_ror_raw modulus) = m * 2 ^ n" "length (bigint_ror_raw modulus) = length r"
    using Suc.prems(1,2) r(2) by (simp_all add: bigint_ror_val)
  have "val r < 2 * m * 2 ^ n" using Suc.prems(2,3) r(1) by (auto split: if_splits)
  moreover have "subtract_loop (Suc n) (bigint_ror_raw modulus) r = (modulus', res')"
    using Suc.prems(4) by (simp add: r_def Let_def del: subtract_loop.simps(2) add: subtract_loop.simps(2) [of "Suc n"])
  ultimately have "val res' = val r mod m \<and> length res' = length r \<and> length modulus' = length (bigint_ror_raw modulus)"
    using Suc.IH m by blast
  moreover have "val r mod m = val res mod m"
  proof (cases "val modulus \<le> val res")
    case True
    then have "val res = val r + m * 2 ^ Suc n" using r(1) Suc.prems(2) by simp
    then show ?thesis by simp
  qed (simp add: r(1))
  ultimately show ?case using r(2) Suc.prems(1) by (simp add: bigint_ror_val)
qed

lemma bigint_mod_multiply_val:
  assumes "length multiplicand = n" "length multiplier = n" "length modulus = n" "length tmp = 4 * n" "0 < val modulus"
  shows "\<exists>res tmp'. bigint_mod_multiply_raw multiplicand multiplier modulus tmp = Some (res, tmp')
    \<and> length res = n \<and> length tmp' = 4 * n \<and> val res = val multiplicand * val multiplier mod val modulus"
proof -
  have "0 < n" using assms(3,5) by (cases modulus) auto
  then obtain res where res: "bigint_multiply_raw multiplicand multiplier tmp = Some (res @ drop (2 * n) tmp)"
    "length res = 2 * n" "val res = val multiplicand * val multiplier"
    using bigint_multiply_val [of multiplicand n multiplier tmp] assms by auto
  define m where "m = bigint_grow_raw modulus (2 * n)"
  have m: "val m = val modulus" "length m = 2 * n" using bigint_grow_val [of modulus "2 * n"] assms(3) by (simp_all add: m_def)
  define N M where "N = bigint_max_set_bit_raw res" and "M = bigint_max_set_bit_raw m"
  define r where "r = int N - int M"
  have N: "val res < 2 ^ N" "N \<le> 64 * n" using bigint_max_set_bit_bounds(1,2) [of res] res(2) by (simp_all add: N_def)
  have M: "val m < 2 ^ M" "0 < M" "2 ^ (M - 1) \<le> val m" using bigint_max_set_bit_bounds [of m] m(1) assms(5) by (simp_all add: M_def)
  obtain m' res' where l: "subtract_loop (nat (r + 1)) (rescale_loop (nat r) m) res = (m', res')" by fastforce
  have *: "val res' = val res mod val modulus \<and> length res' = 2 * n \<and> length m' = 2 * n"
  proof (cases "r < 0")
    case True
    then have "N \<le> M - 1" by (simp add: r_def)
    then have "2 ^ N \<le> (2 ^ (M - 1) :: nat)" by (intro power_increasing) simp_all
    with N(1) M(3) m(1) have "val res < val modulus" by linarith
    with True l m res(2) show ?thesis by auto
  next
    case False
    then have e: "N = M + nat r" "nat (r + 1) = Suc (nat r)" by (auto simp: r_def)
    have "val m * 2 ^ nat r < 2 ^ M * 2 ^ nat r" using M(1) by (intro mult_strict_right_mono) simp_all
    also have "\<dots> = 2 ^ N" by (simp add: e power_add)
    also have "\<dots> \<le> 2 ^ (32 * length m)" using N(2) m(2) by (intro power_increasing) simp_all
    finally have s: "val (rescale_loop (nat r) m) = val modulus * 2 ^ nat r" "length (rescale_loop (nat r) m) = length res"
      using rescale_loop_val [of m "nat r"] m res(2) by simp_all
    have "2 * 2 ^ (M - 1) * 2 ^ nat r = (2 ^ N :: nat)" using M(2) unfolding e(1) by (cases M) (simp_all add: power_add)
    moreover have "2 * 2 ^ (M - 1) * 2 ^ nat r \<le> 2 * val modulus * 2 ^ nat r" using M(3) m(1) by simp
    ultimately have "val res < 2 * val modulus * 2 ^ nat r" using N(1) by linarith
    from subtract_loop_val [OF s(2) s(1) this] l s(2) res(2) show ?thesis by (simp add: e)
  qed
  then have "val res' < val modulus" using assms(5) by simp
  with val_bound [of modulus] assms(3) have "val res' < 2 ^ (32 * n)" by simp
  with * have sh: "val (bigint_shrink_raw res' n) = val res' \<and> length (bigint_shrink_raw res' n) = n"
    by (intro bigint_shrink_val) simp_all
  have "bigint_mod_multiply_raw multiplicand multiplier modulus tmp = Some (bigint_shrink_raw res' n, res' @ m')"
    using res(1,2) l assms(3) by (simp add: bigint_mod_multiply_raw_def Let_def m_def N_def M_def r_def)
  with sh * res(3) show ?thesis by simp
qed


lemma mod_exp_loop_val:
  assumes "length base = n" "length modulus = n" "length res = n" "length tmp = 4 * n" "0 < val modulus"
  shows "\<exists>res'. mod_exp_loop modulus tmp base exponent res = Some res' \<and> length res' = n
    \<and> val res' = (if val exponent = 0 then val res else val res * val base ^ val exponent mod val modulus)"
  using assms
proof (induction "val exponent" arbitrary: exponent base res tmp rule: less_induct)
  case less
  show ?case
  proof (cases "val exponent = 0")
    case True
    then show ?thesis using less.prems by (subst mod_exp_loop.simps) (simp add: bigint_is_zero_val)
  next
    case False
    then have ne: "exponent \<noteq> []" by auto
    define e where "e = val exponent"
    have odd: "bigint_bit_is_set_raw exponent 0 \<longleftrightarrow> odd e" by (simp add: bigint_bit_0_val [OF ne] e_def)
    have "\<exists>res1 tmp1. (if odd e then bigint_mod_multiply_raw res base modulus tmp else Some (res, tmp)) = Some (res1, tmp1)
      \<and> length res1 = n \<and> length tmp1 = 4 * n \<and> (odd e \<longrightarrow> val res1 = val res * val base mod val modulus)
      \<and> (even e \<longrightarrow> res1 = res)"
      using bigint_mod_multiply_val [of res n base modulus tmp] less.prems by (cases "odd e") auto
    then obtain res1 tmp1 where r1: "(if bigint_bit_is_set_raw exponent 0 then bigint_mod_multiply_raw res base modulus tmp
        else Some (res, tmp)) = Some (res1, tmp1)" "length res1 = n" "length tmp1 = 4 * n"
      "odd e \<longrightarrow> val res1 = val res * val base mod val modulus" "even e \<longrightarrow> res1 = res"
      unfolding odd by blast
    then have m1: "val res1 mod val modulus = val res * val base ^ (e mod 2) mod val modulus" by (cases "odd e") (auto simp: odd_iff_mod_2_eq_one)
    obtain base1 tmp2 where b1: "bigint_mod_multiply_raw base base modulus tmp1 = Some (base1, tmp2)"
      "length base1 = n" "length tmp2 = 4 * n" "val base1 = val base * val base mod val modulus"
      using bigint_mod_multiply_val [of base n base modulus tmp1] less.prems r1(3) by auto
    have half: "val (bigint_ror_raw exponent) = e div 2" by (simp add: bigint_ror_val e_def)
    have lt: "e div 2 < val exponent" using False by (simp add: e_def)
    obtain res' where
      res': "mod_exp_loop modulus tmp2 base1 (bigint_ror_raw exponent) res1 = Some res'" "length res' = n"
        "val res' = (if e div 2 = 0 then val res1 else val res1 * val base1 ^ (e div 2) mod val modulus)"
      using less.hyps [of "bigint_ror_raw exponent", unfolded half, OF lt b1(2) less.prems(2) r1(2) b1(3) less.prems(5)] by blast
    have "mod_exp_loop modulus tmp base exponent res = Some res'"
      using False r1(1) b1(1) res'(1) by (subst mod_exp_loop.simps) (simp add: bigint_is_zero_val Let_def)
    moreover have "val res' = val res * val base ^ e mod val modulus"
    proof (cases "e div 2 = 0")
      case True
      then have "e = 1" using False by (simp add: e_def)
      with r1(4) res'(3) show ?thesis by simp
    next
      case nz: False
      have "val res' = (val res1 mod val modulus) * (val base1 ^ (e div 2) mod val modulus) mod val modulus"
        using res'(3) nz by (simp add: mod_mult_eq)
      also have "val base1 ^ (e div 2) mod val modulus = (val base * val base) ^ (e div 2) mod val modulus"
        by (simp add: b1(4) power_mod)
      also have "(val base * val base) ^ (e div 2) = val base ^ (2 * (e div 2))" by (simp add: power_mult power2_eq_square)
      finally have "val res' = val res * val base ^ (e mod 2) * val base ^ (2 * (e div 2)) mod val modulus"
        by (simp add: m1 mod_mult_eq)
      also have "val res * val base ^ (e mod 2) * val base ^ (2 * (e div 2)) = val res * val base ^ (e mod 2 + 2 * (e div 2))"
        by (simp only: power_add mult.assoc)
      finally show ?thesis by simp
    qed
    ultimately show ?thesis using res'(2) False by (simp add: e_def)
  qed
qed

section \<open>Byte strings\<close>

fun le_val :: "u8 list \<Rightarrow> nat" where
  "le_val [] = 0"
| "le_val (b # bs) = unat b + 256 * le_val bs"

definition be_val :: "u8 list \<Rightarrow> nat" where
  "be_val bs = le_val (rev bs)"

lemma le_val_append: "le_val (xs @ ys) = le_val xs + 256 ^ length xs * le_val ys"
  by (induction xs) (simp_all add: algebra_simps)

lemma le_val_zeros [simp]: "le_val (replicate n 0) = 0"
  by (induction n) simp_all

lemma le_val_bound: "le_val xs < 256 ^ length xs"
proof (induction xs)
  case (Cons x xs)
  have "unat x + 256 * le_val xs < 256 + 256 * le_val xs" using unat_u8_less [of x] by simp
  also have "\<dots> \<le> 256 * 256 ^ length xs" using Cons by simp
  finally show ?case by simp
qed simp

lemma le_val_inject: "length xs = length ys \<Longrightarrow> le_val xs = le_val ys \<longleftrightarrow> xs = ys"
proof (induction xs ys rule: list_induct2)
  case (Cons x xs y ys)
  have "unat x = unat y \<and> le_val xs = le_val ys" if e: "unat x + 256 * le_val xs = unat y + 256 * le_val ys"
  proof -
    have "(unat x + 256 * le_val xs) mod 256 = unat x" "(unat y + 256 * le_val ys) mod 256 = unat y"
      using unat_u8_less by simp_all
    with e show ?thesis by simp
  qed
  with Cons show ?case by (auto simp: word_unat_eq_iff)
qed simp

lemma be_val_bound: "be_val bs < 256 ^ length bs"
  using le_val_bound [of "rev bs"] by (simp add: be_val_def)

lemma be_val_inject: "length xs = length ys \<Longrightarrow> be_val xs = be_val ys \<longleftrightarrow> xs = ys"
  using le_val_inject [of "rev xs" "rev ys"] by (simp add: be_val_def)

lemma le_val_32: "le_val (cpu_to_le32 x) = unat x"
proof -
  have 1: "le_val (cpu_to_le32 x) = unat x mod 256 + 256 * (unat x div 256 mod 256 + 256 * (unat x div 65536 mod 256 + 256 * (unat x div 16777216 mod 256)))"
    by (simp add: cpu_to_le32_def htonl_def unat_ucast_mod drop_bit_eq_div unat_div)
  have 2: "unat x div 16777216 mod 256 = unat x div 16777216"
    using unat_u32_less [of x] by (intro mod_less) (simp add: div_less_iff_less_mult)
  have 3: "unat x div 256 = unat x div 256 mod 256 + 256 * (unat x div 65536)"
    "unat x div 65536 = unat x div 65536 mod 256 + 256 * (unat x div 16777216)"
    using mod_mult_div_eq [of "unat x div 256" 256] mod_mult_div_eq [of "unat x div 65536" 256]
    by (simp_all add: div_mult2_eq [symmetric])
  have 4: "unat x mod 256 + 256 * (unat x div 256) = unat x" by simp
  show ?thesis unfolding 1 2 by (simp only: 3 [symmetric] 4)
qed

lemma from_to_32: "length bs = 4 \<Longrightarrow> cpu_to_le32 (le32_to_cpu bs) = bs"
proof -
  assume "length bs = 4"
  then obtain a b c d where bs: "bs = [a, b, c, d]" by (auto simp: length_Suc_conv numeral_eq_Suc)
  have hi: "\<not> bit y (8 + n)" "\<not> bit y (16 + n)" "\<not> bit y (24 + n)" for y :: u8 and n
    by (auto dest: bit_imp_le_length)
  show ?thesis
    unfolding bs cpu_to_le32_def le32_to_cpu_def htonl_def ntohl_def
    by (auto intro!: bit_word_eqI simp: bit_simps hi)
qed

lemma unat_le32: "length bs = 4 \<Longrightarrow> unat (le32_to_cpu bs) = le_val bs"
  using le_val_32 [of "le32_to_cpu bs"] by (simp add: from_to_32)

lemma val_le_words: "length bs = 4 * n \<Longrightarrow> val (map le32_to_cpu (blocks 4 bs)) = le_val bs"
proof (induction n arbitrary: bs)
  case (Suc n)
  have "blocks 4 (take 4 bs @ drop 4 bs) = [take 4 bs] @ blocks 4 (drop 4 bs)"
    using Suc.prems by (subst blocks_append) (simp_all add: blocks_single)
  moreover have "le_val (take 4 bs @ drop 4 bs) = le_val (take 4 bs) + 2 ^ 32 * le_val (drop 4 bs)"
    using Suc.prems by (subst le_val_append) simp
  ultimately show ?case using Suc.IH [of "drop 4 bs"] Suc.prems by (simp add: unat_le32)
qed (simp add: blocks_def)

lemma le_val_words: "le_val (concat (map cpu_to_le32 vs)) = val vs"
  by (induction vs) (simp_all add: le_val_append le_val_32)

lemma bigint_init_val:
  assumes "length data \<le> 4 * n"
  shows "val (bigint_init_raw n data) = be_val data" "length (bigint_init_raw n data) = n"
  using assms by (simp_all add: bigint_init_raw_def val_le_words [of _ n] le_val_append be_val_def)

lemma bigint_done_val:
  assumes "n \<le> 4 * length value"
  shows "be_val (bigint_done_raw value n) = val value mod 256 ^ n" "length (bigint_done_raw value n) = n"
proof -
  define bs where "bs = concat (map cpu_to_le32 value)"
  have l: "length bs = 4 * length value" unfolding bs_def by (induction "value") simp_all
  have "le_val bs = le_val (take n bs) + 256 ^ n * le_val (drop n bs)"
    using le_val_append [of "take n bs" "drop n bs"] l assms by simp
  moreover have "le_val (take n bs) < 256 ^ n" using le_val_bound [of "take n bs"] l assms by simp
  ultimately have "le_val bs mod 256 ^ n = le_val (take n bs)" by simp
  then show "be_val (bigint_done_raw value n) = val value mod 256 ^ n" "length (bigint_done_raw value n) = n"
    using l assms by (simp_all add: bigint_done_raw_def bs_def [symmetric] be_val_def le_val_words [of "value", symmetric])
qed


section \<open>Properties\<close>

lemma wrapped: "a + 2 ^ k * of_bool c = b \<Longrightarrow> a < 2 ^ k \<Longrightarrow> a = b mod 2 ^ k" for a b k :: nat
  by (cases c) auto

lemma max_bit_loop_zero: "max_bit_loop vs = 0 \<longleftrightarrow> val (rev vs) = 0"
proof (induction vs)
  case (Cons v vs)
  then show ?case by (simp add: val_snoc unat_eq_0)
qed simp

lemma max_bit_zero: "bigint_max_set_bit_raw value = 0 \<longleftrightarrow> val value = 0"
  using max_bit_loop_zero [of "rev value"] by (simp add: bigint_max_set_bit_raw_def)

text \<open>
  C36: the assembly loops compute on the numbers that the arrays denote: addition,
  subtraction and doubling modulo the size of the array, halving, the test for
  zero, the comparison and the length in bits.  (The rotations of the code
  shift: the bit that leaves the array does not come back.)
\<close>

theorem bigint_operations_refine:
  fixes x y :: bigint
  assumes "length x = length y"
  shows "val (bigint_add_raw x y) = (val y + val x) mod 2 ^ (32 * length y)
    \<and> val (bigint_subtract_raw x y) = (val y + (2 ^ (32 * length y) - val x)) mod 2 ^ (32 * length y)
    \<and> val (bigint_rol_raw y) = 2 * val y mod 2 ^ (32 * length y)
    \<and> val (bigint_ror_raw y) = val y div 2
    \<and> (bigint_is_zero_raw y \<longleftrightarrow> val y = 0)
    \<and> (bigint_is_geq_raw y x \<longleftrightarrow> val x \<le> val y)
    \<and> bigint_max_set_bit_raw y = (LEAST m. val y < 2 ^ m)
    \<and> (\<forall>op \<in> {bigint_add_raw x, bigint_subtract_raw x, bigint_rol_raw, bigint_ror_raw}. length (op y) = length y)"
proof (intro conjI)
  note b = val_bound [of "add_loop False x y"] val_bound [of "sub_loop False x y"] val_bound [of "rol_loop False y"]
  note a = add_loop_val [OF assms, of False] and s = sub_loop_val [OF assms, of False] and r = rol_loop_val [of False y]
  show "val (bigint_add_raw x y) = (val y + val x) mod 2 ^ (32 * length y)"
    using a b(1) wrapped unfolding bigint_add_raw_def by fastforce
  obtain c where "val (sub_loop False x y) + val x = val y + 2 ^ (32 * length y) * of_bool c" using s by auto
  moreover have "val x < 2 ^ (32 * length y)" using val_bound [of x] assms by simp
  ultimately have "val (sub_loop False x y) + 2 ^ (32 * length y) * of_bool (\<not> c) = val y + (2 ^ (32 * length y) - val x)"
    by (cases c) auto
  then show "val (bigint_subtract_raw x y) = (val y + (2 ^ (32 * length y) - val x)) mod 2 ^ (32 * length y)"
    using s b(2) wrapped unfolding bigint_subtract_raw_def by fastforce
  show "val (bigint_rol_raw y) = 2 * val y mod 2 ^ (32 * length y)"
    using r b(3) wrapped unfolding bigint_rol_raw_def by fastforce
  show "bigint_max_set_bit_raw y = (LEAST m. val y < 2 ^ m)"
  proof (rule Least_equality [symmetric])
    show "val y < 2 ^ bigint_max_set_bit_raw y" by (rule bigint_max_set_bit_bounds)
    fix m assume m: "val y < 2 ^ m"
    show "bigint_max_set_bit_raw y \<le> m"
    proof (rule ccontr)
      assume "\<not> bigint_max_set_bit_raw y \<le> m"
      then have p: "m \<le> bigint_max_set_bit_raw y - 1" "0 < bigint_max_set_bit_raw y" by simp_all
      then have "0 < val y" using max_bit_zero [of y] by (cases "val y = 0") simp_all
      with bigint_max_set_bit_bounds(3) [of y] have "2 ^ (bigint_max_set_bit_raw y - 1) \<le> val y" by simp
      moreover have "2 ^ m \<le> (2 ^ (bigint_max_set_bit_raw y - 1) :: nat)" using p(1) by (intro power_increasing) simp_all
      ultimately show False using m by linarith
    qed
  qed
  show "\<forall>op \<in> {bigint_add_raw x, bigint_subtract_raw x, bigint_rol_raw, bigint_ror_raw}. length (op y) = length y"
    using a s r by (simp add: bigint_add_raw_def bigint_subtract_raw_def bigint_rol_raw_def bigint_ror_val)
qed (simp_all add: bigint_ror_val bigint_is_zero_val bigint_is_geq_val assms)

theorem bigint_operations_refine_witness:
  "val (bigint_subtract_raw [1, 1] [0, 0]) = 2 ^ 64 - (2 ^ 32 + 1) \<and> \<not> bigint_is_geq_raw [0, 0] [1, 1]"
  using bigint_operations_refine [of "[1, 1]" "[0, 0]"] by simp

text \<open>
  C13: multiplication puts the product of two arrays of n elements into the first
  2n elements of the memory and leaves what follows as it was, provided that
  there is something behind the result: the loop that propagates the carry
  always accesses the element behind the double word it has added to, and for
  the last pair of elements this is the element behind the result.  With
  memory for the result only, the access is out of bounds.
\<close>

theorem bigint_multiply_correct:
  assumes "length multiplicand = n" "length multiplier = n" "0 < n"
  shows "(2 * n < length mem \<longrightarrow>
      (\<exists>res. bigint_multiply_raw multiplicand multiplier mem = Some (res @ drop (2 * n) mem)
        \<and> length res = 2 * n \<and> val res = val multiplicand * val multiplier))
    \<and> (length mem = 2 * n \<longrightarrow> bigint_multiply_raw multiplicand multiplier mem = None)"
proof (intro conjI impI)
  show "\<exists>res. bigint_multiply_raw multiplicand multiplier mem = Some (res @ drop (2 * n) mem)
        \<and> length res = 2 * n \<and> val res = val multiplicand * val multiplier" if "2 * n < length mem"
    using bigint_multiply_val [OF assms that] .
  assume l: "length mem = 2 * n"
  have "multiplicand \<noteq> []" "multiplier \<noteq> []" using assms by auto
  with l assms show "bigint_multiply_raw multiplicand multiplier mem = None"
    using multiply_rows_length [of multiplicand multiplier 0 "replicate (2 * n) 0"]
    by (cases "bigint_multiply_raw multiplicand multiplier mem") (auto simp: bigint_multiply_raw_def)
qed

theorem bigint_multiply_correct_witness:
  "(\<exists>res. bigint_multiply_raw [0xffffffff, 3] [0xfffffff0, 2] [9, 9, 9, 9, 7] = Some (res @ [7])
      \<and> val res = val [0xffffffff, 3] * val [0xfffffff0, 2])
    \<and> bigint_multiply_raw [0xffffffff] [0xffffffff] [0, 0] = None"
  using bigint_multiply_correct [of "[0xffffffff, 3]" 2 "[0xfffffff0, 2]" "[9, 9, 9, 9, 7]"]
    bigint_multiply_correct [of "[0xffffffff]" 1 "[0xffffffff]" "[0, 0]"] by auto

text \<open>
  C12: modular multiplication returns the product modulo a non-zero modulus, with
  the number of elements of the modulus, and the temporary space of its
  documented size is enough for it, for factors of any size up to the length of
  the array: neither needs to be reduced.
\<close>

theorem bigint_mod_multiply_correct:
  assumes "length multiplicand = n" "length multiplier = n" "length modulus = n" "length tmp = 4 * n" "0 < val modulus"
  shows "\<exists>res tmp'. bigint_mod_multiply_raw multiplicand multiplier modulus tmp = Some (res, tmp')
    \<and> length res = n \<and> length tmp' = 4 * n \<and> val res = val multiplicand * val multiplier mod val modulus"
  by (rule bigint_mod_multiply_val [OF assms])

theorem bigint_mod_multiply_correct_witness:
  "\<exists>res tmp'. bigint_mod_multiply_raw [1, 2] [3, 4] [5, 6] (replicate 8 0) = Some (res, tmp')
    \<and> val res = val [1, 2] * val [3, 4] mod val [5, 6]"
  using bigint_mod_multiply_correct [of "[1, 2]" 2 "[3, 4]" "[5, 6]" "replicate 8 0"] by auto

text \<open>
  C5: modular exponentiation ends and returns the power of the base modulo a
  non-zero modulus, for any exponent but zero, for which it returns one without
  reducing it by the modulus.
\<close>

theorem bigint_mod_exp_correct:
  assumes "length base = n" "length modulus = n" "length tmp = 4 * n" "0 < val modulus"
  shows "\<exists>res. bigint_mod_exp_raw base modulus exponent tmp = Some res \<and> length res = n
    \<and> val res = (if val exponent = 0 then 1 else val base ^ val exponent mod val modulus)"
proof -
  have "0 < n" using assms(2,4) by (cases modulus) auto
  then have i: "val (bigint_init_raw n [1]) = 1" "length (bigint_init_raw n [1]) = n"
    using bigint_init_val [of "[1]" n] by (simp_all add: be_val_def)
  show ?thesis
    using mod_exp_loop_val [OF assms(1,2) i(2) assms(3,4), of exponent] unfolding i mult_1
    by (simp only: bigint_mod_exp_raw_def assms(1) Let_def)
qed

theorem bigint_mod_exp_correct_witness:
  "\<exists>res. bigint_mod_exp_raw [3, 2] [7, 1] [5] (replicate 8 0) = Some res
    \<and> val res = (3 + 2 ^ 33) ^ 5 mod (7 + 2 ^ 32)"
  using bigint_mod_exp_correct [of "[3, 2]" 2 "[7, 1]" "replicate 8 0" "[5]"] by auto

end
