(* ===== verification/Time.thy ===== *)
theory Time
  imports Prelude "HOL-Library.Signed_Division"
begin

text \<open>
  Date and time (\<open>core/time.c\<close>, \<open>include/time.h\<close>): the conversion of a
  broken-down time to seconds since the Epoch.  The divisions of C truncate
  towards zero.  The tables have one entry per month; an access outside of a
  table gives \<open>None\<close>.
\<close>

section \<open>The code\<close>

record tm =
  tm_sec :: int
  tm_min :: int
  tm_hour :: int
  tm_mday :: int
  tm_mon :: int
  tm_year :: int
  tm_wday :: int
  tm_yday :: int
  tm_isdst :: int

definition table_entry :: "int list \<Rightarrow> int \<Rightarrow> int option" where
  "table_entry t i = (if 0 \<le> i \<and> i < int (length t) then Some (t ! nat i) else None)"

definition is_leap_year :: "int \<Rightarrow> bool" where
  "is_leap_year year =
     (let leap_year = False;
          leap_year = (if year smod 4 = 0 then True else leap_year);
          leap_year = (if year smod 100 = 0 then False else leap_year);
          leap_year = (if year smod 400 = 100 then True else leap_year)
      in leap_year)"

definition leap_years_to_end :: "int \<Rightarrow> int" where
  "leap_years_to_end year = year sdiv 4 - year sdiv 100 + (year + 300) sdiv 400"

definition week_offset :: "int list" where
  "week_offset = [1, 4, 3, 6, 1, 4, 6, 2, 5, 0, 3, 5]"

definition day_of_week :: "int \<Rightarrow> int \<Rightarrow> int \<Rightarrow> int option" where
  "day_of_week year mon mday =
     (let pseudo_year = (if mon < 2 then year - 1 else year)
      in case table_entry week_offset mon of
           None \<Rightarrow> None
         | Some offset \<Rightarrow> Some ((pseudo_year + leap_years_to_end pseudo_year + offset + mday) smod 7))"

definition days_to_month_start :: "int list" where
  "days_to_month_start = [0, 31, 59, 90, 120, 151, 181, 212, 243, 273, 304, 334]"

definition mktime :: "tm \<Rightarrow> (tm \<times> int) option" where
  "mktime t =
     (case table_entry days_to_month_start (tm_mon t) of
        None \<Rightarrow> None
      | Some start \<Rightarrow>
          let t = t \<lparr> tm_yday := (tm_mday t - 1) + start \<rparr>;
              t = (if tm_mon t \<ge> 2 \<and> is_leap_year (tm_year t) then t \<lparr> tm_yday := tm_yday t + 1 \<rparr> else t)
          in case day_of_week (tm_year t) (tm_mon t) (tm_mday t) of
               None \<Rightarrow> None
             | Some wday \<Rightarrow>
                 let t = t \<lparr> tm_wday := wday \<rparr>;
                     days_since_epoch = tm_yday t + 365 * tm_year t - 25567 + leap_years_to_end (tm_year t - 1);
                     seconds_since_day = (tm_hour t * 60 + tm_min t) * 60 + tm_sec t
                 in Some (t, days_since_epoch * 86400 + seconds_since_day))"

section \<open>The calendar\<close>

definition leap :: "nat \<Rightarrow> bool" where
  "leap y \<longleftrightarrow> 4 dvd y \<and> (\<not> 100 dvd y \<or> 400 dvd y)"

primrec days_before :: "nat \<Rightarrow> nat" where
  "days_before 0 = 0"
| "days_before (Suc n) = days_before n + (if leap (1900 + n) then 366 else 365)"

definition month_lengths :: "nat \<Rightarrow> nat list" where
  "month_lengths y = [31, if leap y then 29 else 28, 31, 30, 31, 30, 31, 31, 30, 31, 30, 31]"

definition day_number :: "nat \<Rightarrow> nat \<Rightarrow> int \<Rightarrow> int" where
  "day_number n mon mday = int (days_before n) - int (days_before 70) + int (sum_list (take mon (month_lengths (1900 + n)))) + mday - 1"

lemma dvd_400: "400 dvd 1900 + n \<longleftrightarrow> n mod 400 = 100" for n :: nat
proof -
  have "(n + 1900) mod 400 = (n mod 400 + 1900 mod 400) mod 400" by (simp only: mod_add_eq)
  also have "\<dots> = (n mod 400 + 300) mod 400" by simp
  also have "\<dots> = (if n mod 400 < 100 then n mod 400 + 300 else n mod 400 - 100)"
    using mod_less_divisor [of 400 n] by (auto simp: mod_if [of "n mod 400 + 300"])
  finally show ?thesis by (auto simp: dvd_eq_mod_eq_0 add.commute split: if_splits)
qed

lemma leap_iff: "leap (1900 + n) \<longleftrightarrow> n mod 4 = 0 \<and> (n mod 100 \<noteq> 0 \<or> n mod 400 = 100)"
proof -
  have "4 dvd 4 * 475 + n \<longleftrightarrow> 4 dvd n" "100 dvd 100 * 19 + n \<longleftrightarrow> 100 dvd n" by (rule dvd_add_right_iff, simp)+
  then show ?thesis unfolding leap_def dvd_400 by (simp add: dvd_eq_mod_eq_0)
qed

lemma mod_multiple: "n mod 100 = 0 \<Longrightarrow> n mod 4 = 0" "n mod 400 = 100 \<Longrightarrow> n mod 100 = 0" for n :: nat
proof -
  show "n mod 100 = 0 \<Longrightarrow> n mod 4 = 0" by (auto simp: mod_eq_0_iff_dvd intro: dvd_trans [of 4 100])
  assume "n mod 400 = 100"
  then have "n mod 400 mod 100 = 0" by simp
  then show "n mod 100 = 0" by (simp add: mod_mod_cancel)
qed

lemma is_leap_year_leap: "is_leap_year (int n) = leap (1900 + n)"
proof -
  have "int n smod k = int n mod k" if "0 \<le> k" for k
    using that by (simp add: signed_modulo_int_def signed_divide_int_def sgn_if minus_div_mult_eq_mod abs_if)
  moreover have "(int n mod 4 = 0) = (n mod 4 = 0)" "(int n mod 100 = 0) = (n mod 100 = 0)" "(int n mod 400 = 100) = (n mod 400 = 100)"
    using zmod_int [of n 4] zmod_int [of n 100] zmod_int [of n 400] by auto
  ultimately show ?thesis unfolding is_leap_year_def leap_iff Let_def using mod_multiple by auto
qed

lemma leap_years_step: "leap_years_to_end (int n) = leap_years_to_end (int n - 1) + of_bool (leap (1900 + n))"
proof (cases n)
  case 0
  then show ?thesis by (simp add: leap_years_to_end_def leap_def signed_divide_int_def)
next
  case (Suc m)
  have d: "leap_years_to_end (int k) = int (k div 4) - int (k div 100) + int ((k + 300) div 400)" for k
    by (simp add: leap_years_to_end_def signed_divide_int_def sgn_if zdiv_int)
  have "Suc (m + 300) mod 400 = 0 \<longleftrightarrow> Suc m mod 400 = 100"
    using dvd_400 [of "Suc m"] dvd_add_right_iff [of 400 1600 "Suc (m + 300)"] by (simp add: dvd_eq_mod_eq_0)
  then have "leap_years_to_end (int (Suc m)) = leap_years_to_end (int m) + of_bool (leap (1900 + Suc m))"
    unfolding d leap_iff using mod_multiple [of "Suc m"] div_Suc [of "m + 300" 400] by (auto simp add: div_Suc)
  with Suc show ?thesis by simp
qed

lemma leap_years_nonneg: "0 \<le> leap_years_to_end (int n - of_bool b)"
proof (induction n)
  case 0
  show ?case by (cases b) (simp_all add: leap_years_to_end_def signed_divide_int_def)
next
  case (Suc n)
  show ?case
  proof (cases b)
    case True
    have "0 \<le> leap_years_to_end (int n)"
      using Suc True leap_years_step [of n] by simp
    then show ?thesis using True by simp
  next
    case False
    then show ?thesis using Suc leap_years_step [of "Suc n"] by simp
  qed
qed

lemma days_before_eq: "int (days_before n) = 365 * int n + leap_years_to_end (int n - 1)"
proof (induction n)
  case (Suc n)
  with leap_years_step [of n] show ?case by simp
qed (simp add: leap_years_to_end_def signed_divide_int_def)

lemma epoch: "int (days_before 70) = 25567"
  unfolding days_before_eq by (simp add: leap_years_to_end_def signed_divide_int_def)

text \<open>
  The conversion is right from 1900 on: the seconds are those of the day counted
  on the calendar, and the day of the week follows the Thursday of the Epoch.
\<close>

lemma month_start:
  fixes mon y :: nat
  assumes "mon < 12"
  defines "start \<equiv> int (sum_list (take mon (month_lengths y))) - of_bool (2 \<le> mon \<and> leap y)"
  shows "table_entry days_to_month_start (int mon) = Some start"
    and "\<exists>off. table_entry week_offset (int mon) = Some off \<and> (of_bool (mon < 2) \<le> off) \<and> (off - start - of_bool (mon < 2)) mod 7 = 0"
proof -
  have "mon = 0 \<or> mon = 1 \<or> mon = 2 \<or> mon = 3 \<or> mon = 4 \<or> mon = 5 \<or> mon = 6 \<or> mon = 7 \<or> mon = 8 \<or> mon = 9 \<or> mon = 10 \<or> mon = 11"
    using assms(1) by arith
  note c = this
  note defs = start_def table_entry_def days_to_month_start_def week_offset_def month_lengths_def
  show "table_entry days_to_month_start (int mon) = Some start"
    using c by (elim disjE; simp add: defs)
  show "\<exists>off. table_entry week_offset (int mon) = Some off \<and> (of_bool (mon < 2) \<le> off) \<and> (off - start - of_bool (mon < 2)) mod 7 = 0"
    using c by (cases "leap y"; elim disjE; simp add: defs)
qed

lemma mktime_calendar:
  assumes "tm_year t = int n" "tm_mon t = int mon" "mon < 12" "1 \<le> tm_mday t"
  shows "\<exists>t'. mktime t = Some (t', 86400 * day_number n mon (tm_mday t) + 3600 * tm_hour t + 60 * tm_min t + tm_sec t)
    \<and> tm_wday t' = (4 + day_number n mon (tm_mday t)) mod 7"
proof -
  define start where "start = int (sum_list (take mon (month_lengths (1900 + n)))) - of_bool (2 \<le> mon \<and> leap (1900 + n))"
  note m = month_start [OF assms(3), of "1900 + n", folded start_def]
  obtain off where off: "table_entry week_offset (int mon) = Some off" "of_bool (mon < 2) \<le> off"
    "(off - start - of_bool (mon < 2)) mod 7 = 0" using m(2) by (elim exE conjE)
  define pseudo where "pseudo = int n - of_bool (mon < 2)"
  define sum where "sum = pseudo + leap_years_to_end pseudo + off + tm_mday t"
  have d: "day_number n mon (tm_mday t)
      = 365 * int n + leap_years_to_end (int n - 1) - 25567 + (start + of_bool (2 \<le> mon \<and> leap (1900 + n))) + tm_mday t - 1"
    unfolding day_number_def days_before_eq [of n] epoch by (simp add: start_def)
  have "leap_years_to_end pseudo = leap_years_to_end (int n - 1) + of_bool (2 \<le> mon \<and> leap (1900 + n))"
    using leap_years_step [of n] by (auto simp: pseudo_def)
  then have e: "sum - (4 + day_number n mon (tm_mday t)) = (off - start - of_bool (mon < 2)) - 7 * (52 * int n - 3652)"
    by (simp add: d sum_def pseudo_def)
  have "7 dvd off - start - of_bool (mon < 2)" using off(3) by (simp only: dvd_eq_mod_eq_0)
  then have "7 dvd sum - (4 + day_number n mon (tm_mday t))" unfolding e by (rule dvd_diff) (rule dvd_triv_left)
  then have w: "sum mod 7 = (4 + day_number n mon (tm_mday t)) mod 7" by (simp only: mod_eq_dvd_iff)
  have "0 \<le> leap_years_to_end pseudo" unfolding pseudo_def by (rule leap_years_nonneg)
  then have "0 \<le> sum" using off(2) assms(4) by (simp add: sum_def pseudo_def)
  then have "sum smod 7 = sum mod 7"
    by (simp add: signed_modulo_int_def signed_divide_int_def sgn_if minus_div_mult_eq_mod)
  then have dow: "day_of_week (int n) (int mon) (tm_mday t) = Some ((4 + day_number n mon (tm_mday t)) mod 7)"
    using off(1) w by (auto simp: day_of_week_def sum_def pseudo_def)
  show ?thesis
    using assms(1,2) m(1) dow by (auto simp: mktime_def Let_def is_leap_year_leap d algebra_simps)
qed

end
