(* ===== verification/Asn1.thy ===== *)
theory Asn1
  imports Bigint Time "HOL-Library.Monad_Syntax"
begin

text \<open>
  ASN.1 objects (\<open>crypto/asn1.c\<close>, \<open>include/ipxe/asn1.h\<close>): cursors over encoded
  data and the builder of encoded data.  A cursor is an offset and a length in
  a buffer; reading a byte that is not in the buffer gives \<open>None\<close>, so a
  function that returns \<open>Some\<close> has read inside the buffer only.  The error
  \<open>ENEGATIVE\<close> stands for the negative number that a length of two gigabytes or
  more becomes when it is returned as an \<open>int\<close>.
\<close>

section \<open>Cursors\<close>

record asn1_cursor =
  ac_data :: nat
  ac_len :: nat

definition ASN1_END :: u32 where "ASN1_END = 0x00"

definition ASN1_BOOLEAN :: u32 where "ASN1_BOOLEAN = 0x01"

definition ASN1_INTEGER :: u32 where "ASN1_INTEGER = 0x02"

definition ASN1_BIT_STRING :: u32 where "ASN1_BIT_STRING = 0x03"

definition ASN1_OID :: u32 where "ASN1_OID = 0x06"

definition ASN1_UTC_TIME :: u32 where "ASN1_UTC_TIME = 0x17"

definition ASN1_GENERALIZED_TIME :: u32 where "ASN1_GENERALIZED_TIME = 0x18"

definition ASN1_SEQUENCE :: u32 where "ASN1_SEQUENCE = 0x30"

definition ASN1_ANY :: u32 where "ASN1_ANY = - 1"

definition rd :: "u8 list \<Rightarrow> nat \<Rightarrow> u8 option" where
  "rd mem i = (if i < length mem then Some (mem ! i) else None)"

definition rd_bytes :: "u8 list \<Rightarrow> nat \<Rightarrow> nat \<Rightarrow> u8 list option" where
  "rd_bytes mem i n = (if i + n \<le> length mem then Some (take n (drop i mem)) else None)"

definition advance :: "nat \<Rightarrow> asn1_cursor \<Rightarrow> asn1_cursor" where
  "advance n c = c \<lparr> ac_data := ac_data c + n, ac_len := ac_len c - n \<rparr>"

definition asn1_invalidate_cursor :: "asn1_cursor \<Rightarrow> asn1_cursor" where
  "asn1_invalidate_cursor c = c \<lparr> ac_len := 0 \<rparr>"

definition asn1_type :: "u8 list \<Rightarrow> asn1_cursor \<Rightarrow> u32 option" where
  "asn1_type mem c = (if ac_len c \<ge> 1 then map_option ucast (rd mem (ac_data c)) else Some ASN1_END)"

fun len_loop :: "u8 list \<Rightarrow> nat \<Rightarrow> u32 \<Rightarrow> asn1_cursor \<Rightarrow> (asn1_cursor \<times> u32) option" where
  "len_loop mem 0 len c = Some (c, len)"
| "len_loop mem (Suc len_len) len c = do {
     b \<leftarrow> rd mem (ac_data c);
     len_loop mem len_len (push_bit 8 len OR ucast b) (advance 1 c)
   }"

definition asn1_start :: "u8 list \<Rightarrow> asn1_cursor \<Rightarrow> u32 \<Rightarrow> nat \<Rightarrow> (asn1_cursor \<times> nat result) option" where
  "asn1_start mem c type extra =
     (if ac_len c < 2 then Some (c, Inl EINVAL_ASN1_EMPTY)
      else do {
        matches \<leftarrow> (if type \<noteq> ASN1_ANY then map_option (\<lambda>t. type = t) (asn1_type mem c) else Some True);
        if \<not> matches then Some (c, Inl ENXIO)
        else do {
          let c = advance 1 c;
          b \<leftarrow> rd mem (ac_data c);
          let (len_len, c) = (if b AND 0x80 \<noteq> 0 then (unat (b AND 0x7f), advance 1 c) else (1, c));
          if ac_len c < len_len then Some (c, Inl EINVAL_ASN1_LEN_LEN)
          else do {
            (c, len) \<leftarrow> len_loop mem len_len 0 c;
            if ac_len c + extra < unat len then Some (c, Inl EINVAL_ASN1_LEN)
            else if sint len < 0 then Some (c, Inl ENEGATIVE)
            else Some (c, Inr (unat len))
          }
        }
      })"

definition asn1_enter :: "u8 list \<Rightarrow> asn1_cursor \<Rightarrow> u32 \<Rightarrow> (asn1_cursor \<times> unit result) option" where
  "asn1_enter mem c type = do {
     (c, len) \<leftarrow> asn1_start mem c type 0;
     case len of
       Inl rc \<Rightarrow> Some (asn1_invalidate_cursor c, Inl rc)
     | Inr len \<Rightarrow> Some (c \<lparr> ac_len := len \<rparr>, Inr ())
   }"

definition asn1_skip_if_exists :: "u8 list \<Rightarrow> asn1_cursor \<Rightarrow> u32 \<Rightarrow> (asn1_cursor \<times> unit result) option" where
  "asn1_skip_if_exists mem c type = do {
     (c, len) \<leftarrow> asn1_start mem c type 0;
     case len of
       Inl rc \<Rightarrow> Some (c, Inl rc)
     | Inr len \<Rightarrow> let c = advance len c in Some (c, if ac_len c = 0 then Inl ENOENT else Inr ())
   }"

definition asn1_skip :: "u8 list \<Rightarrow> asn1_cursor \<Rightarrow> u32 \<Rightarrow> (asn1_cursor \<times> unit result) option" where
  "asn1_skip mem c type = do {
     (c, rc) \<leftarrow> asn1_skip_if_exists mem c type;
     case rc of
       Inl rc \<Rightarrow> Some (asn1_invalidate_cursor c, Inl rc)
     | Inr _ \<Rightarrow> Some (c, Inr ())
   }"

definition asn1_shrink :: "u8 list \<Rightarrow> asn1_cursor \<Rightarrow> u32 \<Rightarrow> (asn1_cursor \<times> unit result) option" where
  "asn1_shrink mem c type = do {
     (temp, len) \<leftarrow> asn1_start mem c type 0;
     case len of
       Inl rc \<Rightarrow> Some (asn1_invalidate_cursor c, Inl rc)
     | Inr len \<Rightarrow> let stop = ac_data temp + len in Some (c \<lparr> ac_len := stop - ac_data c \<rparr>, Inr ())
   }"

definition asn1_enter_any :: "u8 list \<Rightarrow> asn1_cursor \<Rightarrow> (asn1_cursor \<times> unit result) option" where
  "asn1_enter_any mem c = asn1_enter mem c ASN1_ANY"

definition asn1_skip_any :: "u8 list \<Rightarrow> asn1_cursor \<Rightarrow> (asn1_cursor \<times> unit result) option" where
  "asn1_skip_any mem c = asn1_skip mem c ASN1_ANY"

definition asn1_shrink_any :: "u8 list \<Rightarrow> asn1_cursor \<Rightarrow> (asn1_cursor \<times> unit result) option" where
  "asn1_shrink_any mem c = asn1_shrink mem c ASN1_ANY"


section \<open>Values\<close>

definition asn1_boolean :: "u8 list \<Rightarrow> asn1_cursor \<Rightarrow> u8 result option" where
  "asn1_boolean mem c = do {
     (contents, _) \<leftarrow> asn1_enter mem c ASN1_BOOLEAN;
     if ac_len contents \<noteq> 1 then Some (Inl EINVAL_ASN1_BOOLEAN)
     else map_option Inr (rd mem (ac_data contents))
   }"

fun integer_loop :: "u8 list \<Rightarrow> nat \<Rightarrow> asn1_cursor \<Rightarrow> u32 \<Rightarrow> u32 result option" where
  "integer_loop mem 0 contents value = Some (Inr value)"
| "integer_loop mem (Suc n) contents value =
     (let high_byte = ucast (drop_bit 24 value) :: u8
      in if high_byte \<noteq> 0x00 \<and> high_byte \<noteq> 0xff then Some (Inl EINVAL_ASN1_INTEGER)
         else do {
           b \<leftarrow> rd mem (ac_data contents);
           integer_loop mem n (advance 1 contents) (push_bit 8 value OR ucast b)
         })"

text \<open>The value is the 32-bit pattern of a C \<open>int\<close>.\<close>

definition asn1_integer :: "u8 list \<Rightarrow> asn1_cursor \<Rightarrow> u32 result option" where
  "asn1_integer mem c = do {
     (contents, rc) \<leftarrow> asn1_enter mem c ASN1_INTEGER;
     case rc of
       Inl rc \<Rightarrow> Some (Inl rc)
     | Inr _ \<Rightarrow>
         if ac_len contents < 1 then Some (Inl EINVAL_ASN1_INTEGER)
         else do {
           b \<leftarrow> rd mem (ac_data contents);
           let contents = advance 1 contents;
           integer_loop mem (ac_len contents) contents (scast b)
         }
   }"

record asn1_bit_string =
  bits_data :: nat
  bits_len :: nat
  bits_unused :: nat

definition asn1_bit_string :: "u8 list \<Rightarrow> asn1_cursor \<Rightarrow> asn1_bit_string result option" where
  "asn1_bit_string mem c = do {
     (contents, rc) \<leftarrow> asn1_enter mem c ASN1_BIT_STRING;
     case rc of
       Inl rc \<Rightarrow> Some (Inl rc)
     | Inr _ \<Rightarrow>
         if ac_len contents < 1 then Some (Inl EINVAL_BIT_STRING)
         else do {
           let len = ac_len contents - 1;
           b \<leftarrow> rd mem (ac_data contents);
           let unused = unat b;
           let unused_mask = (drop_bit (8 - unused) 0xff :: u8);
           let last_byte = ac_data contents + len;
           if unused \<ge> 8 \<or> (unused > 0 \<and> len = 0) then Some (Inl EINVAL_BIT_STRING)
           else do {
             l \<leftarrow> rd mem last_byte;
             if l AND unused_mask \<noteq> 0 then Some (Inl EINVAL_BIT_STRING)
             else Some (Inr \<lparr> bits_data = ac_data contents + 1, bits_len = len, bits_unused = unused \<rparr>)
           }
         }
   }"

definition asn1_integral_bit_string :: "u8 list \<Rightarrow> asn1_cursor \<Rightarrow> asn1_bit_string result option" where
  "asn1_integral_bit_string mem c = do {
     rc \<leftarrow> asn1_bit_string mem c;
     case rc of
       Inl rc \<Rightarrow> Some (Inl rc)
     | Inr bits \<Rightarrow> Some (if bits_unused bits \<noteq> 0 then Inl EINVAL_BIT_STRING else Inr bits)
   }"

fun memcmp :: "u8 list \<Rightarrow> u8 list \<Rightarrow> int" where
  "memcmp (x # xs) (y # ys) = (if x \<noteq> y then uint x - uint y else memcmp xs ys)"
| "memcmp _ _ = 0"

definition asn1_compare :: "u8 list \<Rightarrow> asn1_cursor \<Rightarrow> u8 list \<Rightarrow> asn1_cursor \<Rightarrow> int option" where
  "asn1_compare mem1 c1 mem2 c2 =
     (let difference = sint (word_of_int (int (ac_len c2) - int (ac_len c1)) :: u32)
      in if difference \<noteq> 0 then Some difference
         else do {
           xs \<leftarrow> rd_bytes mem1 (ac_data c1) (ac_len c1);
           ys \<leftarrow> rd_bytes mem2 (ac_data c2) (ac_len c1);
           Some (memcmp xs ys)
         })"

section \<open>Algorithms\<close>

record ('p, 'd) asn1_oid_algorithm =
  alg_name :: string
  alg_oid :: "u8 list"
  alg_pubkey :: "'p option"
  alg_digest :: "'d option"

fun asn1_find_algorithm ::
    "('p, 'd) asn1_oid_algorithm list \<Rightarrow> u8 list \<Rightarrow> asn1_cursor \<Rightarrow> ('p, 'd) asn1_oid_algorithm option option" where
  "asn1_find_algorithm [] mem c = Some None"
| "asn1_find_algorithm (algorithm # table) mem c = do {
     difference \<leftarrow> asn1_compare (alg_oid algorithm) \<lparr> ac_data = 0, ac_len = length (alg_oid algorithm) \<rparr> mem c;
     if difference = 0 then Some (Some algorithm) else asn1_find_algorithm table mem c
   }"

definition asn1_algorithm ::
    "('p, 'd) asn1_oid_algorithm list \<Rightarrow> u8 list \<Rightarrow> asn1_cursor \<Rightarrow> ('p, 'd) asn1_oid_algorithm result option" where
  "asn1_algorithm table mem c = do {
     (contents, _) \<leftarrow> asn1_enter mem c ASN1_SEQUENCE;
     (contents, rc) \<leftarrow> asn1_enter mem contents ASN1_OID;
     case rc of
       Inl _ \<Rightarrow> Some (Inl EINVAL_ASN1_ALGORITHM)
     | Inr _ \<Rightarrow> do {
         found \<leftarrow> asn1_find_algorithm table mem contents;
         case found of
           None \<Rightarrow> Some (Inl ENOTSUP_ALGORITHM)
         | Some algorithm \<Rightarrow> Some (Inr algorithm)
       }
   }"

definition asn1_pubkey_algorithm ::
    "('p, 'd) asn1_oid_algorithm list \<Rightarrow> u8 list \<Rightarrow> asn1_cursor \<Rightarrow> ('p, 'd) asn1_oid_algorithm result option" where
  "asn1_pubkey_algorithm table mem c = do {
     rc \<leftarrow> asn1_algorithm table mem c;
     case rc of
       Inl rc \<Rightarrow> Some (Inl rc)
     | Inr algorithm \<Rightarrow> Some (if alg_pubkey algorithm = None then Inl ENOTTY_ALGORITHM else Inr algorithm)
   }"

definition asn1_digest_algorithm ::
    "('p, 'd) asn1_oid_algorithm list \<Rightarrow> u8 list \<Rightarrow> asn1_cursor \<Rightarrow> ('p, 'd) asn1_oid_algorithm result option" where
  "asn1_digest_algorithm table mem c = do {
     rc \<leftarrow> asn1_algorithm table mem c;
     case rc of
       Inl rc \<Rightarrow> Some (Inl rc)
     | Inr algorithm \<Rightarrow> Some (if alg_digest algorithm = None then Inl ENOTTY_ALGORITHM else Inr algorithm)
   }"

definition asn1_signature_algorithm ::
    "('p, 'd) asn1_oid_algorithm list \<Rightarrow> u8 list \<Rightarrow> asn1_cursor \<Rightarrow> ('p, 'd) asn1_oid_algorithm result option" where
  "asn1_signature_algorithm table mem c = do {
     rc \<leftarrow> asn1_algorithm table mem c;
     case rc of
       Inl rc \<Rightarrow> Some (Inl rc)
     | Inr algorithm \<Rightarrow>
         Some (if alg_pubkey algorithm = None then Inl ENOTTY_ALGORITHM
               else if alg_digest algorithm = None then Inl ENOTTY_ALGORITHM
               else Inr algorithm)
   }"

section \<open>Time\<close>

definition isdigit :: "u8 \<Rightarrow> bool" where
  "isdigit ch \<longleftrightarrow> 0x30 \<le> ch \<and> ch \<le> 0x39"

text \<open>
  The pairs of digits: century, year, month, day, hour, minute, second.  The
  loop runs over the remaining indices.
\<close>

fun time_loop :: "u8 list \<Rightarrow> nat list \<Rightarrow> nat \<Rightarrow> nat \<Rightarrow> u8 list \<Rightarrow> (nat \<times> nat \<times> u8 list) result option" where
  "time_loop mem [] data remaining raw = Some (Inr (data, remaining, raw))"
| "time_loop mem (i # is) data remaining raw =
     (if remaining < 2 then Some (if i = 7 - 1 then Inr (data, remaining, raw) else Inl EINVAL_ASN1_TIME)
      else do {
        tens \<leftarrow> rd mem data;
        units \<leftarrow> rd mem (data + 1);
        if \<not> (isdigit tens \<and> isdigit units) then Some (Inl EINVAL_ASN1_TIME)
        else time_loop mem is (data + 2) (remaining - 2) (raw[i := 10 * (tens - 0x30) + (units - 0x30)])
      })"

definition asn1_generalized_time :: "u8 list \<Rightarrow> asn1_cursor \<Rightarrow> int result option" where
  "asn1_generalized_time mem c = do {
     type \<leftarrow> asn1_type mem c;
     if type \<noteq> ASN1_UTC_TIME \<and> type \<noteq> ASN1_GENERALIZED_TIME then Some (Inl EINVAL_ASN1_TIME)
     else do {
       let have_century = (type = ASN1_GENERALIZED_TIME);
       (contents, rc) \<leftarrow> asn1_enter mem c type;
       case rc of
         Inl rc \<Rightarrow> Some (Inl rc)
       | Inr _ \<Rightarrow> do {
           rc \<leftarrow> time_loop mem [(if have_century then 0 else 1)..<7] (ac_data contents) (ac_len contents) (replicate 7 0);
           case rc of
             Inl rc \<Rightarrow> Some (Inl rc)
           | Inr (data, remaining, raw) \<Rightarrow> do {
               let raw = (if have_century then raw else raw[0 := if raw ! 1 \<ge> 50 then 19 else 20]);
               z \<leftarrow> (if remaining \<noteq> 1 then Some 0 else rd mem data);
               if remaining \<noteq> 1 \<or> z \<noteq> 0x5a then Some (Inl EINVAL_ASN1_TIME)
               else do {
                 let t = \<lparr> tm_sec = uint (raw ! 6), tm_min = uint (raw ! 5), tm_hour = uint (raw ! 4),
                           tm_mday = uint (raw ! 3), tm_mon = uint (raw ! 2) - 1,
                           tm_year = (uint (raw ! 0) - 19) * 100 + uint (raw ! 1),
                           tm_wday = 0, tm_yday = 0, tm_isdst = 0 \<rparr>;
                 (_, time) \<leftarrow> mktime t;
                 Some (Inr time)
               }
             }
         }
     }
   }"


section \<open>Builder\<close>

record asn1_builder =
  ab_data :: "u8 list option"
  ab_len :: nat

fun len_len_loop :: "nat \<Rightarrow> nat" where
  "len_len_loop temp = (if temp = 0 then 0 else Suc (len_len_loop (temp div 256)))"

declare len_len_loop.simps [simp del]

fun fill_loop :: "nat \<Rightarrow> nat \<Rightarrow> u8 list \<Rightarrow> u8 list" where
  "fill_loop temp k lengths = (if temp = 0 then lengths else fill_loop (temp div 256) (k - 1) (lengths[k := of_nat temp AND 0xff]))"

declare fill_loop.simps [simp del]

text \<open>
  The header that is copied: the type and the used part of the array of length
  bytes, all of which the loop has written.
\<close>

definition asn1_header :: "u32 \<Rightarrow> nat \<Rightarrow> u8 list" where
  "asn1_header type len =
     (let lengths = replicate 9 0
      in if len < 0x80 then [ucast type, of_nat len]
         else let len_len = len_len_loop len;
                  header_len = 2 + len_len;
                  lengths = lengths[0 := 0x80 OR of_nat len_len];
                  lengths = fill_loop len len_len lengths
              in take header_len (ucast type # lengths))"

text \<open>
  The parameter is \<open>realloc()\<close>: given the old contents and the new length, the
  new block or \<open>NULL\<close>.
\<close>

type_synonym reallocator = "u8 list option \<Rightarrow> nat \<Rightarrow> u8 list option"

definition asn1_grow :: "reallocator \<Rightarrow> asn1_builder \<Rightarrow> nat \<Rightarrow> asn1_builder \<times> unit result" where
  "asn1_grow reallocate builder ext =
     (if ab_len builder \<noteq> 0 \<and> ab_data builder = None then (builder, Inl ENOMEM)
      else let new_len = ab_len builder + ext
           in case reallocate (ab_data builder) new_len of
                None \<Rightarrow> (builder \<lparr> ab_data := None \<rparr>, Inl ENOMEM)
              | Some new \<Rightarrow>
                  (builder \<lparr> ab_data := Some (take ext new @ take (ab_len builder) new @ drop (ext + ab_len builder) new),
                             ab_len := new_len \<rparr>, Inr ()))"

definition overwrite :: "nat \<Rightarrow> u8 list \<Rightarrow> asn1_builder \<Rightarrow> asn1_builder" where
  "overwrite i bs builder =
     builder \<lparr> ab_data := map_option (\<lambda>d. take i d @ bs @ drop (i + length bs) d) (ab_data builder) \<rparr>"

definition asn1_prepend_raw :: "reallocator \<Rightarrow> asn1_builder \<Rightarrow> u8 list \<Rightarrow> asn1_builder \<times> unit result" where
  "asn1_prepend_raw reallocate builder data =
     (case asn1_grow reallocate builder (length data) of
        (builder, Inl rc) \<Rightarrow> (builder, Inl rc)
      | (builder, Inr _) \<Rightarrow> (overwrite 0 data builder, Inr ()))"

definition asn1_prepend :: "reallocator \<Rightarrow> asn1_builder \<Rightarrow> u32 \<Rightarrow> u8 list \<Rightarrow> asn1_builder \<times> unit result" where
  "asn1_prepend reallocate builder type data =
     (let header = asn1_header type (length data)
      in case asn1_grow reallocate builder (length header + length data) of
           (builder, Inl rc) \<Rightarrow> (builder, Inl rc)
         | (builder, Inr _) \<Rightarrow> (overwrite (length header) data (overwrite 0 header builder), Inr ()))"

definition asn1_wrap :: "reallocator \<Rightarrow> asn1_builder \<Rightarrow> u32 \<Rightarrow> asn1_builder \<times> unit result" where
  "asn1_wrap reallocate builder type =
     (let header = asn1_header type (ab_len builder)
      in case asn1_grow reallocate builder (length header) of
           (builder, Inl rc) \<Rightarrow> (builder, Inl rc)
         | (builder, Inr _) \<Rightarrow> (overwrite 0 header builder, Inr ()))"

section \<open>Cursors stay inside their object\<close>

definition cursor_ok :: "u8 list \<Rightarrow> asn1_cursor \<Rightarrow> bool" where
  "cursor_ok mem c \<longleftrightarrow> ac_data c + ac_len c \<le> length mem"

definition within :: "asn1_cursor \<Rightarrow> asn1_cursor \<Rightarrow> bool" where
  "within c' c \<longleftrightarrow> ac_data c \<le> ac_data c' \<and> ac_data c' + ac_len c' \<le> ac_data c + ac_len c"

lemma within_trans: "within c'' c' \<Longrightarrow> within c' c \<Longrightarrow> within c'' c"
  by (simp add: within_def)

lemma within_ok: "within c' c \<Longrightarrow> cursor_ok mem c \<Longrightarrow> cursor_ok mem c'"
  by (simp add: within_def cursor_ok_def)

lemma rd_ok: "cursor_ok mem c \<Longrightarrow> i < ac_data c + ac_len c \<Longrightarrow> rd mem i = Some (mem ! i)"
  by (simp add: cursor_ok_def rd_def)

lemma advance_fields [simp]: "ac_data (advance n c) = ac_data c + n" "ac_len (advance n c) = ac_len c - n"
  by (simp_all add: advance_def)

fun be_fold :: "u32 \<Rightarrow> u8 list \<Rightarrow> u32" where
  "be_fold len [] = len"
| "be_fold len (b # bs) = be_fold (push_bit 8 len OR ucast b) bs"

lemma len_loop_eq:
  "cursor_ok mem c \<Longrightarrow> n \<le> ac_len c \<Longrightarrow>
    len_loop mem n len c = Some (advance n c, be_fold len (take n (drop (ac_data c) mem)))"
proof (induction n arbitrary: len c)
  case (Suc n)
  have ok: "cursor_ok mem (advance 1 c)" using Suc.prems by (simp add: cursor_ok_def)
  have "ac_data c < length mem" using Suc.prems by (simp add: cursor_ok_def)
  then have "take (Suc n) (drop (ac_data c) mem) = mem ! ac_data c # take n (drop (ac_data c + 1) mem)"
    by (simp add: Cons_nth_drop_Suc [symmetric])
  with Suc.IH [OF ok] Suc.prems \<open>ac_data c < length mem\<close> show ?case by (simp add: rd_def advance_def)
qed (simp add: advance_def)

lemma asn1_start_within:
  assumes "cursor_ok mem c"
  obtains c' r where "asn1_start mem c type extra = Some (c', r)" "within c' c"
    "\<And>n. r = Inr n \<Longrightarrow> n \<le> ac_len c' + extra \<and> ac_data c + 2 \<le> ac_data c'"
proof (cases "ac_len c < 2")
  case True
  then show ?thesis using that [of c "Inl EINVAL_ASN1_EMPTY"] by (simp add: asn1_start_def within_def)
next
  case False
  obtain m where m: "(if type \<noteq> ASN1_ANY then map_option (\<lambda>t. type = t) (asn1_type mem c) else Some True) = Some m"
    using False rd_ok [OF assms, of "ac_data c"] by (cases "type = ASN1_ANY") (auto simp: asn1_type_def)
  define c1 where "c1 = advance 1 c"
  obtain b where b: "rd mem (ac_data c1) = Some b" using False rd_ok [OF assms, of "ac_data c + 1"] by (auto simp: c1_def)
  define c2 where "c2 = (if b AND 0x80 \<noteq> 0 then advance 1 c1 else c1)"
  define n where "n = (if b AND 0x80 \<noteq> 0 then unat (b AND 0x7f) else 1)"
  have c2: "within c2 c" "ac_data c < ac_data c2" "b AND 0x80 \<noteq> 0 \<Longrightarrow> ac_data c + 2 \<le> ac_data c2"
    using False by (auto simp: c2_def c1_def within_def)
  note e = asn1_start_def [of mem c type extra, folded c1_def]
  show ?thesis
  proof (cases "\<not> m \<or> ac_len c2 < n")
    case True
    then show ?thesis
      using that [of c "Inl ENXIO"] that [of c2 "Inl EINVAL_ASN1_LEN_LEN"] False b c2 unfolding e m
      by (cases "b AND 0x80 = 0"; cases m) (auto simp: Let_def c2_def n_def within_def)
  next
    case ok: False
    define len where "len = be_fold 0 (take n (drop (ac_data c2) mem))"
    have l: "len_loop mem n 0 c2 = Some (advance n c2, len)"
      using len_loop_eq [of mem c2 n 0] within_ok [OF c2(1) assms] ok by (simp add: len_def)
    define r where "r = (if ac_len (advance n c2) + extra < unat len then Inl EINVAL_ASN1_LEN
      else if sint len < 0 then Inl ENEGATIVE else Inr (unat len))"
    have "asn1_start mem c type extra = Some (advance n c2, r)"
      using False b ok l unfolding e m by (cases "b AND 0x80 = 0") (simp_all add: Let_def c2_def n_def r_def)
    moreover have "within (advance n c2) c" using c2(1) ok by (simp add: within_def)
    moreover have "ac_data c + 2 \<le> ac_data (advance n c2)"
      using c2(2,3) by (cases "b AND 0x80 = 0") (simp_all add: n_def)
    ultimately show ?thesis using that [of "advance n c2" r] by (auto simp: r_def split: if_splits)
  qed
qed


lemma asn1_enter_within:
  assumes "cursor_ok mem c"
  obtains c' rc where "asn1_enter mem c type = Some (c', rc)" "within c' c" "\<And>e. rc = Inl e \<Longrightarrow> ac_len c' = 0"
    "rc = Inr () \<Longrightarrow> ac_data c + 2 \<le> ac_data c'"
proof -
  obtain c1 r where s: "asn1_start mem c type 0 = Some (c1, r)" "within c1 c"
    "\<And>n. r = Inr n \<Longrightarrow> n \<le> ac_len c1 + 0 \<and> ac_data c + 2 \<le> ac_data c1"
    using asn1_start_within [OF assms, of type 0] by metis
  then show ?thesis
    by (cases r) (auto intro!: that simp: asn1_enter_def asn1_invalidate_cursor_def within_def)
qed

lemma asn1_skip_if_exists_within:
  assumes "cursor_ok mem c"
  obtains c' rc where "asn1_skip_if_exists mem c type = Some (c', rc)" "within c' c"
    "rc = Inr () \<Longrightarrow> ac_data c + 2 \<le> ac_data c' \<and> 0 < ac_len c'"
proof -
  obtain c1 r where s: "asn1_start mem c type 0 = Some (c1, r)" "within c1 c"
    "\<And>n. r = Inr n \<Longrightarrow> n \<le> ac_len c1 + 0 \<and> ac_data c + 2 \<le> ac_data c1"
    using asn1_start_within [OF assms, of type 0] by metis
  show ?thesis
  proof (cases r)
    case (Inl e)
    with s show ?thesis by (intro that [of c1 "Inl e"]) (simp_all add: asn1_skip_if_exists_def)
  next
    case (Inr n)
    with s show ?thesis
      by (intro that [of "advance n c1" "if ac_len (advance n c1) = 0 then Inl ENOENT else Inr ()"])
        (auto simp: asn1_skip_if_exists_def Let_def within_def split: if_splits)
  qed
qed

lemma asn1_skip_within:
  assumes "cursor_ok mem c"
  obtains c' rc where "asn1_skip mem c type = Some (c', rc)" "within c' c" "\<And>e. rc = Inl e \<Longrightarrow> ac_len c' = 0"
    "rc = Inr () \<Longrightarrow> ac_data c + 2 \<le> ac_data c' \<and> 0 < ac_len c'"
proof -
  obtain c1 r where s: "asn1_skip_if_exists mem c type = Some (c1, r)" "within c1 c"
    "r = Inr () \<Longrightarrow> ac_data c + 2 \<le> ac_data c1 \<and> 0 < ac_len c1"
    using asn1_skip_if_exists_within [OF assms, of type] by metis
  then show ?thesis
    by (cases r) (auto intro!: that simp: asn1_skip_def asn1_invalidate_cursor_def within_def)
qed

lemma asn1_shrink_within:
  assumes "cursor_ok mem c"
  obtains c' rc where "asn1_shrink mem c type = Some (c', rc)" "within c' c" "\<And>e. rc = Inl e \<Longrightarrow> ac_len c' = 0"
proof -
  obtain c1 r where s: "asn1_start mem c type 0 = Some (c1, r)" "within c1 c"
    "\<And>n. r = Inr n \<Longrightarrow> n \<le> ac_len c1 + 0 \<and> ac_data c + 2 \<le> ac_data c1"
    using asn1_start_within [OF assms, of type 0] by metis
  show ?thesis
  proof (cases r)
    case (Inl e)
    with s show ?thesis by (intro that [of "asn1_invalidate_cursor c" "Inl e"]) (simp_all add: asn1_shrink_def asn1_invalidate_cursor_def within_def)
  next
    case (Inr n)
    with s show ?thesis
      by (intro that [of "c \<lparr> ac_len := ac_data c1 + n - ac_data c \<rparr>" "Inr ()"]) (auto simp: asn1_shrink_def Let_def within_def)
  qed
qed

lemma integer_loop_ok: "cursor_ok mem c \<Longrightarrow> ac_len c = n \<Longrightarrow> integer_loop mem n c v \<noteq> None"
proof (induction n arbitrary: c v)
  case (Suc n)
  have "cursor_ok mem (advance 1 c)" using Suc.prems by (simp add: cursor_ok_def)
  moreover have "rd mem (ac_data c) = Some (mem ! ac_data c)" using rd_ok Suc.prems by simp
  ultimately show ?case using Suc.IH [of "advance 1 c"] Suc.prems by (simp add: Let_def)
qed simp

lemma asn1_boolean_ok: "cursor_ok mem c \<Longrightarrow> asn1_boolean mem c \<noteq> None"
proof -
  assume ok: "cursor_ok mem c"
  obtain c' rc where e: "asn1_enter mem c ASN1_BOOLEAN = Some (c', rc)" "within c' c" by (rule asn1_enter_within [OF ok])
  with rd_ok [OF within_ok [OF e(2) ok], of "ac_data c'"] show ?thesis by (simp add: asn1_boolean_def)
qed

lemma asn1_integer_ok: "cursor_ok mem c \<Longrightarrow> asn1_integer mem c \<noteq> None"
proof -
  assume ok: "cursor_ok mem c"
  obtain c' rc where e: "asn1_enter mem c ASN1_INTEGER = Some (c', rc)" "within c' c" by (rule asn1_enter_within [OF ok])
  note ok' = within_ok [OF e(2) ok]
  show ?thesis
  proof (cases "(\<exists>x. rc = Inl x) \<or> ac_len c' < 1")
    case True
    with e show ?thesis by (cases rc) (auto simp: asn1_integer_def)
  next
    case False
    then have "cursor_ok mem (advance 1 c')" using ok' by (simp add: cursor_ok_def)
    with False e rd_ok [OF ok', of "ac_data c'"] integer_loop_ok show ?thesis
      by (cases rc) (auto simp: asn1_integer_def Let_def)
  qed
qed

lemma asn1_bit_string_ok:
  assumes "cursor_ok mem c"
  obtains rc where "asn1_bit_string mem c = Some rc"
    "\<And>bits. rc = Inr bits \<Longrightarrow> bits_unused bits < 8 \<and> within \<lparr> ac_data = bits_data bits, ac_len = bits_len bits \<rparr> c"
proof -
  obtain c' rc where e: "asn1_enter mem c ASN1_BIT_STRING = Some (c', rc)" "within c' c" by (rule asn1_enter_within [OF assms])
  note ok' = within_ok [OF e(2) assms]
  show ?thesis
  proof (cases "(\<exists>x. rc = Inl x) \<or> ac_len c' < 1")
    case True
    with e show ?thesis by (cases rc) (auto intro: that simp: asn1_bit_string_def)
  next
    case False
    then obtain b l where "rd mem (ac_data c') = Some b" "rd mem (ac_data c' + (ac_len c' - 1)) = Some l"
      using rd_ok [OF ok'] by simp
    with False e show ?thesis
      by (intro that [of "if unat b \<ge> 8 \<or> unat b > 0 \<and> ac_len c' - 1 = 0 \<or> l AND drop_bit (8 - unat b) 0xff \<noteq> 0 then Inl EINVAL_BIT_STRING
          else Inr \<lparr> bits_data = ac_data c' + 1, bits_len = ac_len c' - 1, bits_unused = unat b \<rparr>"]; cases rc)
        (auto simp: asn1_bit_string_def Let_def within_def split: if_splits)
  qed
qed

lemma asn1_find_algorithm_ok:
  "cursor_ok mem c \<Longrightarrow> \<forall>a \<in> set table. length (alg_oid a) < 2 ^ 32 \<Longrightarrow> asn1_find_algorithm table mem c \<noteq> None"
proof (induction table)
  case (Cons a table)
  have "length (alg_oid a) \<le> ac_len c" if "sint (word_of_int (int (ac_len c) - int (length (alg_oid a))) :: u32) = 0"
  proof -
    have "(word_of_int (int (ac_len c) - int (length (alg_oid a))) :: u32) = 0" using that by (simp only: signed_eq_0_iff)
    then have "(of_nat (ac_len c) :: u32) = of_nat (length (alg_oid a))" by simp
    then have "unat (of_nat (ac_len c) :: u32) = unat (of_nat (length (alg_oid a)) :: u32)" by simp
    then have "ac_len c mod 2 ^ 32 = length (alg_oid a) mod 2 ^ 32" by (simp add: unat_of_nat)
    then have "ac_len c mod 2 ^ 32 = length (alg_oid a)" using Cons.prems(2) by simp
    then show ?thesis by (metis mod_less_eq_dividend)
  qed
  with Cons.prems(1) have "asn1_compare (alg_oid a) \<lparr> ac_data = 0, ac_len = length (alg_oid a) \<rparr> mem c \<noteq> None"
    by (auto simp: asn1_compare_def Let_def rd_bytes_def cursor_ok_def)
  with Cons show ?case by (auto split: if_splits)
qed simp

lemma asn1_algorithm_ok:
  assumes "cursor_ok mem c" "\<forall>a \<in> set table. length (alg_oid a) < 2 ^ 32"
  shows "asn1_algorithm table mem c \<noteq> None"
proof -
  obtain c1 rc1 where e1: "asn1_enter mem c ASN1_SEQUENCE = Some (c1, rc1)" "within c1 c"
    by (rule asn1_enter_within [OF assms(1)])
  note ok1 = within_ok [OF e1(2) assms(1)]
  obtain c2 rc2 where e2: "asn1_enter mem c1 ASN1_OID = Some (c2, rc2)" "within c2 c1" by (rule asn1_enter_within [OF ok1])
  from asn1_find_algorithm_ok [OF within_ok [OF e2(2) ok1] assms(2)] e1 e2 show ?thesis
    by (cases rc2) (auto simp: asn1_algorithm_def split: option.splits)
qed


section \<open>The header that is built is read back\<close>

fun be_bytes :: "nat \<Rightarrow> u8 list" where
  "be_bytes n = (if n = 0 then [] else be_bytes (n div 256) @ [of_nat n])"

declare be_bytes.simps [simp del]

lemma length_be_bytes: "length (be_bytes n) = len_len_loop n"
proof (induction n rule: be_bytes.induct)
  case (1 n)
  then show ?case by (subst be_bytes.simps, subst len_len_loop.simps) simp
qed

lemma be_fold_snoc: "be_fold len (xs @ [b]) = push_bit 8 (be_fold len xs) OR ucast b"
  by (induction xs arbitrary: len) simp_all

lemma be_fold_bytes: "be_fold 0 (be_bytes n) = of_nat n"
proof (induction n rule: be_bytes.induct)
  case (1 n)
  have "push_bit 8 (of_nat (n div 256) :: u32) OR ucast (of_nat n :: u8) = of_nat n"
  proof (rule bit_word_eqI)
    fix i assume "i < LENGTH(32)"
    have "n div 256 = drop_bit 8 n" by (simp add: drop_bit_eq_div)
    then show "bit (push_bit 8 (of_nat (n div 256) :: u32) OR ucast (of_nat n :: u8)) i = bit (of_nat n :: u32) i"
      using \<open>i < LENGTH(32)\<close> by (cases "i < 8") (auto simp: bit_simps bit_of_nat_iff)
  qed
  with 1 show ?case by (subst be_bytes.simps) (auto simp: be_fold_snoc)
qed

lemma fill_loop_eq:
  "length (be_bytes n) \<le> k \<Longrightarrow> k < length lengths \<Longrightarrow>
    fill_loop n k lengths = take (k + 1 - length (be_bytes n)) lengths @ be_bytes n @ drop (k + 1) lengths"
proof (induction n arbitrary: k lengths rule: be_bytes.induct)
  case (1 n)
  show ?case
  proof (cases "n = 0")
    case True
    then show ?thesis by (subst fill_loop.simps, subst (1 2) be_bytes.simps) simp
  next
    case False
    have ff: "(0xff :: u8) = - 1" by simp
    define lengths' where "lengths' = lengths[k := of_nat n AND 0xff]"
    have l: "length (be_bytes n) = Suc (length (be_bytes (n div 256)))"
      using False by (subst be_bytes.simps) simp
    have "fill_loop n k lengths = fill_loop (n div 256) (k - 1) lengths'"
      using False by (subst fill_loop.simps) (simp add: lengths'_def)
    also have "\<dots> = take (k - 1 + 1 - length (be_bytes (n div 256))) lengths' @ be_bytes (n div 256) @ drop (k - 1 + 1) lengths'"
      using 1 False l by (intro 1(1)) (simp_all add: lengths'_def)
    also have "drop (k - 1 + 1) lengths' = (of_nat n AND 0xff) # drop (k + 1) lengths"
      using 1(2,3) l by (simp add: lengths'_def Cons_nth_drop_Suc [symmetric])
    also have "take (k - 1 + 1 - length (be_bytes (n div 256))) lengths' = take (k + 1 - length (be_bytes n)) lengths"
      using 1(2) l by (simp add: lengths'_def)
    also have "(of_nat n AND 0xff :: u8) = of_nat n" unfolding ff by simp
    also have "be_bytes n = be_bytes (n div 256) @ [of_nat n]" using False by (subst be_bytes.simps) simp
    ultimately show ?thesis using False by (subst (2) be_bytes.simps) simp
  qed
qed

lemma len_len_bound: "n < 256 ^ k \<Longrightarrow> len_len_loop n \<le> k"
proof (induction k arbitrary: n)
  case 0
  then show ?case by (subst len_len_loop.simps) simp
next
  case (Suc k)
  then have "n div 256 < 256 ^ k" by (simp add: div_less_iff_less_mult mult.commute)
  with Suc.IH show ?case by (subst len_len_loop.simps) simp
qed

lemma len_len_pos: "0 < n \<Longrightarrow> 0 < len_len_loop n"
  by (subst len_len_loop.simps) simp

lemma asn1_header_long:
  assumes "0x80 \<le> len" "len < 2 ^ 64"
  shows "asn1_header type len = ucast type # (0x80 OR of_nat (len_len_loop len)) # be_bytes len"
proof -
  have "len_len_loop len \<le> 8" using assms(2) by (intro len_len_bound) simp
  moreover have "replicate 9 (0 :: u8) = 0 # replicate 8 0" by (simp add: numeral_eq_Suc)
  ultimately show ?thesis
    using assms by (simp add: asn1_header_def Let_def fill_loop_eq length_be_bytes)
qed


definition is_tag :: "u32 \<Rightarrow> bool" where
  "is_tag type \<longleftrightarrow> type < 0x100"

lemma ucast_tag: "is_tag type \<Longrightarrow> ucast (ucast type :: u8) = type"
  by (simp add: is_tag_def word_unat_eq_iff unat_ucast_mod word_less_nat_alt)

lemma sint_small: "n < 2 ^ 31 \<Longrightarrow> \<not> sint (of_nat n :: u32) < 0"
proof -
  assume "n < 2 ^ 31"
  then have "sint (word_of_int (int n) :: u32) = int n"
    unfolding sint_sbintrunc' by (intro signed_take_bit_int_eq_self) simp_all
  then show ?thesis by simp
qed

lemma asn1_header_start:
  assumes "is_tag type" "len < 2 ^ 31" "len \<le> length rest"
  shows "asn1_start (asn1_header type len @ rest) \<lparr> ac_data = 0, ac_len = length (asn1_header type len @ rest) \<rparr> type 0
    = Some (\<lparr> ac_data = length (asn1_header type len), ac_len = length rest \<rparr>, Inr len)"
proof -
  have u: "unat (of_nat len :: u32) = len" using assms(2) by (simp add: unat_of_nat)
  show ?thesis
  proof (cases "len < 0x80")
    case True
    then have l: "len < 128" by simp
    have e: "(0x80 :: u8) = 2 ^ 7" by simp
    have "\<not> bit len 7" using l by (simp add: bit_iff_odd)
    then have "\<not> bit (of_nat len :: u8) 7" by (simp add: bit_of_nat_iff)
    then have "(of_nat len :: u8) AND 0x80 = 0" unfolding e by (rule and_exp_eq_0_iff_not_bit [THEN iffD2])
    moreover have "ucast (of_nat len :: u8) = (of_nat len :: u32)" using l by (simp add: word_unat_eq_iff unat_ucast_mod unat_of_nat)
    ultimately show ?thesis
      using True assms u sint_small [OF assms(2)]
      by (simp add: asn1_header_def asn1_start_def asn1_type_def rd_def advance_def ucast_tag Let_def)
  next
    case False
    define k where "k = len_len_loop len"
    have k: "0 < k" "k \<le> 4" using False assms(2) len_len_pos [of len] len_len_bound [of len 4] by (simp_all add: k_def)
    then have "k \<in> {1, 2, 3, 4}" by auto
    then have b: "(0x80 OR of_nat k :: u8) AND 0x80 \<noteq> 0" "unat ((0x80 OR of_nat k :: u8) AND 0x7f) = k" by auto
    have h: "asn1_header type len = ucast type # (0x80 OR of_nat k) # be_bytes len"
      using False assms(2) by (simp add: asn1_header_long k_def)
    define mem where "mem = ucast type # (0x80 OR of_nat k) # be_bytes len @ rest"
    have "len_loop mem k 0 \<lparr> ac_data = 2, ac_len = k + length rest \<rparr> = Some (\<lparr> ac_data = 2 + k, ac_len = length rest \<rparr>, of_nat len)"
      using len_loop_eq [of mem "\<lparr> ac_data = 2, ac_len = k + length rest \<rparr>" k 0]
      by (simp add: mem_def cursor_ok_def length_be_bytes k_def [symmetric] be_fold_bytes advance_def numeral_2_eq_2)
    moreover have m: "mem ! 0 = ucast type" "mem ! Suc 0 = 0x80 OR of_nat k" "length mem = k + length rest + 2"
      by (simp_all add: mem_def length_be_bytes k_def)
    ultimately have "asn1_start mem \<lparr> ac_data = 0, ac_len = length mem \<rparr> type 0 = Some (\<lparr> ac_data = 2 + k, ac_len = length rest \<rparr>, Inr len)"
      using b assms u sint_small [OF assms(2)] k
      by (simp add: asn1_start_def asn1_type_def rd_def advance_def ucast_tag Let_def numeral_2_eq_2)
    moreover have "asn1_header type len @ rest = mem" "length (asn1_header type len) = 2 + k"
      by (simp_all add: h mem_def length_be_bytes k_def)
    ultimately show ?thesis by simp
  qed
qed


definition realloc_ok :: "reallocator \<Rightarrow> bool" where
  "realloc_ok reallocate \<longleftrightarrow>
     (\<forall>d n r. reallocate d n = Some r \<longrightarrow> length r = n \<and> (\<forall>x. d = Some x \<longrightarrow> take (min (length x) n) r = take (min (length x) n) x))"

definition built :: "asn1_builder \<Rightarrow> u8 list \<Rightarrow> bool" where
  "built b bytes \<longleftrightarrow> ab_len b = length bytes \<and> (ab_data b = Some bytes \<or> ab_data b = None \<and> bytes = [])"

lemma asn1_grow_built:
  assumes "realloc_ok reallocate" "built b bytes" "asn1_grow reallocate b ext = (b', Inr ())"
  shows "\<exists>front. length front = ext \<and> ab_data b' = Some (front @ bytes) \<and> ab_len b' = ext + length bytes"
proof -
  obtain new where new: "reallocate (ab_data b) (ab_len b + ext) = Some new"
    "b' = b \<lparr> ab_data := Some (take ext new @ take (ab_len b) new @ drop (ext + ab_len b) new), ab_len := ab_len b + ext \<rparr>"
    using assms(3) by (auto simp: asn1_grow_def Let_def split: if_splits option.splits)
  have l: "length new = length bytes + ext" "ab_len b = length bytes" using assms new(1) by (auto simp: realloc_ok_def built_def)
  moreover have "take (length bytes) new = bytes"
  proof (cases "bytes = []")
    case False
    then have "ab_data b = Some bytes" using assms(2) by (auto simp: built_def)
    then have "take (min (length bytes) (length bytes + ext)) new = take (min (length bytes) (length bytes + ext)) bytes"
      using assms(1) new(1) l(2) unfolding realloc_ok_def by metis
    then show ?thesis by simp
  qed simp
  ultimately show ?thesis using new(2) by (intro exI [of _ "take ext new"]) simp
qed

lemma overwrite_front:
  "ab_data b = Some (front @ rest) \<Longrightarrow> length bs \<le> length front \<Longrightarrow> ab_data (overwrite 0 bs b) = Some (bs @ drop (length bs) front @ rest)"
  by (simp add: overwrite_def)

lemma overwrite_len [simp]: "ab_len (overwrite i bs b) = ab_len b"
  by (simp add: overwrite_def)

lemma asn1_prepend_built:
  assumes "realloc_ok reallocate" "built b bytes" "asn1_prepend reallocate b type data = (b', Inr ())"
  shows "built b' (asn1_header type (length data) @ data @ bytes)"
proof -
  define header where "header = asn1_header type (length data)"
  obtain b1 where g: "asn1_grow reallocate b (length header + length data) = (b1, Inr ())"
    and b': "b' = overwrite (length header) data (overwrite 0 header b1)"
    using assms(3) by (auto simp: asn1_prepend_def Let_def header_def split: prod.splits sum.splits)
  obtain front where f: "length front = length header + length data" "ab_data b1 = Some (front @ bytes)"
    "ab_len b1 = length header + length data + length bytes" using asn1_grow_built [OF assms(1,2) g] by auto
  have "ab_data (overwrite 0 header b1) = Some (header @ drop (length header) front @ bytes)"
    using f by (intro overwrite_front) simp_all
  then show ?thesis using f by (simp add: b' built_def overwrite_def header_def [symmetric])
qed

lemma asn1_prepend_raw_built:
  assumes "realloc_ok reallocate" "built b bytes" "asn1_prepend_raw reallocate b data = (b', Inr ())"
  shows "built b' (data @ bytes)"
proof -
  obtain b1 where g: "asn1_grow reallocate b (length data) = (b1, Inr ())" and b': "b' = overwrite 0 data b1"
    using assms(3) by (auto simp: asn1_prepend_raw_def split: prod.splits sum.splits)
  obtain front where f: "length front = length data" "ab_data b1 = Some (front @ bytes)" "ab_len b1 = length data + length bytes"
    using asn1_grow_built [OF assms(1,2) g] by auto
  then show ?thesis using overwrite_front [of b1 front bytes data] by (simp add: b' built_def)
qed

lemma asn1_wrap_built:
  assumes "realloc_ok reallocate" "built b bytes" "asn1_wrap reallocate b type = (b', Inr ())"
  shows "built b' (asn1_header type (length bytes) @ bytes)"
proof -
  define header where "header = asn1_header type (length bytes)"
  have "ab_len b = length bytes" using assms(2) by (simp add: built_def)
  then obtain b1 where g: "asn1_grow reallocate b (length header) = (b1, Inr ())" and b': "b' = overwrite 0 header b1"
    using assms(3) by (auto simp: asn1_wrap_def Let_def header_def split: prod.splits sum.splits)
  obtain front where f: "length front = length header" "ab_data b1 = Some (front @ bytes)" "ab_len b1 = length header + length bytes"
    using asn1_grow_built [OF assms(1,2) g] by auto
  then show ?thesis using overwrite_front [of b1 front bytes header] by (simp add: b' built_def header_def [symmetric])
qed

section \<open>Properties\<close>

text \<open>
  C37: a cursor inside its buffer stays there: whatever the bytes are, entering,
  skipping and shrinking read inside the buffer only and leave a cursor inside
  the one they started from, empty after an error where the documentation says
  so, and at least two bytes further on after a successful skip, so that a loop
  over objects ends.  The values read through a cursor are read inside the
  buffer, and a bit string lies inside the object.
\<close>

theorem asn1_cursors_in_bounds:
  fixes table :: "('p, 'd) asn1_oid_algorithm list"
  assumes "cursor_ok mem c" "\<forall>a \<in> set table. length (alg_oid a) < 2 ^ 32"
  shows "(\<exists>c' rc. asn1_enter mem c type = Some (c', rc) \<and> within c' c \<and> (rc \<noteq> Inr () \<longrightarrow> ac_len c' = 0))
    \<and> (\<exists>c' rc. asn1_skip_if_exists mem c type = Some (c', rc) \<and> within c' c
        \<and> (rc = Inr () \<longrightarrow> ac_data c + 2 \<le> ac_data c' \<and> 0 < ac_len c'))
    \<and> (\<exists>c' rc. asn1_skip mem c type = Some (c', rc) \<and> within c' c \<and> (rc \<noteq> Inr () \<longrightarrow> ac_len c' = 0)
        \<and> (rc = Inr () \<longrightarrow> ac_data c + 2 \<le> ac_data c' \<and> 0 < ac_len c'))
    \<and> (\<exists>c' rc. asn1_shrink mem c type = Some (c', rc) \<and> within c' c \<and> (rc \<noteq> Inr () \<longrightarrow> ac_len c' = 0))
    \<and> asn1_boolean mem c \<noteq> None \<and> asn1_integer mem c \<noteq> None \<and> asn1_algorithm table mem c \<noteq> None
    \<and> (\<exists>rc. asn1_bit_string mem c = Some rc
        \<and> (\<forall>bits. rc = Inr bits \<longrightarrow> bits_unused bits < 8 \<and> within \<lparr> ac_data = bits_data bits, ac_len = bits_len bits \<rparr> c))"
proof (intro conjI)
  have r: "rc \<noteq> Inr () \<Longrightarrow> \<exists>e. rc = Inl e" for rc :: "unit result" by (cases rc) auto
  show "\<exists>c' rc. asn1_enter mem c type = Some (c', rc) \<and> within c' c \<and> (rc \<noteq> Inr () \<longrightarrow> ac_len c' = 0)"
    by (rule asn1_enter_within [OF assms(1), of type]) (use r in blast)
  show "\<exists>c' rc. asn1_skip_if_exists mem c type = Some (c', rc) \<and> within c' c
      \<and> (rc = Inr () \<longrightarrow> ac_data c + 2 \<le> ac_data c' \<and> 0 < ac_len c')"
    by (rule asn1_skip_if_exists_within [OF assms(1), of type]) blast
  show "\<exists>c' rc. asn1_skip mem c type = Some (c', rc) \<and> within c' c \<and> (rc \<noteq> Inr () \<longrightarrow> ac_len c' = 0)
      \<and> (rc = Inr () \<longrightarrow> ac_data c + 2 \<le> ac_data c' \<and> 0 < ac_len c')"
    by (rule asn1_skip_within [OF assms(1), of type]) (use r in blast)
  show "\<exists>c' rc. asn1_shrink mem c type = Some (c', rc) \<and> within c' c \<and> (rc \<noteq> Inr () \<longrightarrow> ac_len c' = 0)"
    by (rule asn1_shrink_within [OF assms(1), of type]) (use r in blast)
  show "\<exists>rc. asn1_bit_string mem c = Some rc
      \<and> (\<forall>bits. rc = Inr bits \<longrightarrow> bits_unused bits < 8 \<and> within \<lparr> ac_data = bits_data bits, ac_len = bits_len bits \<rparr> c)"
    by (rule asn1_bit_string_ok [OF assms(1)]) blast
qed (use assms asn1_boolean_ok asn1_integer_ok asn1_algorithm_ok in blast)+

theorem asn1_cursors_in_bounds_witness:
  "\<exists>c' rc. asn1_skip [0x30, 0x84, 0xff, 0xff, 0xff, 0xff] \<lparr> ac_data = 0, ac_len = 6 \<rparr> ASN1_ANY = Some (c', rc)
    \<and> within c' \<lparr> ac_data = 0, ac_len = 6 \<rparr>"
  using asn1_cursors_in_bounds [of "[0x30, 0x84, 0xff, 0xff, 0xff, 0xff]" "\<lparr> ac_data = 0, ac_len = 6 \<rparr>"
      "[] :: (nat, nat) asn1_oid_algorithm list" ASN1_ANY]
  by (auto simp: cursor_ok_def)


lemma asn1_enter_header:
  fixes data rest :: "u8 list"
  assumes "is_tag type" "length data < 2 ^ 31"
  defines "mem \<equiv> asn1_header type (length data) @ data @ rest"
  shows "asn1_enter mem \<lparr> ac_data = 0, ac_len = length mem \<rparr> type
      = Some (\<lparr> ac_data = length (asn1_header type (length data)), ac_len = length data \<rparr>, Inr ())"
    and "rest \<noteq> [] \<Longrightarrow> asn1_skip mem \<lparr> ac_data = 0, ac_len = length mem \<rparr> type
      = Some (\<lparr> ac_data = length (asn1_header type (length data) @ data), ac_len = length rest \<rparr>, Inr ())"
  using asn1_header_start [OF assms(1,2), of "data @ rest"]
  by (simp_all add: mem_def asn1_enter_def asn1_skip_def asn1_skip_if_exists_def advance_def)

lemma grow_failed:
  assumes "asn1_grow reallocate b ext = (b', Inl e)" "built b bytes"
  shows "ab_data b' = None" "ab_len b' = length bytes" "e = ENOMEM"
  using assms by (auto simp: asn1_grow_def built_def Let_def split: if_splits option.splits)

lemma grow_permanent: "ab_len b \<noteq> 0 \<Longrightarrow> ab_data b = None \<Longrightarrow> asn1_grow reallocate b ext = (b, Inl ENOMEM)"
  by (simp add: asn1_grow_def)


definition example_realloc :: reallocator where
  "example_realloc d n = Some (take n (case d of None \<Rightarrow> [] | Some x \<Rightarrow> x) @ replicate (n - length (case d of None \<Rightarrow> [] | Some x \<Rightarrow> x)) 0)"



section \<open>Times\<close>

definition digits2 :: "nat \<Rightarrow> u8 list" where
  "digits2 n = [of_nat (48 + n div 10), of_nat (48 + n mod 10)]"

definition time_digits :: "nat list \<Rightarrow> u8 list" where
  "time_digits ns = concat (map digits2 ns)"

lemma length_time_digits [simp]: "length (time_digits ns) = 2 * length ns"
  by (induction ns) (simp_all add: time_digits_def digits2_def)

lemma digit_ok: "d < 10 \<Longrightarrow> isdigit (of_nat (48 + d)) \<and> (of_nat (48 + d) :: u8) - 0x30 = of_nat d"
  by (auto simp: isdigit_def word_le_nat_alt unat_word_ariths unat_of_nat)

lemma time_loop_digits:
  assumes "\<forall>n \<in> set ns. n < 100" "length ns \<le> 7" "length raw = 7" "2 * length ns \<le> remaining"
  shows "time_loop (pre @ time_digits ns @ post) [7 - length ns..<7] (length pre) remaining raw
    = Some (Inr (length pre + 2 * length ns, remaining - 2 * length ns, take (7 - length ns) raw @ map of_nat ns))"
  using assms
proof (induction ns arbitrary: pre remaining raw)
  case (Cons n ns)
  define mem where "mem = pre @ time_digits (n # ns) @ post"
  have m: "mem = (pre @ digits2 n) @ time_digits ns @ post" by (simp add: mem_def time_digits_def)
  have n: "n div 10 < 10" "n mod 10 < 10" using Cons.prems(1) by auto
  have r: "rd mem (length pre) = Some (of_nat (48 + n div 10))" "rd mem (length pre + 1) = Some (of_nat (48 + n mod 10))"
    by (simp_all add: mem_def rd_def time_digits_def digits2_def nth_append)
  have "10 * (of_nat (n div 10) :: u8) + of_nat (n mod 10) = of_nat (10 * (n div 10) + n mod 10)"
    by (simp only: of_nat_add of_nat_mult of_nat_numeral)
  then have v: "10 * ((of_nat (48 + n div 10) :: u8) - 0x30) + (of_nat (48 + n mod 10) - 0x30) = of_nat n"
    using digit_ok [OF n(1)] digit_ok [OF n(2)] by simp
  have len: "7 - length ns = Suc (7 - length (n # ns))" using Cons.prems(2) by simp
  have u: "[7 - length (n # ns)..<7] = (7 - length (n # ns)) # [7 - length ns..<7]"
    using Cons.prems(2) by (subst upt_conv_Cons) (simp_all add: len)
  have step: "time_loop mem [7 - length (n # ns)..<7] (length pre) remaining raw
      = time_loop mem [7 - length ns..<7] (length (pre @ digits2 n)) (remaining - 2) (raw[7 - length (n # ns) := of_nat n])"
    unfolding u using r v digit_ok [OF n(1)] digit_ok [OF n(2)] Cons.prems(4) by (simp add: digits2_def)
  have t: "take (7 - length ns) (raw[7 - length (n # ns) := of_nat n]) = take (7 - length (n # ns)) raw @ [of_nat n :: u8]"
    unfolding len using Cons.prems(2,3) by (simp add: take_Suc_conv_app_nth)
  show ?case
    using Cons.IH [of "raw[7 - length (n # ns) := of_nat n]" "remaining - 2" "pre @ digits2 n"] Cons.prems t
    unfolding mem_def [symmetric] step by (simp add: m digits2_def)
qed simp


definition seconds_since_epoch :: "nat \<Rightarrow> nat \<Rightarrow> nat \<Rightarrow> nat \<Rightarrow> nat \<Rightarrow> nat \<Rightarrow> int" where
  "seconds_since_epoch year mo d h mi s = 86400 * day_number (year - 1900) (mo - 1) (int d) + 3600 * int h + 60 * int mi + int s"

lemma mktime_seconds:
  assumes "19 \<le> cc" "1 \<le> d" "tm_sec t = int s" "tm_min t = int mi" "tm_hour t = int h" "tm_mday t = int d"
    "tm_mon t = int mo - 1" "tm_year t = (int cc - 19) * 100 + int yy"
  shows "map_option snd (mktime t) = (if 1 \<le> mo \<and> mo \<le> 12 then Some (seconds_since_epoch (100 * cc + yy) mo d h mi s) else None)"
proof (cases "1 \<le> mo \<and> mo \<le> 12")
  case True
  have "tm_year t = int (100 * cc + yy - 1900)" "tm_mon t = int (mo - 1)" using assms True by (simp_all add: of_nat_diff)
  moreover have "mo - 1 < 12" using True by auto
  ultimately show ?thesis using mktime_calendar [of t _ "mo - 1"] True assms by (fastforce simp: seconds_since_epoch_def)
next
  case False
  then have "table_entry days_to_month_start (tm_mon t) = None" using assms by (auto simp: table_entry_def days_to_month_start_def)
  with False show ?thesis by (simp add: mktime_def)
qed

lemma asn1_time_object:
  fixes ns :: "nat list" and type :: u32 and rest :: "u8 list"
  assumes "\<forall>n \<in> set ns. n < 100" "type = ASN1_GENERALIZED_TIME \<and> length ns = 7 \<or> type = ASN1_UTC_TIME \<and> length ns = 6"
  defines "mem \<equiv> asn1_header type (2 * length ns + 1) @ (time_digits ns @ [0x5a]) @ rest"
  defines "fs \<equiv> (if type = ASN1_GENERALIZED_TIME then ns else (if ns ! 0 \<ge> 50 then 19 else 20) # ns)"
  shows "asn1_generalized_time mem \<lparr> ac_data = 0, ac_len = length mem \<rparr>
    = map_option (\<lambda>r. Inr (snd r)) (mktime \<lparr> tm_sec = int (fs ! 6), tm_min = int (fs ! 5), tm_hour = int (fs ! 4),
        tm_mday = int (fs ! 3), tm_mon = int (fs ! 2) - 1, tm_year = (int (fs ! 0) - 19) * 100 + int (fs ! 1),
        tm_wday = 0, tm_yday = 0, tm_isdst = 0 \<rparr>)"
proof -
  have tag: "is_tag type" and any: "type = ASN1_UTC_TIME \<or> type = ASN1_GENERALIZED_TIME"
    using assms(2) by (auto simp: is_tag_def ASN1_GENERALIZED_TIME_def ASN1_UTC_TIME_def)
  have na: "(type \<noteq> ASN1_UTC_TIME \<and> type \<noteq> ASN1_GENERALIZED_TIME) = False" using any by blast
  have n: "length ns \<le> 7" "6 \<le> length ns" using assms(2) by auto
  have h: "asn1_header type (2 * length ns + 1) = [ucast type, of_nat (2 * length ns + 1)]"
    using n by (simp add: asn1_header_def)
  have m: "mem = [ucast type, of_nat (2 * length ns + 1)] @ time_digits ns @ (0x5a # rest)"
    unfolding mem_def h by simp
  have ty: "asn1_type mem \<lparr> ac_data = 0, ac_len = length mem \<rparr> = Some type"
    using tag by (simp add: asn1_type_def m rd_def ucast_tag)
  have len: "length (time_digits ns @ [0x5a]) = 2 * length ns + 1" by simp
  have en: "asn1_enter mem \<lparr> ac_data = 0, ac_len = length mem \<rparr> type = Some (\<lparr> ac_data = 2, ac_len = 2 * length ns + 1 \<rparr>, Inr ())"
    using asn1_enter_header(1) [OF tag, of "time_digits ns @ [0x5a]" rest, unfolded len, folded mem_def] n unfolding h by simp
  have st: "(if type = ASN1_GENERALIZED_TIME then 0 else 1) = 7 - length ns"
    using assms(2) by (auto simp: ASN1_GENERALIZED_TIME_def ASN1_UTC_TIME_def)
  have lp: "time_loop mem [7 - length ns..<7] 2 (2 * length ns + 1) (replicate 7 0)
      = Some (Inr (2 + 2 * length ns, 1, replicate (7 - length ns) 0 @ map of_nat ns))"
    using time_loop_digits [OF assms(1) n(1), of "replicate 7 0" "2 * length ns + 1" "[ucast type, of_nat (2 * length ns + 1)]" "0x5a # rest"]
    by (simp add: m min_def numeral_2_eq_2)
  have z: "rd mem (2 + 2 * length ns) = Some 0x5a" by (simp add: m rd_def nth_append)
  define raw :: "u8 list" where "raw = (if type = ASN1_GENERALIZED_TIME then replicate (7 - length ns) 0 @ map of_nat ns
     else (replicate (7 - length ns) 0 @ map of_nat ns)[0 := if (replicate (7 - length ns) 0 @ map of_nat ns) ! 1 \<ge> (50 :: u8) then 19 else 20])"
  have "0 < length ns" using n(2) by linarith
  then have ns0: "ns \<noteq> []" "ns ! 0 < 100" using assms(1) nth_mem [of 0 ns] by auto
  then have ge: "(50 :: u8) \<le> of_nat (ns ! 0) \<longleftrightarrow> 50 \<le> ns ! 0" by (simp add: word_le_nat_alt unat_of_nat)
  have raw: "raw = map of_nat fs"
    using assms(2) ge by (auto simp: raw_def fs_def ASN1_GENERALIZED_TIME_def ASN1_UTC_TIME_def)
  have "\<forall>n \<in> set fs. n < 100" "length fs = 7" using assms(1,2) by (auto simp: fs_def ASN1_GENERALIZED_TIME_def ASN1_UTC_TIME_def)
  then have f: "uint (raw ! i) = int (fs ! i)" if "i < 7" for i
    using that nth_mem [of i fs] by (fastforce simp: raw uint_nat unat_of_nat)
  have "asn1_generalized_time mem \<lparr> ac_data = 0, ac_len = length mem \<rparr>
    = (case mktime \<lparr> tm_sec = uint (raw ! 6), tm_min = uint (raw ! 5), tm_hour = uint (raw ! 4), tm_mday = uint (raw ! 3),
        tm_mon = uint (raw ! 2) - 1, tm_year = (uint (raw ! 0) - 19) * 100 + uint (raw ! 1),
        tm_wday = 0, tm_yday = 0, tm_isdst = 0 \<rparr> of None \<Rightarrow> None | Some r \<Rightarrow> Some (Inr (snd r)))"
    unfolding asn1_generalized_time_def ty Option.bind.simps na if_False Let_def en prod.case sum.case asn1_cursor.simps st lp z
      raw_def [symmetric] by (simp split: option.split)
  then show ?thesis using f by (simp split: option.split)
qed


text \<open>
  C39: a time in a certificate, from 1900 on, is converted to the seconds since
  the Epoch that the calendar gives, for UTCTime with the century that RFC 5280
  prescribes as for GeneralizedTime, provided that the month is one of the
  twelve.  The digits of the month are not checked: for month 00 and for the
  months 13 to 99 the conversion reads outside of its table of months.
\<close>

theorem asn1_time_correct:
  fixes rest :: "u8 list"
  assumes "\<forall>n \<in> set [cc, yy, mo, d, h, mi, s]. n < 100" "19 \<le> cc" "1 \<le> d"
  defines "general \<equiv> asn1_header ASN1_GENERALIZED_TIME 15 @ (time_digits [cc, yy, mo, d, h, mi, s] @ [0x5a]) @ rest"
    and "utc \<equiv> asn1_header ASN1_UTC_TIME 13 @ (time_digits [yy, mo, d, h, mi, s] @ [0x5a]) @ rest"
  shows "asn1_generalized_time general \<lparr> ac_data = 0, ac_len = length general \<rparr>
      = (if 1 \<le> mo \<and> mo \<le> 12 then Some (Inr (seconds_since_epoch (100 * cc + yy) mo d h mi s)) else None)
    \<and> asn1_generalized_time utc \<lparr> ac_data = 0, ac_len = length utc \<rparr>
      = (if 1 \<le> mo \<and> mo \<le> 12 then Some (Inr (seconds_since_epoch (if 50 \<le> yy then 1900 + yy else 2000 + yy) mo d h mi s)) else None)"
proof -
  define t where "t c = \<lparr> tm_sec = int s, tm_min = int mi, tm_hour = int h, tm_mday = int d, tm_mon = int mo - 1,
    tm_year = (int c - 19) * 100 + int yy, tm_wday = 0, tm_yday = 0, tm_isdst = 0 \<rparr>" for c
  have e: "map_option (\<lambda>r. Inr (snd r)) x = map_option Inr (map_option snd x)" for x :: "(tm \<times> int) option"
    by (cases x) auto
  have r: "map_option (\<lambda>r. Inr (snd r)) (mktime (t c))
      = (if 1 \<le> mo \<and> mo \<le> 12 then Some (Inr (seconds_since_epoch (100 * c + yy) mo d h mi s)) else None)" if "19 \<le> c" for c
    unfolding e by (subst mktime_seconds [OF that assms(3), of "t c" s mi h mo yy]) (simp_all add: t_def)
  define c where "c = (if 50 \<le> yy then 19 else 20 :: nat)"
  have g: "asn1_generalized_time general \<lparr> ac_data = 0, ac_len = length general \<rparr> = map_option (\<lambda>r. Inr (snd r)) (mktime (t cc))"
    using asn1_time_object [of "[cc, yy, mo, d, h, mi, s]" ASN1_GENERALIZED_TIME rest] assms(1) by (simp add: general_def t_def)
  have u: "asn1_generalized_time utc \<lparr> ac_data = 0, ac_len = length utc \<rparr> = map_option (\<lambda>r. Inr (snd r)) (mktime (t c))"
    using asn1_time_object [of "[yy, mo, d, h, mi, s]" ASN1_UTC_TIME rest] assms(1)
    by (simp add: utc_def t_def c_def ASN1_GENERALIZED_TIME_def ASN1_UTC_TIME_def)
  have c: "19 \<le> c" "100 * c + yy = (if 50 \<le> yy then 1900 + yy else 2000 + yy)" by (simp_all add: c_def)
  show ?thesis unfolding g u r [OF assms(2)] r [OF c(1)] c(2) by (intro conjI refl)
qed

theorem asn1_time_correct_witness:
  "asn1_generalized_time (asn1_header ASN1_UTC_TIME 13 @ (time_digits [24, 2, 29, 12, 30, 15] @ [0x5a]) @ [])
      \<lparr> ac_data = 0, ac_len = 15 \<rparr> = Some (Inr (seconds_since_epoch 2024 2 29 12 30 15))
    \<and> asn1_generalized_time (asn1_header ASN1_UTC_TIME 13 @ (time_digits [24, 99, 29, 12, 30, 15] @ [0x5a]) @ [])
      \<lparr> ac_data = 0, ac_len = 15 \<rparr> = None"
  using asn1_time_correct [of 20 24 2 29 12 30 15 "[]"] asn1_time_correct [of 20 24 99 29 12 30 15 "[]"]
  by (simp add: asn1_header_def)

end
