(* ===== verification/Rsa.thy ===== *)
theory Rsa
  imports Asn1 Digest_Md Digest_Sha
begin

text \<open>
  RSA (\<open>crypto/rsa.c\<close>, \<open>include/ipxe/rsa.h\<close>) and the random padding
  (\<open>crypto/random_nz.c\<close>).  The context holds the contents of the big integers in
  its dynamic storage.  The outcome of \<open>malloc()\<close>, the bytes of
  \<open>rbg_generate()\<close> and the table of digestInfo prefixes, which the linker
  collects, are arguments; \<open>rsa_digestinfo_prefixes\<close> has the entries of
  \<open>crypto/mishmash\<close>.  A result
  of \<open>None\<close> is an access outside of a buffer or a loop that does not end.  What
  the temporary storage contains after a call is not recorded: every use
  initialises it first.
\<close>

section \<open>Random padding\<close>

text \<open>\<open>rbg i\<close> is the outcome of the i-th call of \<open>rbg_generate()\<close>.\<close>

partial_function (option) get_random_nz :: "(nat \<Rightarrow> u8 result) \<Rightarrow> nat \<Rightarrow> nat \<Rightarrow> u8 list \<Rightarrow> u8 list result option" where
  "get_random_nz rbg i len bytes =
     (if len = 0 then Some (Inr bytes)
      else case rbg i of
             Inl rc \<Rightarrow> Some (Inl rc)
           | Inr b \<Rightarrow> if b \<noteq> 0 then get_random_nz rbg (i + 1) (len - 1) (bytes @ [b]) else get_random_nz rbg (i + 1) len bytes)"

declare get_random_nz.simps [code]

section \<open>Context\<close>

record rsa_context =
  rsa_dynamic :: bool
  rsa_modulus0 :: bigint
  rsa_size :: nat
  rsa_len :: nat
  rsa_exponent0 :: bigint
  rsa_exponent_size :: nat
  rsa_input0 :: bigint
  rsa_output0 :: bigint
  rsa_tmp :: "u32 list"

definition bigint_required_size :: "nat \<Rightarrow> nat" where
  "bigint_required_size len = (len + 4 - 1) div 4"

definition mod_exp_tmp_size :: "nat \<Rightarrow> nat \<Rightarrow> nat" where
  "mod_exp_tmp_size sz exponent_size = sz + exponent_size + (2 * sz + 2 * sz)"

definition rsa_free :: "rsa_context \<Rightarrow> rsa_context" where
  "rsa_free context = context \<lparr> rsa_dynamic := False \<rparr>"

text \<open>The allocator returns the contents of a block of so many elements.\<close>

definition rsa_alloc :: "(nat \<Rightarrow> u32 list option) \<Rightarrow> rsa_context \<Rightarrow> nat \<Rightarrow> nat \<Rightarrow> rsa_context \<times> unit result" where
  "rsa_alloc allocate context modulus_len exponent_len =
     (let sz = bigint_required_size modulus_len;
          exponent_size = bigint_required_size exponent_len;
          tmp_len = mod_exp_tmp_size sz exponent_size;
          context = rsa_free context
      in case allocate (sz + exponent_size + sz + sz + tmp_len) of
           None \<Rightarrow> (context, Inl ENOMEM)
         | Some dynamic \<Rightarrow>
             (context \<lparr> rsa_dynamic := True, rsa_modulus0 := take sz dynamic, rsa_size := sz, rsa_len := modulus_len,
                rsa_exponent0 := take exponent_size (drop sz dynamic), rsa_exponent_size := exponent_size,
                rsa_input0 := take sz (drop (sz + exponent_size) dynamic),
                rsa_output0 := take sz (drop (sz + exponent_size + sz) dynamic),
                rsa_tmp := drop (sz + exponent_size + sz + sz) dynamic \<rparr>, Inr ()))"

definition rsa_parse_integer :: "u8 list \<Rightarrow> asn1_cursor \<Rightarrow> asn1_cursor result option" where
  "rsa_parse_integer mem raw = do {
     (integer, _) \<leftarrow> asn1_enter mem raw ASN1_INTEGER;
     sign \<leftarrow> (if ac_len integer > 1 then map_option (\<lambda>b. b = 0x00) (rd mem (ac_data integer)) else Some False);
     let integer = (if sign then advance 1 integer else integer);
     Some (if ac_len integer = 0 then Inl EINVAL else Inr integer)
   }"

definition rsa_parse_mod_exp :: "u8 list \<Rightarrow> asn1_cursor \<Rightarrow> (asn1_cursor \<times> asn1_cursor) result option" where
  "rsa_parse_mod_exp mem raw = do {
     (cursor, _) \<leftarrow> asn1_enter mem raw ASN1_SEQUENCE;
     type \<leftarrow> asn1_type mem cursor;
     let is_private = (type = ASN1_INTEGER);
     entered \<leftarrow> (if is_private
       then do { (cursor, _) \<leftarrow> asn1_skip_any mem cursor; Some (Inr cursor) }
       else do {
         (cursor, _) \<leftarrow> asn1_skip mem cursor ASN1_SEQUENCE;
         bits \<leftarrow> asn1_integral_bit_string mem cursor;
         case bits of
           Inl rc \<Rightarrow> Some (Inl rc)
         | Inr bits \<Rightarrow> do {
             (cursor, _) \<leftarrow> asn1_enter mem \<lparr> ac_data = bits_data bits, ac_len = bits_len bits \<rparr> ASN1_SEQUENCE;
             Some (Inr cursor)
           }
       });
     case entered of
       Inl rc \<Rightarrow> Some (Inl rc)
     | Inr cursor \<Rightarrow> do {
         modulus \<leftarrow> rsa_parse_integer mem cursor;
         case modulus of
           Inl rc \<Rightarrow> Some (Inl rc)
         | Inr modulus \<Rightarrow> do {
             (cursor, _) \<leftarrow> asn1_skip_any mem cursor;
             cursor \<leftarrow> (if is_private then map_option fst (asn1_skip mem cursor ASN1_INTEGER) else Some cursor);
             exponent \<leftarrow> rsa_parse_integer mem cursor;
             case exponent of
               Inl rc \<Rightarrow> Some (Inl rc)
             | Inr exponent \<Rightarrow> Some (Inr (modulus, exponent))
           }
       }
   }"

definition rsa_zero :: rsa_context where
  "rsa_zero = \<lparr> rsa_dynamic = False, rsa_modulus0 = [], rsa_size = 0, rsa_len = 0, rsa_exponent0 = [],
     rsa_exponent_size = 0, rsa_input0 = [], rsa_output0 = [], rsa_tmp = [] \<rparr>"

definition rsa_init :: "(nat \<Rightarrow> u32 list option) \<Rightarrow> u8 list \<Rightarrow> (rsa_context \<times> unit result) option" where
  "rsa_init allocate key = do {
     let context = rsa_zero;
     let cursor = \<lparr> ac_data = 0, ac_len = length key \<rparr>;
     parsed \<leftarrow> rsa_parse_mod_exp key cursor;
     case parsed of
       Inl rc \<Rightarrow> Some (context, Inl rc)
     | Inr (modulus, exponent) \<Rightarrow>
         case rsa_alloc allocate context (ac_len modulus) (ac_len exponent) of
           (context, Inl rc) \<Rightarrow> Some (context, Inl rc)
         | (context, Inr _) \<Rightarrow> do {
             n \<leftarrow> rd_bytes key (ac_data modulus) (ac_len modulus);
             e \<leftarrow> rd_bytes key (ac_data exponent) (ac_len exponent);
             Some (context \<lparr> rsa_modulus0 := bigint_init_raw (rsa_size context) n,
                             rsa_exponent0 := bigint_init_raw (rsa_exponent_size context) e \<rparr>, Inr ())
           }
   }"

definition rsa_max_len :: "rsa_context \<Rightarrow> nat" where
  "rsa_max_len context = rsa_len context"

definition rsa_final :: "rsa_context \<Rightarrow> rsa_context" where
  "rsa_final context = rsa_free context"

section \<open>Operations\<close>

definition rsa_cipher :: "rsa_context \<Rightarrow> u8 list \<Rightarrow> (rsa_context \<times> u8 list) option" where
  "rsa_cipher context inp = do {
     let context = context \<lparr> rsa_input0 := bigint_init_raw (rsa_size context) inp \<rparr>;
     output \<leftarrow> bigint_mod_exp_raw (rsa_input0 context) (rsa_modulus0 context) (rsa_exponent0 context)
       (drop (rsa_size context + rsa_exponent_size context) (rsa_tmp context));
     let context = context \<lparr> rsa_output0 := output \<rparr>;
     Some (context, bigint_done_raw (rsa_output0 context) (rsa_len context))
   }"

text \<open>The bytes of a big integer that is used as a buffer, and writing to them.\<close>

definition buffer :: "bigint \<Rightarrow> u8 list" where
  "buffer value = concat (map cpu_to_le32 value)"

definition from_buffer :: "u8 list \<Rightarrow> bigint" where
  "from_buffer bs = map le32_to_cpu (blocks 4 bs)"

definition put_bytes :: "nat \<Rightarrow> u8 list \<Rightarrow> u8 list \<Rightarrow> u8 list option" where
  "put_bytes i bs buf = (if i + length bs \<le> length buf then Some (take i buf @ bs @ drop (i + length bs) buf) else None)"

definition rsa_encrypt :: "(nat \<Rightarrow> u8 result) \<Rightarrow> rsa_context \<Rightarrow> u8 list \<Rightarrow> (rsa_context \<times> u8 list result) option" where
  "rsa_encrypt rbg context plaintext =
     (let max_len = of_nat (rsa_len context) - 11 :: u64;
          plaintext_len = of_nat (length plaintext) :: u64;
          random_nz_len = max_len - plaintext_len + 8
      in if plaintext_len > max_len then Some (context, Inl ERANGE)
         else do {
           encoded \<leftarrow> put_bytes 0 [0x00, 0x02] (buffer (rsa_output0 context));
           if 2 + unat random_nz_len > length encoded then None
           else do {
             random \<leftarrow> get_random_nz rbg 0 (unat random_nz_len) [];
             case random of
               Inl rc \<Rightarrow> Some (context \<lparr> rsa_output0 := from_buffer encoded \<rparr>, Inl rc)
             | Inr bytes \<Rightarrow> do {
                 encoded \<leftarrow> put_bytes 2 bytes encoded;
                 encoded \<leftarrow> put_bytes (2 + unat random_nz_len) [0x00] encoded;
                 encoded \<leftarrow> put_bytes (unat (of_nat (rsa_len context) - plaintext_len)) plaintext encoded;
                 (context, ciphertext) \<leftarrow> rsa_cipher (context \<lparr> rsa_output0 := from_buffer encoded \<rparr>) (take (rsa_len context) encoded);
                 Some (context, Inr ciphertext)
               }
           }
         })"

definition rsa_decrypt :: "rsa_context \<Rightarrow> u8 list \<Rightarrow> (rsa_context \<times> u8 list result) option" where
  "rsa_decrypt context ciphertext =
     (if length ciphertext \<noteq> rsa_len context then Some (context, Inl ERANGE)
      else do {
        (context, plain) \<leftarrow> rsa_cipher context ciphertext;
        encoded \<leftarrow> put_bytes 0 plain (buffer (rsa_input0 context));
        let context = context \<lparr> rsa_input0 := from_buffer encoded \<rparr>;
        e0 \<leftarrow> rd encoded 0;
        e1 \<leftarrow> rd encoded 1;
        if e0 \<noteq> 0x00 \<or> e1 \<noteq> 0x02 then Some (context, Inl EINVAL)
        else if rsa_len context < 2 then None
        else case find (\<lambda>i. encoded ! i = 0) [2..<rsa_len context] of
               None \<Rightarrow> Some (context, Inl EINVAL)
             | Some zero \<Rightarrow> Some (context, Inr (drop (zero + 1) (take (rsa_len context) encoded)))
      })"

text \<open>Algorithms, which the code tells apart by their addresses, differ in their names.\<close>

record rsa_digestinfo_prefix =
  rp_digest :: string
  rp_data :: "u8 list"

text \<open>
  The table: an entry is the encoding of a digestInfo up to the digest itself.
  The number of arguments of a macro is the length of a list.
\<close>

definition ASN1_OCTET_STRING :: u8 where "ASN1_OCTET_STRING = 0x04"
definition ASN1_NULL :: u8 where "ASN1_NULL = 0x05"

definition ASN1_OID_INITIAL :: "nat \<Rightarrow> nat \<Rightarrow> u8" where
  "ASN1_OID_INITIAL first second = of_nat (first * 40 + second)"

definition ASN1_OID_SINGLE :: "u32 \<Rightarrow> u8 list" where
  "ASN1_OID_SINGLE value = [ucast (value AND 0x7f)]"

definition ASN1_OID_DOUBLE :: "u32 \<Rightarrow> u8 list" where
  "ASN1_OID_DOUBLE value = ucast (0x80 OR (drop_bit 7 value AND 0x7f)) # ASN1_OID_SINGLE value"

definition ASN1_OID_TRIPLE :: "u32 \<Rightarrow> u8 list" where
  "ASN1_OID_TRIPLE value = ucast (0x80 OR (drop_bit 14 value AND 0x7f)) # ASN1_OID_DOUBLE value"

definition ASN1_OID_MD5 :: "u8 list" where
  "ASN1_OID_MD5 = ASN1_OID_INITIAL 1 2 # ASN1_OID_DOUBLE 840 @ ASN1_OID_TRIPLE 113549 @ ASN1_OID_SINGLE 2 @ ASN1_OID_SINGLE 5"

definition ASN1_OID_SHA1 :: "u8 list" where
  "ASN1_OID_SHA1 = ASN1_OID_INITIAL 1 3 # ASN1_OID_SINGLE 14 @ ASN1_OID_SINGLE 3 @ ASN1_OID_SINGLE 2 @ ASN1_OID_SINGLE 26"

definition ASN1_OID_SHA256 :: "u8 list" where
  "ASN1_OID_SHA256 = ASN1_OID_INITIAL 2 16 # ASN1_OID_DOUBLE 840 @ ASN1_OID_SINGLE 1 @ ASN1_OID_SINGLE 101
     @ ASN1_OID_SINGLE 3 @ ASN1_OID_SINGLE 4 @ ASN1_OID_SINGLE 2 @ ASN1_OID_SINGLE 1"

definition ASN1_OID_SHA384 :: "u8 list" where
  "ASN1_OID_SHA384 = ASN1_OID_INITIAL 2 16 # ASN1_OID_DOUBLE 840 @ ASN1_OID_SINGLE 1 @ ASN1_OID_SINGLE 101
     @ ASN1_OID_SINGLE 3 @ ASN1_OID_SINGLE 4 @ ASN1_OID_SINGLE 2 @ ASN1_OID_SINGLE 2"

definition ASN1_OID_SHA512 :: "u8 list" where
  "ASN1_OID_SHA512 = ASN1_OID_INITIAL 2 16 # ASN1_OID_DOUBLE 840 @ ASN1_OID_SINGLE 1 @ ASN1_OID_SINGLE 101
     @ ASN1_OID_SINGLE 3 @ ASN1_OID_SINGLE 4 @ ASN1_OID_SINGLE 2 @ ASN1_OID_SINGLE 3"

definition ASN1_OID_SHA224 :: "u8 list" where
  "ASN1_OID_SHA224 = ASN1_OID_INITIAL 2 16 # ASN1_OID_DOUBLE 840 @ ASN1_OID_SINGLE 1 @ ASN1_OID_SINGLE 101
     @ ASN1_OID_SINGLE 3 @ ASN1_OID_SINGLE 4 @ ASN1_OID_SINGLE 2 @ ASN1_OID_SINGLE 4"

definition RSA_DIGESTALGORITHM_CONTENTS :: "u8 list \<Rightarrow> u8 list" where
  "RSA_DIGESTALGORITHM_CONTENTS oid = [ucast ASN1_OID, of_nat (length oid)] @ oid @ [ASN1_NULL, 0x00]"

definition RSA_DIGESTALGORITHM :: "u8 list \<Rightarrow> u8 list" where
  "RSA_DIGESTALGORITHM oid =
     [ucast ASN1_SEQUENCE, of_nat (length (RSA_DIGESTALGORITHM_CONTENTS oid))] @ RSA_DIGESTALGORITHM_CONTENTS oid"

definition RSA_DIGEST_PREFIX :: "nat \<Rightarrow> u8 list" where
  "RSA_DIGEST_PREFIX digest_size = [ASN1_OCTET_STRING, of_nat digest_size]"

definition RSA_DIGESTINFO_PREFIX :: "nat \<Rightarrow> u8 list \<Rightarrow> u8 list" where
  "RSA_DIGESTINFO_PREFIX digest_size oid =
     [ucast ASN1_SEQUENCE, of_nat (length (RSA_DIGESTALGORITHM oid) + length (RSA_DIGEST_PREFIX digest_size) + digest_size)]
     @ RSA_DIGESTALGORITHM oid @ RSA_DIGEST_PREFIX digest_size"

definition rsa_md5_prefix :: rsa_digestinfo_prefix where
  "rsa_md5_prefix = \<lparr> rp_digest = da_name md5_algorithm, rp_data = RSA_DIGESTINFO_PREFIX 16 ASN1_OID_MD5 \<rparr>"

definition rsa_sha1_prefix :: rsa_digestinfo_prefix where
  "rsa_sha1_prefix = \<lparr> rp_digest = da_name sha1_algorithm, rp_data = RSA_DIGESTINFO_PREFIX 20 ASN1_OID_SHA1 \<rparr>"

definition rsa_sha224_prefix :: rsa_digestinfo_prefix where
  "rsa_sha224_prefix = \<lparr> rp_digest = da_name sha224_algorithm, rp_data = RSA_DIGESTINFO_PREFIX 28 ASN1_OID_SHA224 \<rparr>"

definition rsa_sha256_prefix :: rsa_digestinfo_prefix where
  "rsa_sha256_prefix = \<lparr> rp_digest = da_name sha256_algorithm, rp_data = RSA_DIGESTINFO_PREFIX 32 ASN1_OID_SHA256 \<rparr>"

definition rsa_sha384_prefix :: rsa_digestinfo_prefix where
  "rsa_sha384_prefix = \<lparr> rp_digest = da_name sha384_algorithm, rp_data = RSA_DIGESTINFO_PREFIX 48 ASN1_OID_SHA384 \<rparr>"

definition rsa_sha512_prefix :: rsa_digestinfo_prefix where
  "rsa_sha512_prefix = \<lparr> rp_digest = da_name sha512_algorithm, rp_data = RSA_DIGESTINFO_PREFIX 64 ASN1_OID_SHA512 \<rparr>"

definition rsa_digestinfo_prefixes :: "rsa_digestinfo_prefix list" where
  "rsa_digestinfo_prefixes = [rsa_md5_prefix, rsa_sha1_prefix, rsa_sha224_prefix, rsa_sha256_prefix, rsa_sha384_prefix, rsa_sha512_prefix]"

fun rsa_find_prefix :: "rsa_digestinfo_prefix list \<Rightarrow> 'c digest_algorithm \<Rightarrow> rsa_digestinfo_prefix option" where
  "rsa_find_prefix [] digest = None"
| "rsa_find_prefix (prefix # table) digest = (if rp_digest prefix = da_name digest then Some prefix else rsa_find_prefix table digest)"

definition rsa_encode_digest ::
    "rsa_digestinfo_prefix list \<Rightarrow> rsa_context \<Rightarrow> 'c digest_algorithm \<Rightarrow> u8 list \<Rightarrow> u8 list \<Rightarrow> u8 list result option" where
  "rsa_encode_digest prefixes context digest value encoded =
     (case rsa_find_prefix prefixes digest of
        None \<Rightarrow> Some (Inl ENOTSUP)
      | Some prefix \<Rightarrow>
          let digestinfo_len = of_nat (length (rp_data prefix) + da_digestsize digest) :: u64;
              max_len = of_nat (rsa_len context) - 11
          in if digestinfo_len > max_len then Some (Inl ERANGE)
             else let pad_len = max_len - digestinfo_len + 8
                  in if 2 + unat pad_len > length encoded \<or> length value < da_digestsize digest then None
                     else map_option Inr
                       (put_bytes 0 ([0x00, 0x01] @ replicate (unat pad_len) 0xff @ [0x00] @ rp_data prefix @ take (da_digestsize digest) value) encoded))"

definition rsa_sign ::
    "rsa_digestinfo_prefix list \<Rightarrow> rsa_context \<Rightarrow> 'c digest_algorithm \<Rightarrow> u8 list \<Rightarrow> (rsa_context \<times> u8 list result) option" where
  "rsa_sign prefixes context digest value = do {
     rc \<leftarrow> rsa_encode_digest prefixes context digest value (buffer (rsa_output0 context));
     case rc of
       Inl rc \<Rightarrow> Some (context, Inl rc)
     | Inr temp \<Rightarrow> do {
         (context, signature) \<leftarrow> rsa_cipher (context \<lparr> rsa_output0 := from_buffer temp \<rparr>) (take (rsa_len context) temp);
         Some (context, Inr signature)
       }
   }"

definition rsa_verify ::
    "rsa_digestinfo_prefix list \<Rightarrow> rsa_context \<Rightarrow> 'c digest_algorithm \<Rightarrow> u8 list \<Rightarrow> u8 list \<Rightarrow> (rsa_context \<times> unit result) option" where
  "rsa_verify prefixes context digest value signature =
     (if length signature \<noteq> rsa_len context then Some (context, Inl ERANGE)
      else do {
        (context, plain) \<leftarrow> rsa_cipher context signature;
        expected \<leftarrow> put_bytes 0 plain (buffer (rsa_input0 context));
        let context = context \<lparr> rsa_input0 := from_buffer expected \<rparr>;
        rc \<leftarrow> rsa_encode_digest prefixes context digest value (buffer (rsa_output0 context));
        case rc of
          Inl rc \<Rightarrow> Some (context, Inl rc)
        | Inr actual \<Rightarrow>
            let context = context \<lparr> rsa_output0 := from_buffer actual \<rparr>
            in if memcmp (take (rsa_len context) actual) (take (rsa_len context) expected) \<noteq> 0
               then Some (context, Inl EACCES_VERIFY)
               else Some (context, Inr ())
      })"

definition rsa_match :: "u8 list \<Rightarrow> u8 list \<Rightarrow> unit result option" where
  "rsa_match private_key public_key = do {
     private \<leftarrow> rsa_parse_mod_exp private_key \<lparr> ac_data = 0, ac_len = length private_key \<rparr>;
     case private of
       Inl rc \<Rightarrow> Some (Inl rc)
     | Inr (private_modulus, _) \<Rightarrow> do {
         public \<leftarrow> rsa_parse_mod_exp public_key \<lparr> ac_data = 0, ac_len = length public_key \<rparr>;
         case public of
           Inl rc \<Rightarrow> Some (Inl rc)
         | Inr (public_modulus, _) \<Rightarrow> do {
             difference \<leftarrow> asn1_compare private_key private_modulus public_key public_modulus;
             Some (if difference \<noteq> 0 then Inl ENOTTY else Inr ())
           }
       }
   }"


section \<open>Keys\<close>

definition is_prime :: "nat \<Rightarrow> bool" where
  "is_prime p \<longleftrightarrow> 2 \<le> p \<and> (\<forall>k \<in> set [2..<p]. \<not> k dvd p)"

text \<open>
  Section 3.1 of RFC 3447: the modulus is a product of distinct primes, and the
  exponents are inverse modulo each prime minus one.
\<close>

definition rsa_key_pair :: "nat list \<Rightarrow> nat \<Rightarrow> nat \<Rightarrow> nat \<Rightarrow> bool" where
  "rsa_key_pair rs n e d \<longleftrightarrow> 0 < e \<and> 0 < d \<and> distinct rs \<and> list_all is_prime rs \<and> n = prod_list rs
     \<and> list_all (\<lambda>r. (e * d) mod (r - 1) = 1 mod (r - 1)) rs"

lemma prime_coprime:
  assumes "is_prime p" "\<not> p dvd a"
  shows "coprime p a"
proof -
  define g where "g = gcd p a"
  have "g \<le> p" unfolding g_def using assms(1) by (intro dvd_imp_le) (auto simp: is_prime_def)
  moreover have "g \<noteq> p" unfolding g_def using assms(2) by (metis gcd_dvd2)
  moreover have "0 < g" unfolding g_def using assms(1) by (auto simp: is_prime_def)
  moreover have "g \<notin> set [2..<p]" using assms(1) gcd_dvd1 [of p a] unfolding is_prime_def g_def by blast
  ultimately have "g = 1" by auto
  then show ?thesis by (simp add: coprime_iff_gcd_eq_1 g_def)
qed

lemma prime_dvd_binomial:
  assumes "is_prime p" "0 < k" "k < p"
  shows "p dvd p choose k"
proof -
  have "k * (p choose k) = p * (p - 1 choose (k - 1))"
    using Suc_times_binomial_eq [of "p - 1" "k - 1"] assms(2,3) by (simp add: mult.commute)
  then have "p dvd k * (p choose k)" by simp
  moreover have "coprime p k"
    by (intro prime_coprime assms(1)) (use assms(2,3) in \<open>auto dest: dvd_imp_le\<close>)
  ultimately show ?thesis by (simp add: coprime_dvd_mult_right_iff)
qed

lemma fermat:
  assumes "is_prime p"
  shows "m ^ p mod p = m mod p"
proof (induction m)
  case 0
  then show ?case using assms by (simp add: is_prime_def zero_power)
next
  case (Suc m)
  have p: "0 < p" using assms by (simp add: is_prime_def)
  then have "{..p} = insert p (insert 0 {1..<p})" by auto
  moreover have "(m + 1) ^ p = (\<Sum>k\<le>p. (p choose k) * m ^ k)" using binomial_ring [of m 1 p] by simp
  ultimately have "(m + 1) ^ p = 1 + (\<Sum>k = 1..<p. (p choose k) * m ^ k) + m ^ p" using p by simp
  moreover have "p dvd (\<Sum>k = 1..<p. (p choose k) * m ^ k)"
    by (intro dvd_sum dvd_mult2 prime_dvd_binomial assms) auto
  ultimately have "(m + 1) ^ p mod p = (1 + m ^ p) mod p" by (auto elim!: dvdE)
  also have "\<dots> = (1 + m) mod p" using Suc by (metis mod_add_right_eq)
  finally show ?case by simp
qed

lemma fermat_power:
  assumes "is_prime p"
  shows "m ^ (1 + (p - 1) * k) mod p = m mod p"
proof (induction k)
  case (Suc k)
  have p: "0 < p" using assms by (simp add: is_prime_def)
  have "1 + (p - 1) * Suc k = (p - 1) * k + p" using p by (cases p) simp_all
  then have "m ^ (1 + (p - 1) * Suc k) mod p = (m ^ ((p - 1) * k) * (m ^ p mod p)) mod p"
    by (simp only: power_add mod_mult_right_eq)
  also have "\<dots> = m ^ (1 + (p - 1) * k) mod p"
    by (simp only: fermat [OF assms] mod_mult_left_eq power_add power_one_right mult.commute)
  finally show ?case using Suc by simp
qed simp

lemma exponents_inverse:
  assumes "is_prime p" "k mod (p - 1) = 1 mod (p - 1)" "0 < k"
  shows "m ^ k mod p = m mod p"
proof -
  have "\<exists>q. k = 1 + (p - 1) * q"
    using assms(2,3) by (metis One_nat_def Suc_leI le_add_diff_inverse mod_eq_dvd_iff_nat dvdE)
  then show ?thesis using fermat_power [OF assms(1)] by auto
qed

lemma prod_list_dvd:
  assumes "distinct rs" "list_all is_prime rs" "list_all (\<lambda>r. r dvd a) rs"
  shows "prod_list rs dvd a"
  using assms
proof (induction rs)
  case (Cons r rs)
  have "coprime r (prod_list rs)" using Cons.prems(1,2)
  proof (induction rs)
    case (Cons s rs)
    have "\<not> r dvd s"
    proof
      assume "r dvd s"
      then have "r \<le> s" "2 \<le> r" using Cons.prems(2) by (auto simp: is_prime_def intro: dvd_imp_le)
      then have "r \<in> set [2..<s]" using Cons.prems(1) by auto
      then show False using \<open>r dvd s\<close> Cons.prems(2) by (auto simp: is_prime_def)
    qed
    then have "coprime r s" using Cons.prems(2) by (intro prime_coprime) auto
    then show ?case using Cons by simp
  qed simp
  then show ?case using Cons by (simp add: divides_mult)
qed simp

lemma rsa_key_pair_inverse:
  assumes "rsa_key_pair rs n e d" "m < n"
  shows "(m ^ e mod n) ^ d mod n = m"
proof -
  have pos: "0 < e" "0 < d" using assms(1) by (simp_all add: rsa_key_pair_def)
  have k: "distinct rs" "list_all is_prime rs" "n = prod_list rs" "\<And>r. r \<in> set rs \<Longrightarrow> (e * d) mod (r - 1) = 1 mod (r - 1)"
    using assms(1) by (auto simp: rsa_key_pair_def list_all_iff)
  have "m \<le> m ^ (e * d)" using pos by (cases "m = 0") (auto intro: self_le_power)
  moreover have "r dvd m ^ (e * d) - m" if r: "r \<in> set rs" for r
  proof -
    have "is_prime r" using k(2) r by (simp add: list_all_iff)
    then show ?thesis
      using exponents_inverse [of r "e * d" m] k(4) [OF r] pos \<open>m \<le> m ^ (e * d)\<close> by (simp add: mod_eq_dvd_iff_nat)
  qed
  then have "n dvd m ^ (e * d) - m" unfolding k(3) using k(1,2) by (intro prod_list_dvd) (auto simp: list_all_iff)
  ultimately have "m ^ (e * d) mod n = m mod n" by (simp add: mod_eq_dvd_iff_nat)
  then show ?thesis using assms(2) by (simp add: power_mod power_mult)
qed


section \<open>Contexts\<close>

text \<open>
  A context in use: its arrays have the sizes that \<open>rsa_alloc\<close> gives them, and
  the modulus has no leading zero byte.
\<close>

definition rsa_ok :: "rsa_context \<Rightarrow> bool" where
  "rsa_ok context \<longleftrightarrow>
     length (rsa_modulus0 context) = rsa_size context \<and> length (rsa_input0 context) = rsa_size context
     \<and> length (rsa_output0 context) = rsa_size context \<and> rsa_len context \<le> 4 * rsa_size context
     \<and> length (rsa_tmp context) = mod_exp_tmp_size (rsa_size context) (rsa_exponent_size context)
     \<and> 0 < rsa_len context \<and> rsa_len context < 2 ^ 64
     \<and> 256 ^ (rsa_len context - 1) \<le> val (rsa_modulus0 context) \<and> val (rsa_modulus0 context) < 256 ^ rsa_len context
     \<and> 0 < val (rsa_exponent0 context)"

lemma length_buffer [simp]: "length (buffer v) = 4 * length v"
  by (simp add: buffer_def length_concat comp_def sum_list_triv)

lemma length_from_buffer [simp]: "length (from_buffer bs) = length bs div 4"
  by (simp add: from_buffer_def)

lemma length_put_bytes: "put_bytes i bs buf = Some buf' \<Longrightarrow> length buf' = length buf"
  by (auto simp: put_bytes_def split: if_splits)

lemma put_bytes_append:
  assumes "i = length xs" "length bs \<le> length ys"
  shows "put_bytes i bs (xs @ ys) = Some (xs @ bs @ drop (length bs) ys)"
  using assms by (simp add: put_bytes_def)

lemma rsa_ok_buffers:
  assumes "rsa_ok context" "length x = rsa_size context" "length y = rsa_size context"
  shows "rsa_ok (context \<lparr> rsa_input0 := x, rsa_output0 := y \<rparr>)" "rsa_ok (context \<lparr> rsa_output0 := y \<rparr>)"
  using assms by (simp_all add: rsa_ok_def)

lemma rsa_cipher_val:
  assumes "rsa_ok context" "length inp = rsa_len context"
  obtains x y out where "rsa_cipher context inp = Some (context \<lparr> rsa_input0 := x, rsa_output0 := y \<rparr>, out)"
    "length x = rsa_size context" "length y = rsa_size context" "length out = rsa_len context"
    "be_val out = be_val inp ^ val (rsa_exponent0 context) mod val (rsa_modulus0 context)"
proof -
  let ?n = "rsa_size context" and ?m = "rsa_modulus0 context" and ?e = "rsa_exponent0 context"
  define tmp where "tmp = drop (?n + rsa_exponent_size context) (rsa_tmp context)"
  have ok: "length ?m = ?n" "rsa_len context \<le> 4 * ?n" "length tmp = 4 * ?n" "0 < val ?m" "0 < val ?e" "val ?m < 256 ^ rsa_len context"
    using assms(1) by (auto simp: rsa_ok_def mod_exp_tmp_size_def tmp_def intro: less_le_trans [of _ "256 ^ (rsa_len context - 1)"])
  define x where "x = bigint_init_raw ?n inp"
  have x: "val x = be_val inp" "length x = ?n" using bigint_init_val [of inp ?n] assms(2) ok(2) by (simp_all add: x_def)
  have "0 < ?n" using ok(1,4) by (cases ?m) auto
  then have i: "val (bigint_init_raw ?n [1]) = 1" "length (bigint_init_raw ?n [1]) = ?n"
    using bigint_init_val [of "[1]" ?n] by (simp_all add: be_val_def)
  obtain y where y: "mod_exp_loop ?m tmp x ?e (bigint_init_raw ?n [1]) = Some y" "length y = ?n" "val y = val x ^ val ?e mod val ?m"
    using mod_exp_loop_val [OF x(2) ok(1) i(2) ok(3,4), of ?e] ok(5) unfolding i mult_1 by auto
  have y256: "val y mod 256 ^ rsa_len context = val y" using ok(4,6) unfolding y(3) by (intro mod_less) (metis mod_less_divisor less_trans)
  have o: "be_val (bigint_done_raw y (rsa_len context)) = val y" "length (bigint_done_raw y (rsa_len context)) = rsa_len context"
    using bigint_done_val [of "rsa_len context" y] ok(2) y(2) y256 by simp_all
  show thesis
    using y(1) by (intro that [of y x "bigint_done_raw y (rsa_len context)"])
      (simp_all add: rsa_cipher_def bigint_mod_exp_raw_def tmp_def [symmetric] x_def [symmetric] x y(2,3) o)
qed

section \<open>Padding\<close>

lemma get_random_nz_skip:
  assumes "i \<le> j" "\<And>k. i \<le> k \<Longrightarrow> k < j \<Longrightarrow> rbg k = Inr 0" "rbg j = Inr b" "b \<noteq> 0"
  shows "get_random_nz rbg i (Suc n) bytes = get_random_nz rbg (j + 1) n (bytes @ [b])"
  using assms
proof (induction "j - i" arbitrary: i)
  case 0
  then show ?case by (subst get_random_nz.simps) simp
next
  case (Suc d)
  then have "get_random_nz rbg i (Suc n) bytes = get_random_nz rbg (i + 1) (Suc n) bytes"
    by (subst get_random_nz.simps) simp
  also have "\<dots> = get_random_nz rbg (j + 1) n (bytes @ [b])"
    using Suc.hyps(2) Suc.prems by (intro Suc.hyps(1)) auto
  finally show ?case .
qed

text \<open>A generator that does not fail, and does not produce zeros only from some time on.\<close>

definition rbg_live :: "(nat \<Rightarrow> u8 result) \<Rightarrow> bool" where
  "rbg_live rbg \<longleftrightarrow> (\<forall>i. \<not> isl (rbg i)) \<and> (\<forall>i. \<exists>j \<ge> i. rbg j \<noteq> Inr 0)"

lemma get_random_nz_returns:
  assumes "rbg_live rbg"
  shows "\<exists>bs. get_random_nz rbg i n bytes = Some (Inr (bytes @ bs)) \<and> length bs = n \<and> 0 \<notin> set bs"
proof (induction n arbitrary: i bytes)
  case 0
  then show ?case by (subst get_random_nz.simps) simp
next
  case (Suc n)
  define j where "j = (LEAST j. i \<le> j \<and> rbg j \<noteq> Inr 0)"
  have j: "i \<le> j" "rbg j \<noteq> Inr 0" using assms LeastI_ex [of "\<lambda>j. i \<le> j \<and> rbg j \<noteq> Inr 0"] by (auto simp: j_def rbg_live_def)
  have z: "rbg k = Inr 0" if "i \<le> k" "k < j" for k using not_less_Least [of k] that unfolding j_def by blast
  obtain b where b: "rbg j = Inr b" using assms by (cases "rbg j") (auto simp: rbg_live_def dest: spec [of _ j])
  then have "b \<noteq> 0" using j(2) by auto
  obtain bs where "get_random_nz rbg (j + 1) n (bytes @ [b]) = Some (Inr ((bytes @ [b]) @ bs))" "length bs = n" "0 \<notin> set bs"
    using Suc by blast
  then show ?case
    using get_random_nz_skip [of i j rbg b n bytes] j(1) z b \<open>b \<noteq> 0\<close> by (intro exI [of _ "b # bs"]) auto
qed


lemma be_val_zero_Cons: "be_val (0 # bs) = be_val bs"
  by (simp add: be_val_def le_val_append)

lemma encoded_less_modulus:
  assumes "rsa_ok context" "length em = rsa_len context" "em = 0 # bs"
  shows "be_val em < val (rsa_modulus0 context)"
proof -
  have "length bs = rsa_len context - 1" using assms(2,3) by (cases "rsa_len context") auto
  then show ?thesis using assms(1,3) be_val_bound [of bs] by (auto simp: rsa_ok_def be_val_zero_Cons)
qed

lemma memcmp_eq_0: "length xs = length ys \<Longrightarrow> memcmp xs ys = 0 \<longleftrightarrow> xs = ys"
  by (induction xs ys rule: list_induct2) (auto simp: word_uint_eq_iff)

text \<open>The message in an encryption block: what is behind the first zero byte of the padding.\<close>

definition pkcs1_decode :: "u8 list \<Rightarrow> u8 list result" where
  "pkcs1_decode em =
     (if take 2 em = [0x00, 0x02] \<and> 0 \<in> set (drop 2 em) then Inr (tl (dropWhile (\<lambda>b. b \<noteq> 0) (drop 2 em))) else Inl EINVAL)"

text \<open>A signature block.\<close>

definition pkcs1_signature :: "nat \<Rightarrow> u8 list \<Rightarrow> u8 list" where
  "pkcs1_signature n info = [0x00, 0x01] @ replicate (n - 3 - length info) 0xff @ [0x00] @ info"

lemma pkcs1_decode_padded: "0 \<notin> set rnd \<Longrightarrow> pkcs1_decode ([0x00, 0x02] @ rnd @ [0x00] @ msg) = Inr msg"
proof -
  assume "0 \<notin> set rnd"
  then have "dropWhile (\<lambda>b. b \<noteq> 0) (rnd @ 0 # msg) = 0 # msg" by (subst dropWhile_append2) auto
  then show ?thesis by (simp add: pkcs1_decode_def)
qed

lemma find_zero:
  assumes "k \<le> length em"
  shows "case find (\<lambda>i. em ! i = (0 :: u8)) [k..<length em] of
      None \<Rightarrow> 0 \<notin> set (drop k em)
    | Some z \<Rightarrow> 0 \<in> set (drop k em) \<and> drop (z + 1) em = tl (dropWhile (\<lambda>b. b \<noteq> 0) (drop k em))"
  using assms
proof (induction "length em - k" arbitrary: k)
  case (Suc d)
  have k: "[k..<length em] = k # [Suc k..<length em]" "drop k em = em ! k # drop (Suc k) em"
    using Suc.hyps(2) by (simp_all add: upt_conv_Cons Cons_nth_drop_Suc)
  have "d = length em - Suc k" "Suc k \<le> length em" using Suc.hyps(2) by simp_all
  from Suc.hyps(1) [OF this] show ?case unfolding k by (auto split: option.splits)
qed simp

section \<open>Encryption and decryption\<close>

lemma pad_arith:
  assumes "l + 11 \<le> n" "n < 2 ^ 64"
  shows "\<not> (of_nat l :: u64) > of_nat n - 11" "unat (of_nat n - 11 - of_nat l + 8 :: u64) = n - 3 - l"
    "unat (of_nat n - of_nat l :: u64) = n - l"
proof -
  have *: "(of_nat n - 11 :: u64) = of_nat (n - 11)" "(of_nat n - of_nat l :: u64) = of_nat (n - l)"
    "(of_nat (n - 11) - of_nat l + 8 :: u64) = of_nat (n - 3 - l)"
    using assms(1) by (simp_all add: of_nat_diff)
  have u: "unat (of_nat k :: u64) = k" if "k \<le> n" for k
    using that assms(2) by (simp add: unat_of_nat take_bit_nat_eq_self)
  have "unat (of_nat l :: u64) \<le> unat (of_nat n - 11 :: u64)"
    unfolding * by (subst (1 2) u) (use assms(1) in auto)
  then show "\<not> (of_nat l :: u64) > of_nat n - 11" by (simp only: word_less_nat_alt not_less)
  show "unat (of_nat n - 11 - of_nat l + 8 :: u64) = n - 3 - l" "unat (of_nat n - of_nat l :: u64) = n - l"
    unfolding * by (rule u, simp)+
qed

lemma rsa_encrypt_val:
  assumes "rsa_ok context" "length plaintext + 11 \<le> rsa_len context" "rbg_live rbg"
  obtains context' ciphertext rnd where "rsa_encrypt rbg context plaintext = Some (context', Inr ciphertext)"
    "length ciphertext = rsa_len context" "length rnd = rsa_len context - 3 - length plaintext" "0 \<notin> set rnd"
    "be_val ciphertext = be_val ([0x00, 0x02] @ rnd @ [0x00] @ plaintext) ^ val (rsa_exponent0 context) mod val (rsa_modulus0 context)"
proof -
  let ?n = "rsa_len context" and ?l = "length plaintext" and ?B = "buffer (rsa_output0 context)"
  obtain rnd where rnd: "get_random_nz rbg 0 (?n - 3 - ?l) [] = Some (Inr rnd)" "length rnd = ?n - 3 - ?l" "0 \<notin> set rnd"
    using get_random_nz_returns [OF assms(3), of 0 "?n - 3 - ?l" "[]"] by auto
  define em where "em = [0x00, 0x02] @ rnd @ [0x00] @ plaintext"
  have n: "?n < 2 ^ 64" "?n \<le> length ?B" "length ?B = 4 * rsa_size context" using assms(1) by (auto simp: rsa_ok_def)
  have em: "length em = ?n" using assms(2) rnd(2) by (simp add: em_def)
  note pad = pad_arith [OF assms(2) n(1)]
  have r: "?n - 3 - ?l = length rnd" "?n - ?l = length rnd + 3" "?n = length rnd + 3 + ?l" using rnd(2) assms(2) by simp_all
  have p1: "put_bytes 0 [0x00, 0x02] ?B = Some ([0x00, 0x02] @ drop 2 ?B)"
    using put_bytes_append [of 0 "[]" "[0x00, 0x02]" ?B] assms(2) n(2) by (simp add: numeral_2_eq_2)
  have p2: "put_bytes 2 rnd ([0x00, 0x02] @ drop 2 ?B) = Some (([0x00, 0x02] @ rnd) @ drop (2 + length rnd) ?B)"
    using put_bytes_append [of 2 "[0x00, 0x02]" rnd "drop 2 ?B"] assms(2) n(2) rnd(2) by (simp add: add.commute)
  have p3: "put_bytes (2 + length rnd) [0x00] (([0x00, 0x02] @ rnd) @ drop (2 + length rnd) ?B)
      = Some (([0x00, 0x02] @ rnd @ [0x00]) @ drop (3 + length rnd) ?B)"
    using put_bytes_append [of "2 + length rnd" "[0x00, 0x02] @ rnd" "[0x00]" "drop (2 + length rnd) ?B"] n(2) r(3)
    by (simp add: numeral_eq_Suc)
  have p4: "put_bytes (length rnd + 3) plaintext (([0x00, 0x02] @ rnd @ [0x00]) @ drop (3 + length rnd) ?B) = Some (em @ drop ?n ?B)"
    using put_bytes_append [of "length rnd + 3" "[0x00, 0x02] @ rnd @ [0x00]" plaintext "drop (3 + length rnd) ?B"] n(2) r(3)
    by (simp add: em_def ac_simps)
  have room: "\<not> length ([0x00, 0x02] @ drop 2 ?B) < 2 + length rnd" using n(2) r(3) by simp
  define context' where "context' = context \<lparr> rsa_output0 := from_buffer (em @ drop ?n ?B) \<rparr>"
  have c: "rsa_ok context'" "rsa_len context' = ?n" "rsa_modulus0 context' = rsa_modulus0 context" "rsa_exponent0 context' = rsa_exponent0 context"
    using rsa_ok_buffers(2) [OF assms(1)] assms(1) em n by (simp_all add: context'_def rsa_ok_def)
  obtain x y out where out: "rsa_cipher context' em = Some (context' \<lparr> rsa_input0 := x, rsa_output0 := y \<rparr>, out)"
      "length out = ?n" "be_val out = be_val em ^ val (rsa_exponent0 context) mod val (rsa_modulus0 context)"
    using rsa_cipher_val [OF c(1), of em] em unfolding c by metis
  have "rsa_encrypt rbg context plaintext = Some (context' \<lparr> rsa_input0 := x, rsa_output0 := y \<rparr>, Inr out)"
    unfolding rsa_encrypt_def Let_def pad(2,3) r(1,2) if_not_P [OF pad(1)] p1 Option.bind.simps if_not_P [OF room]
      rnd(1) [unfolded r(1)] sum.case p2 p3 p4 context'_def [symmetric]
    by (simp add: em out(1))
  then show thesis using out(2,3) rnd(2,3) by (intro that) (auto simp: em_def)
qed

lemma rsa_decrypt_val:
  assumes "rsa_ok context" "2 \<le> rsa_len context" "length ciphertext = rsa_len context" "length em = rsa_len context"
    "be_val em = be_val ciphertext ^ val (rsa_exponent0 context) mod val (rsa_modulus0 context)"
  shows "map_option snd (rsa_decrypt context ciphertext) = Some (pkcs1_decode em)"
proof -
  let ?n = "rsa_len context"
  obtain x y out where out: "rsa_cipher context ciphertext = Some (context \<lparr> rsa_input0 := x, rsa_output0 := y \<rparr>, out)"
      "length x = rsa_size context" "length out = ?n" "be_val out = be_val em"
    using rsa_cipher_val [OF assms(1,3)] assms(5) by metis
  have em: "out = em" using out(3,4) assms(4) by (simp add: be_val_inject)
  define enc where "enc = em @ drop ?n (buffer x)"
  have p: "put_bytes 0 em (buffer x) = Some enc"
    using put_bytes_append [of 0 "[]" em "buffer x"] assms(1,4) out(2) by (simp add: rsa_ok_def enc_def)
  have r: "rd enc 0 = Some (em ! 0)" "rd enc (Suc 0) = Some (em ! 1)" using assms(2,4) by (simp_all add: rd_def enc_def nth_append)
  have t: "take 2 em = [em ! 0, em ! 1]" using assms(2,4) by (cases em; cases "tl em") auto
  have f: "find (\<lambda>i. enc ! i = 0) [2..<?n] = find (\<lambda>i. em ! i = 0) [2..<length em]"
    by (rule find_cong) (auto simp: assms(4) enc_def nth_append)
  have d: "take ?n enc = em" using assms(4) by (simp add: enc_def)
  show ?thesis
    unfolding rsa_decrypt_def pkcs1_decode_def t
    using find_zero [of 2 em] assms(2,3,4) by (auto simp: Let_def out(1) em p r f d split: option.splits if_splits)
qed


section \<open>Signatures\<close>

lemma rsa_encode_digest_val:
  assumes "rsa_find_prefix prefixes digest = Some prefix" "length value = da_digestsize digest" "info = rp_data prefix @ value"
    "length info + 11 \<le> rsa_len context" "rsa_len context < 2 ^ 64" "rsa_len context \<le> length encoded"
  shows "rsa_encode_digest prefixes context digest value encoded
    = Some (Inr (pkcs1_signature (rsa_len context) info @ drop (rsa_len context) encoded))"
proof -
  let ?n = "rsa_len context"
  have l: "length (rp_data prefix) + da_digestsize digest = length info" using assms(2,3) by simp
  note pad = pad_arith [OF assms(4,5)]
  have sig: "[0x00, 0x01] @ replicate (?n - 3 - length info) 0xff @ [0x00] @ rp_data prefix @ take (da_digestsize digest) value
    = pkcs1_signature ?n info" "length (pkcs1_signature ?n info) = ?n"
    using assms(2,3,4) by (simp_all add: pkcs1_signature_def)
  have g: "\<not> (length encoded < 2 + (?n - 3 - length info) \<or> length value < da_digestsize digest)" using assms(2,4,6) by simp
  show ?thesis
    unfolding rsa_encode_digest_def assms(1) option.case Let_def l if_not_P [OF pad(1)] pad(2) if_not_P [OF g] sig(1)
    using put_bytes_append [of 0 "[]" "pkcs1_signature ?n info" encoded] assms(6) sig(2) by simp
qed

lemma length_pkcs1_signature: "length info + 11 \<le> n \<Longrightarrow> length (pkcs1_signature n info) = n"
  by (simp add: pkcs1_signature_def)

lemma rsa_sign_val:
  assumes "rsa_ok context" "rsa_find_prefix prefixes digest = Some prefix" "length value = da_digestsize digest"
    "info = rp_data prefix @ value" "length info + 11 \<le> rsa_len context"
  obtains context' signature where "rsa_sign prefixes context digest value = Some (context', Inr signature)"
    "length signature = rsa_len context"
    "be_val signature = be_val (pkcs1_signature (rsa_len context) info) ^ val (rsa_exponent0 context) mod val (rsa_modulus0 context)"
proof -
  let ?n = "rsa_len context" and ?B = "buffer (rsa_output0 context)"
  define em where "em = pkcs1_signature ?n info"
  have n: "?n < 2 ^ 64" "?n \<le> length ?B" "length ?B = 4 * rsa_size context" using assms(1) by (auto simp: rsa_ok_def)
  have em: "length em = ?n" using length_pkcs1_signature [OF assms(5)] by (simp add: em_def)
  define context' where "context' = context \<lparr> rsa_output0 := from_buffer (em @ drop ?n ?B) \<rparr>"
  have c: "rsa_ok context'" "rsa_len context' = ?n" "rsa_modulus0 context' = rsa_modulus0 context" "rsa_exponent0 context' = rsa_exponent0 context"
    using rsa_ok_buffers(2) [OF assms(1)] assms(1) em n by (simp_all add: context'_def rsa_ok_def)
  obtain x y out where out: "rsa_cipher context' em = Some (context' \<lparr> rsa_input0 := x, rsa_output0 := y \<rparr>, out)"
      "length out = ?n" "be_val out = be_val em ^ val (rsa_exponent0 context) mod val (rsa_modulus0 context)"
    using rsa_cipher_val [OF c(1), of em] em unfolding c by metis
  have "rsa_sign prefixes context digest value = Some (context' \<lparr> rsa_input0 := x, rsa_output0 := y \<rparr>, Inr out)"
    unfolding rsa_sign_def rsa_encode_digest_val [OF assms(2-5) n(1,2)] Option.bind.simps sum.case em_def [symmetric] context'_def [symmetric]
    by (simp add: em out(1))
  then show thesis using out(2,3) by (intro that) (auto simp: em_def)
qed

lemma rsa_verify_val:
  assumes "rsa_ok context" "rsa_find_prefix prefixes digest = Some prefix" "length value = da_digestsize digest"
    "info = rp_data prefix @ value" "length info + 11 \<le> rsa_len context" "length signature = rsa_len context"
  shows "map_option snd (rsa_verify prefixes context digest value signature)
    = Some (if be_val signature ^ val (rsa_exponent0 context) mod val (rsa_modulus0 context) = be_val (pkcs1_signature (rsa_len context) info)
            then Inr () else Inl EACCES_VERIFY)"
proof -
  let ?n = "rsa_len context"
  obtain x y out where out: "rsa_cipher context signature = Some (context \<lparr> rsa_input0 := x, rsa_output0 := y \<rparr>, out)"
      "length x = rsa_size context" "length y = rsa_size context" "length out = ?n"
      "be_val out = be_val signature ^ val (rsa_exponent0 context) mod val (rsa_modulus0 context)"
    using rsa_cipher_val [OF assms(1,6)] by metis
  define em where "em = pkcs1_signature ?n info"
  have em: "length em = ?n" using length_pkcs1_signature [OF assms(5)] by (simp add: em_def)
  have n: "?n < 2 ^ 64" "?n \<le> 4 * rsa_size context" using assms(1) by (auto simp: rsa_ok_def)
  define exp where "exp = out @ drop ?n (buffer x)"
  have p: "put_bytes 0 out (buffer x) = Some exp"
    using put_bytes_append [of 0 "[]" out "buffer x"] n(2) out(2,4) by (simp add: exp_def)
  define context' where "context' = context \<lparr> rsa_output0 := y, rsa_input0 := from_buffer exp \<rparr>"
  have c: "rsa_len context' = ?n" "rsa_output0 context' = y" by (simp_all add: context'_def)
  have e: "rsa_encode_digest prefixes context' digest value (buffer y) = Some (Inr (em @ drop ?n (buffer y)))"
    using rsa_encode_digest_val [OF assms(2-4), of context' "buffer y"] assms(5) n out(3) unfolding c em_def by simp
  have t: "take ?n exp = out" using out(4) by (simp add: exp_def)
  have m: "memcmp em out = 0 \<longleftrightarrow> be_val out = be_val em"
    using em out(4) by (simp add: memcmp_eq_0 be_val_inject) (metis be_val_inject)
  show ?thesis
    unfolding rsa_verify_def em_def [symmetric] out(5) [symmetric]
    by (simp add: assms(6) out(1) p Let_def context'_def [symmetric] c e t m em)
qed


section \<open>Parsing keys\<close>

lemma rsa_parse_integer_within:
  assumes "cursor_ok mem c"
  obtains r where "rsa_parse_integer mem c = Some r" "\<And>i. r = Inr i \<Longrightarrow> within i c \<and> 0 < ac_len i"
proof -
  obtain c' rc where e: "asn1_enter mem c ASN1_INTEGER = Some (c', rc)" "within c' c" by (rule asn1_enter_within [OF assms])
  have r: "0 < ac_len c' \<Longrightarrow> rd mem (ac_data c') = Some (mem ! ac_data c')" using rd_ok [OF within_ok [OF e(2) assms]] by simp
  show thesis
  proof (cases "ac_len c' > 1")
    case True
    with r e(2) show thesis by (intro that) (auto simp: rsa_parse_integer_def e(1) Let_def within_def split: if_splits)
  next
    case False
    with e(2) show thesis by (intro that) (auto simp: rsa_parse_integer_def e(1) Let_def split: if_splits)
  qed
qed

lemma rsa_parse_tail_within:
  assumes "cursor_ok mem c"
  obtains r where "(do {
      modulus \<leftarrow> rsa_parse_integer mem c;
      case modulus of
        Inl rc \<Rightarrow> Some (Inl rc)
      | Inr modulus \<Rightarrow> do {
          (cursor, _) \<leftarrow> asn1_skip_any mem c;
          cursor \<leftarrow> (if is_private then map_option fst (asn1_skip mem cursor ASN1_INTEGER) else Some cursor);
          exponent \<leftarrow> rsa_parse_integer mem cursor;
          case exponent of Inl rc \<Rightarrow> Some (Inl rc) | Inr exponent \<Rightarrow> Some (Inr (modulus, exponent))
        }
    }) = Some r" "\<And>m e. r = Inr (m, e) \<Longrightarrow> within m c \<and> 0 < ac_len m \<and> within e c \<and> 0 < ac_len e"
proof -
  obtain r1 where r1: "rsa_parse_integer mem c = Some r1" "\<And>i. r1 = Inr i \<Longrightarrow> within i c \<and> 0 < ac_len i"
    using rsa_parse_integer_within [OF assms] by metis
  obtain c1 rc1 where s1: "asn1_skip mem c ASN1_ANY = Some (c1, rc1)" "within c1 c" by (rule asn1_skip_within [OF assms])
  obtain c2 rc2 where s2: "asn1_skip mem c1 ASN1_INTEGER = Some (c2, rc2)" "within c2 c1"
    by (rule asn1_skip_within [OF within_ok [OF s1(2) assms]])
  define c3 where "c3 = (if is_private then c2 else c1)"
  have c3: "within c3 c" using s1(2) within_trans [OF s2(2) s1(2)] by (simp add: c3_def)
  have sel: "(if is_private then map_option fst (asn1_skip mem c1 ASN1_INTEGER) else Some c1) = Some c3" by (simp add: c3_def s2(1))
  obtain r3 where r3: "rsa_parse_integer mem c3 = Some r3" "\<And>i. r3 = Inr i \<Longrightarrow> within i c3 \<and> 0 < ac_len i"
    using rsa_parse_integer_within [OF within_ok [OF c3 assms]] by metis
  note run = r1(1) asn1_skip_any_def s1(1) Option.bind.simps prod.case sel r3(1)
  show thesis
  proof (cases r1)
    case (Inl rc)
    show thesis by (rule that [of "Inl rc"]) (simp_all only: run Inl sum.case sum.distinct)
  next
    case (Inr m)
    note m = r1(2) [OF Inr]
    show thesis
    proof (cases r3)
      case (Inl rc)
      show thesis by (rule that [of "Inl rc"]) (simp_all only: run \<open>r1 = Inr m\<close> Inl sum.case sum.distinct)
    next
      case (Inr e)
      have "within e c" using r3(2) [OF Inr] within_trans [OF _ c3] by blast
      then show thesis using m r3(2) [OF Inr]
        by (intro that [of "Inr (m, e)"]) (simp_all only: run \<open>r1 = Inr m\<close> Inr sum.case sum.inject prod.inject)
    qed
  qed
qed

lemma rsa_parse_mod_exp_within:
  assumes "cursor_ok mem c"
  obtains r where "rsa_parse_mod_exp mem c = Some r"
    "\<And>m e. r = Inr (m, e) \<Longrightarrow> within m c \<and> 0 < ac_len m \<and> within e c \<and> 0 < ac_len e"
proof -
  obtain c1 rc1 where e1: "asn1_enter mem c ASN1_SEQUENCE = Some (c1, rc1)" "within c1 c" by (rule asn1_enter_within [OF assms])
  note ok1 = within_ok [OF e1(2) assms]
  obtain type where type: "asn1_type mem c1 = Some type"
    using rd_ok [OF ok1, of "ac_data c1"] by (cases "0 < ac_len c1") (auto simp: asn1_type_def)
  obtain c2 rc2 where s2: "asn1_skip mem c1 ASN1_ANY = Some (c2, rc2)" "within c2 c1" by (rule asn1_skip_within [OF ok1])
  obtain c3 rc3 where s3: "asn1_skip mem c1 ASN1_SEQUENCE = Some (c3, rc3)" "within c3 c1" by (rule asn1_skip_within [OF ok1])
  note ok3 = within_ok [OF s3(2) ok1]
  obtain b where b: "asn1_bit_string mem c3 = Some b"
      "\<And>bits. b = Inr bits \<Longrightarrow> within \<lparr> ac_data = bits_data bits, ac_len = bits_len bits \<rparr> c3"
    by (rule asn1_bit_string_ok [OF ok3]) blast
  define is_private where "is_private = (type = ASN1_INTEGER)"
  obtain entered where en: "(if is_private
       then do { (cursor, _) \<leftarrow> asn1_skip_any mem c1; Some (Inr cursor) }
       else do {
         (cursor, _) \<leftarrow> asn1_skip mem c1 ASN1_SEQUENCE;
         bits \<leftarrow> asn1_integral_bit_string mem cursor;
         case bits of
           Inl rc \<Rightarrow> Some (Inl rc)
         | Inr bits \<Rightarrow> do {
             (cursor, _) \<leftarrow> asn1_enter mem \<lparr> ac_data = bits_data bits, ac_len = bits_len bits \<rparr> ASN1_SEQUENCE;
             Some (Inr cursor)
           }
       }) = Some entered" "\<And>c'. entered = Inr c' \<Longrightarrow> within c' c"
  proof (cases "is_private \<or> (\<exists>rc. b = Inl rc) \<or> (\<exists>bits. b = Inr bits \<and> bits_unused bits \<noteq> 0)")
    case True
    note run = asn1_skip_any_def s2(1) s3(1) asn1_integral_bit_string_def b(1)
    show thesis
    proof (cases is_private)
      case True
      then show thesis using within_trans [OF s2(2) e1(2)] by (intro that [of "Inr c2"]) (auto simp: run)
    next
      case False
      with True show thesis by (cases b; intro that [of "Inl (case b of Inl rc \<Rightarrow> rc | Inr _ \<Rightarrow> EINVAL_BIT_STRING)"]) (auto simp: run)
    qed
  next
    case False
    then obtain bits where bits: "b = Inr bits" "bits_unused bits = 0" by (cases b) auto
    obtain c4 rc4 where e4: "asn1_enter mem \<lparr> ac_data = bits_data bits, ac_len = bits_len bits \<rparr> ASN1_SEQUENCE = Some (c4, rc4)"
        "within c4 \<lparr> ac_data = bits_data bits, ac_len = bits_len bits \<rparr>"
      by (rule asn1_enter_within [OF within_ok [OF b(2) [OF bits(1)] ok3]])
    have "within c4 c" using within_trans [OF within_trans [OF e4(2) b(2) [OF bits(1)]] within_trans [OF s3(2) e1(2)]] .
    then show thesis using False bits by (intro that) (auto simp: s3(1) asn1_integral_bit_string_def b(1) e4(1))
  qed
  show thesis
  proof (cases entered)
    case (Inl rc)
    then show thesis
      by (intro that) (simp_all only: rsa_parse_mod_exp_def e1(1) type Let_def is_private_def [symmetric] en(1) Option.bind.simps prod.case sum.case, auto)
  next
    case (Inr c')
    note w = en(2) [OF Inr]
    show thesis
      by (rule rsa_parse_tail_within [OF within_ok [OF w assms], of is_private], rule that,
          simp only: rsa_parse_mod_exp_def e1(1) type Let_def is_private_def [symmetric] en(1) Inr Option.bind.simps prod.case sum.case)
        (use within_trans [OF _ w] in \<open>simp add: within_trans [OF _ w]\<close>)
  qed
qed


text \<open>An allocator that returns what was asked for.\<close>

definition alloc_ok :: "(nat \<Rightarrow> u32 list option) \<Rightarrow> bool" where
  "alloc_ok allocate \<longleftrightarrow> (\<forall>n d. allocate n = Some d \<longrightarrow> length d = n)"

abbreviation whole :: "u8 list \<Rightarrow> asn1_cursor" where
  "whole key \<equiv> \<lparr> ac_data = 0, ac_len = length key \<rparr>"

definition contents :: "u8 list \<Rightarrow> asn1_cursor \<Rightarrow> u8 list" where
  "contents key c = take (ac_len c) (drop (ac_data c) key)"

lemma contents_within:
  assumes "within c (whole key)"
  shows "rd_bytes key (ac_data c) (ac_len c) = Some (contents key c)" "length (contents key c) = ac_len c" "ac_len c \<le> length key"
  using assms by (simp_all add: within_def rd_bytes_def contents_def)

lemma required_size: "n \<le> 4 * bigint_required_size n"
  unfolding bigint_required_size_def by simp

lemma rsa_alloc_val:
  assumes "alloc_ok allocate" "rsa_alloc allocate rsa_zero n m = (context, rc)"
  shows "case rc of
      Inl _ \<Rightarrow> \<not> rsa_dynamic context
    | Inr _ \<Rightarrow> rsa_dynamic context \<and> rsa_len context = n \<and> rsa_size context = bigint_required_size n
        \<and> rsa_exponent_size context = bigint_required_size m
        \<and> length (rsa_input0 context) = rsa_size context \<and> length (rsa_output0 context) = rsa_size context
        \<and> length (rsa_tmp context) = mod_exp_tmp_size (rsa_size context) (rsa_exponent_size context)"
  using assms by (auto simp: rsa_alloc_def alloc_ok_def Let_def rsa_free_def rsa_zero_def split: option.splits)

lemma rsa_init_val:
  assumes "alloc_ok allocate"
  obtains ctx rc where "rsa_init allocate key = Some (ctx, rc)" "rc \<noteq> Inr () \<Longrightarrow> \<not> rsa_dynamic ctx"
    "rc = Inr () \<Longrightarrow> \<exists>m e. rsa_parse_mod_exp key (whole key) = Some (Inr (m, e))
      \<and> within m (whole key) \<and> within e (whole key) \<and> rsa_len ctx = ac_len m
      \<and> val (rsa_modulus0 ctx) = be_val (contents key m) \<and> val (rsa_exponent0 ctx) = be_val (contents key e)
      \<and> (length key < 2 ^ 64 \<and> 256 ^ (rsa_len ctx - 1) \<le> val (rsa_modulus0 ctx) \<and> 0 < val (rsa_exponent0 ctx)
          \<longrightarrow> rsa_ok ctx)"
proof -
  have w: "cursor_ok key (whole key)" by (simp add: cursor_ok_def)
  obtain r where r: "rsa_parse_mod_exp key (whole key) = Some r"
      "\<And>m e. r = Inr (m, e) \<Longrightarrow> within m (whole key) \<and> 0 < ac_len m \<and> within e (whole key) \<and> 0 < ac_len e"
    by (rule rsa_parse_mod_exp_within [OF w]) blast
  show thesis
  proof (cases r)
    case (Inl rc)
    then show thesis by (intro that [of rsa_zero "Inl rc"]) (simp_all add: rsa_init_def r(1) Let_def, simp add: rsa_zero_def)
  next
    case (Inr me)
    obtain m e where me: "me = (m, e)" by (cases me)
    note b = r(2) [OF Inr [unfolded me]]
    note cm = contents_within [OF conjunct1 [OF b]] and ce = contents_within [of e key]
    obtain c rc where a: "rsa_alloc allocate rsa_zero (ac_len m) (ac_len e) = (c, rc)" by (cases "rsa_alloc allocate rsa_zero (ac_len m) (ac_len e)")
    note av = rsa_alloc_val [OF assms a]
    show thesis
    proof (cases rc)
      case (Inl x)
      then show thesis using Inr me a av by (intro that [of c "Inl x"]) (simp_all add: rsa_init_def r(1) Let_def)
    next
      case Inr': (Inr u)
      define c' where "c' = c \<lparr> rsa_modulus0 := bigint_init_raw (rsa_size c) (contents key m),
        rsa_exponent0 := bigint_init_raw (rsa_exponent_size c) (contents key e) \<rparr>"
      have i: "rsa_init allocate key = Some (c', Inr ())"
        using Inr me a Inr' cm(1) ce(1) b by (simp add: rsa_init_def r(1) Let_def c'_def)
      have v: "val (rsa_modulus0 c') = be_val (contents key m)" "val (rsa_exponent0 c') = be_val (contents key e)"
          "length (rsa_modulus0 c') = rsa_size c"
        using bigint_init_val [of "contents key m" "rsa_size c"] bigint_init_val [of "contents key e" "rsa_exponent_size c"]
          av Inr' cm(2) ce(2) b required_size [of "ac_len m"] required_size [of "ac_len e"] by (simp_all add: c'_def)
      have f: "rsa_len c' = rsa_len c" "rsa_size c' = rsa_size c" "rsa_exponent_size c' = rsa_exponent_size c"
          "rsa_input0 c' = rsa_input0 c" "rsa_output0 c' = rsa_output0 c" "rsa_tmp c' = rsa_tmp c"
        by (simp_all add: c'_def)
      have "rsa_ok c'" if "length key < 2 ^ 64" "256 ^ (rsa_len c' - 1) \<le> val (rsa_modulus0 c')" "0 < val (rsa_exponent0 c')"
        using that v(3) be_val_bound [of "contents key m"] cm(2,3) b av Inr' required_size [of "ac_len m"] unfolding v(1)
        by (simp add: rsa_ok_def v f)
      then show thesis using b av Inr' r(1) Inr me v by (intro that [OF i]) (auto simp: f)
    qed
  qed
qed

lemma rsa_match_val:
  assumes "rsa_match private_key public_key = Some (Inr ())" "length private_key < 2 ^ 32" "length public_key < 2 ^ 32"
    "rsa_parse_mod_exp private_key (whole private_key) = Some (Inr (m, e))" "within m (whole private_key)"
    "rsa_parse_mod_exp public_key (whole public_key) = Some (Inr (m', e'))" "within m' (whole public_key)"
  shows "contents private_key m = contents public_key m'" "ac_len m = ac_len m'"
proof -
  have cmp: "asn1_compare private_key m public_key m' = Some 0"
    using assms(1) unfolding rsa_match_def assms(4,6) by (auto split: bind_splits if_splits)
  have "(word_of_int (int (ac_len m') - int (ac_len m)) :: u32) = 0"
    using cmp unfolding asn1_compare_def Let_def by (auto split: if_splits bind_splits simp: signed_eq_0_iff)
  then have "(of_nat (ac_len m') :: u32) = of_nat (ac_len m)" by simp
  then have "unat (of_nat (ac_len m') :: u32) = unat (of_nat (ac_len m) :: u32)" by simp
  then show l: "ac_len m = ac_len m'"
    using contents_within(3) [OF assms(5)] contents_within(3) [OF assms(7)] assms(2,3) by (simp add: unat_of_nat_u32)
  show "contents private_key m = contents public_key m'"
    using cmp contents_within(1,2) [OF assms(5)] contents_within(1,2) [OF assms(7)]
    by (simp add: asn1_compare_def l memcmp_eq_0)
qed


section \<open>Properties\<close>

lemma rsa_init_success:
  assumes "alloc_ok allocate" "rsa_init allocate key = Some (ctx, Inr ())"
  shows "\<exists>m e. rsa_parse_mod_exp key (whole key) = Some (Inr (m, e)) \<and> within m (whole key) \<and> rsa_len ctx = ac_len m
    \<and> val (rsa_modulus0 ctx) = be_val (contents key m)
    \<and> (length key < 2 ^ 64 \<and> 256 ^ (rsa_len ctx - 1) \<le> val (rsa_modulus0 ctx) \<and> 0 < val (rsa_exponent0 ctx)
        \<longrightarrow> rsa_ok ctx)"
proof (rule rsa_init_val [OF assms(1), of key])
  fix ctx' rc
  assume "rsa_init allocate key = Some (ctx', rc)"
  then have "ctx' = ctx" "rc = Inr ()" using assms(2) by simp_all
  moreover assume "rc = Inr () \<Longrightarrow> \<exists>m e. rsa_parse_mod_exp key (whole key) = Some (Inr (m, e))
      \<and> within m (whole key) \<and> within e (whole key) \<and> rsa_len ctx' = ac_len m
      \<and> val (rsa_modulus0 ctx') = be_val (contents key m) \<and> val (rsa_exponent0 ctx') = be_val (contents key e)
      \<and> (length key < 2 ^ 64 \<and> 256 ^ (rsa_len ctx' - 1) \<le> val (rsa_modulus0 ctx') \<and> 0 < val (rsa_exponent0 ctx')
          \<longrightarrow> rsa_ok ctx')"
  ultimately show ?thesis by blast
qed

lemma rsa_key_pair_sym: "rsa_key_pair rs n e d \<longleftrightarrow> rsa_key_pair rs n d e"
  by (auto simp: rsa_key_pair_def mult.commute)


text \<open>
  C6: decryption inverts encryption.  With contexts made from a public and a
  private key that \<open>rsa_match\<close> accepts, whose exponents are a key pair for a
  modulus without a leading zero byte, and a generator of random bytes that does
  not fail and does not produce only zeros for ever: every plaintext that leaves room for the padding is encrypted
  to a ciphertext as long as the modulus, and decrypting that returns the
  plaintext.
\<close>

theorem rsa_decrypts_encrypted:
  assumes "alloc_ok allocate" "length public_key < 2 ^ 32" "length private_key < 2 ^ 32"
    "rsa_init allocate public_key = Some (pub, Inr ())" "rsa_init allocate private_key = Some (prv, Inr ())"
    "rsa_match private_key public_key = Some (Inr ())"
    "rsa_key_pair rs (val (rsa_modulus0 pub)) (val (rsa_exponent0 pub)) (val (rsa_exponent0 prv))"
    "256 ^ (rsa_len pub - 1) \<le> val (rsa_modulus0 pub)" "rbg_live rbg" "length plaintext + 11 \<le> rsa_max_len pub"
  shows "\<exists>pub' ciphertext. rsa_encrypt rbg pub plaintext = Some (pub', Inr ciphertext)
    \<and> length ciphertext = rsa_max_len pub \<and> map_option snd (rsa_decrypt prv ciphertext) = Some (Inr plaintext)"
proof -
  obtain m e where pub: "rsa_parse_mod_exp public_key (whole public_key) = Some (Inr (m, e))" "within m (whole public_key)"
      "rsa_len pub = ac_len m" "val (rsa_modulus0 pub) = be_val (contents public_key m)"
      "length public_key < 2 ^ 64 \<and> 256 ^ (rsa_len pub - 1) \<le> val (rsa_modulus0 pub) \<and> 0 < val (rsa_exponent0 pub) \<longrightarrow> rsa_ok pub"
    using rsa_init_success [OF assms(1,4)] by blast
  obtain m' e' where prv: "rsa_parse_mod_exp private_key (whole private_key) = Some (Inr (m', e'))" "within m' (whole private_key)"
      "rsa_len prv = ac_len m'" "val (rsa_modulus0 prv) = be_val (contents private_key m')"
      "length private_key < 2 ^ 64 \<and> 256 ^ (rsa_len prv - 1) \<le> val (rsa_modulus0 prv) \<and> 0 < val (rsa_exponent0 prv) \<longrightarrow> rsa_ok prv"
    using rsa_init_success [OF assms(1,5)] by blast
  have same: "val (rsa_modulus0 prv) = val (rsa_modulus0 pub)" "rsa_len prv = rsa_len pub"
    using rsa_match_val [OF assms(6,3,2) prv(1,2) pub(1,2)] pub(3,4) prv(3,4) by simp_all
  have ok: "rsa_ok pub" "rsa_ok prv"
    using pub(5) prv(5) assms(2,3,7,8) by (simp_all add: rsa_key_pair_def same)
  have len: "length plaintext + 11 \<le> rsa_len pub" using assms(10) by (simp add: rsa_max_len_def)
  obtain pub' c rnd where c: "rsa_encrypt rbg pub plaintext = Some (pub', Inr c)" "length c = rsa_len pub"
      "length rnd = rsa_len pub - 3 - length plaintext" "0 \<notin> set rnd"
      "be_val c = be_val ([0x00, 0x02] @ rnd @ [0x00] @ plaintext) ^ val (rsa_exponent0 pub) mod val (rsa_modulus0 pub)"
    by (rule rsa_encrypt_val [OF ok(1) len assms(9)])
  define em where "em = [0x00, 0x02] @ rnd @ [0x00] @ plaintext"
  have em: "length em = rsa_len pub" using c(3) len by (simp add: em_def)
  have "be_val em < val (rsa_modulus0 pub)" by (rule encoded_less_modulus [OF ok(1) em, of "0x02 # rnd @ [0x00] @ plaintext"]) (simp add: em_def)
  from rsa_key_pair_inverse [OF assms(7) this] have "be_val em = be_val c ^ val (rsa_exponent0 prv) mod val (rsa_modulus0 prv)"
    unfolding c(5) same em_def by simp
  then have "map_option snd (rsa_decrypt prv c) = Some (pkcs1_decode em)"
    using len c(2) em same(2) by (intro rsa_decrypt_val [OF ok(2)]) simp_all
  then show ?thesis using c(1,2) pkcs1_decode_padded [OF c(4), of plaintext] by (auto simp: em_def rsa_max_len_def)
qed

text \<open>
  C7: verification of signatures.  A signature of the right length is accepted
  exactly if its power is the padded digestInfo, otherwise the result is the
  error of a wrong signature; any other length is a range error.  A signature
  made with the private exponent of a key pair is accepted, and no signature is
  accepted for two different digest values.
\<close>

theorem rsa_verify_correct:
  fixes digest :: "'c digest_algorithm"
  assumes "rsa_ok pub" "rsa_find_prefix prefixes digest = Some prefix" "length value = da_digestsize digest"
    "length (rp_data prefix @ value) + 11 \<le> rsa_len pub"
  defines "em \<equiv> pkcs1_signature (rsa_len pub) (rp_data prefix @ value)"
  shows "(\<forall>signature. map_option snd (rsa_verify prefixes pub digest value signature) = Some
      (if length signature \<noteq> rsa_len pub then Inl ERANGE
       else if be_val signature ^ val (rsa_exponent0 pub) mod val (rsa_modulus0 pub) = be_val em then Inr ()
       else Inl EACCES_VERIFY))
    \<and> (\<forall>prv rs. rsa_ok prv \<and> rsa_modulus0 prv = rsa_modulus0 pub \<and> rsa_len prv = rsa_len pub
        \<and> rsa_key_pair rs (val (rsa_modulus0 pub)) (val (rsa_exponent0 pub)) (val (rsa_exponent0 prv))
        \<longrightarrow> (\<exists>prv' signature. rsa_sign prefixes prv digest value = Some (prv', Inr signature) \<and> length signature = rsa_len pub
            \<and> map_option snd (rsa_verify prefixes pub digest value signature) = Some (Inr ())))
    \<and> (\<forall>value' signature. length value' = da_digestsize digest
        \<and> map_option snd (rsa_verify prefixes pub digest value signature) = Some (Inr ())
        \<and> map_option snd (rsa_verify prefixes pub digest value' signature) = Some (Inr ()) \<longrightarrow> value' = value)"
proof -
  have v: "map_option snd (rsa_verify prefixes pub digest x signature) = Some
      (if length signature \<noteq> rsa_len pub then Inl ERANGE
       else if be_val signature ^ val (rsa_exponent0 pub) mod val (rsa_modulus0 pub) = be_val (pkcs1_signature (rsa_len pub) (rp_data prefix @ x))
       then Inr () else Inl EACCES_VERIFY)"
    if "length x = da_digestsize digest" for x signature
  proof (cases "length signature = rsa_len pub")
    case True
    have l: "length (rp_data prefix @ x) + 11 \<le> rsa_len pub" using assms(3,4) that by simp
    show ?thesis unfolding rsa_verify_val [OF assms(1,2) that refl l True] using True by simp
  qed (simp add: rsa_verify_def)
  have s: "\<exists>prv' signature. rsa_sign prefixes prv digest value = Some (prv', Inr signature) \<and> length signature = rsa_len pub
      \<and> map_option snd (rsa_verify prefixes pub digest value signature) = Some (Inr ())"
    if k: "rsa_ok prv" "rsa_modulus0 prv = rsa_modulus0 pub" "rsa_len prv = rsa_len pub"
      "rsa_key_pair rs (val (rsa_modulus0 pub)) (val (rsa_exponent0 pub)) (val (rsa_exponent0 prv))" for prv rs
  proof -
    obtain prv' sig where sig: "rsa_sign prefixes prv digest value = Some (prv', Inr sig)" "length sig = rsa_len pub"
        "be_val sig = be_val em ^ val (rsa_exponent0 prv) mod val (rsa_modulus0 pub)"
      using rsa_sign_val [OF k(1) assms(2,3) refl] assms(4) unfolding k(2,3) em_def by metis
    have em: "length em = rsa_len pub" using length_pkcs1_signature [OF assms(4)] by (simp add: em_def)
    have "be_val em < val (rsa_modulus0 pub)"
      by (rule encoded_less_modulus [OF assms(1) em, of "tl em"]) (simp add: em_def pkcs1_signature_def)
    from rsa_key_pair_inverse [OF k(4) [unfolded rsa_key_pair_sym [of _ _ "val (rsa_exponent0 pub)"]] this]
    have "be_val sig ^ val (rsa_exponent0 pub) mod val (rsa_modulus0 pub) = be_val em" unfolding sig(3) .
    then show ?thesis using sig(1,2) v [OF assms(3), of sig] by (simp add: em_def)
  qed
  have u: "value' = value"
    if "length value' = da_digestsize digest" "map_option snd (rsa_verify prefixes pub digest value signature) = Some (Inr ())"
      "map_option snd (rsa_verify prefixes pub digest value' signature) = Some (Inr ())" for value' signature
  proof -
    have "be_val (pkcs1_signature (rsa_len pub) (rp_data prefix @ value')) = be_val (pkcs1_signature (rsa_len pub) (rp_data prefix @ value))"
      using that(2,3) unfolding v [OF assms(3)] v [OF that(1)] by (simp split: if_splits)
    then show ?thesis using assms(3,4) that(1) by (simp add: be_val_inject length_pkcs1_signature) (simp add: pkcs1_signature_def)
  qed
  show ?thesis unfolding em_def using v [OF assms(3)] s u by blast
qed


definition example_public_key :: "u8 list" where
  "example_public_key =
     [0x30, 0x27, 0x30, 0x0d, 0x06, 0x09, 0x2a, 0x86, 0x48, 0x86, 0xf7, 0x0d, 0x01, 0x01, 0x01, 0x05,
      0x00, 0x03, 0x16, 0x00, 0x30, 0x13, 0x02, 0x0c, 0x26, 0x79, 0x42, 0x5f, 0x1f, 0x72, 0x12, 0x91,
      0x8e, 0xc0, 0x9d, 0x2b, 0x02, 0x03, 0x01, 0x00, 0x01]"

definition example_private_key :: "u8 list" where
  "example_private_key =
     [0x30, 0x1f, 0x02, 0x01, 0x00, 0x02, 0x0c, 0x26, 0x79, 0x42, 0x5f, 0x1f, 0x72, 0x12, 0x91, 0x8e,
      0xc0, 0x9d, 0x2b, 0x02, 0x03, 0x01, 0x00, 0x01, 0x02, 0x07, 0x02, 0xe0, 0x8c, 0xcd, 0x2a, 0xd7,
      0x41]"

definition example_allocate :: "nat \<Rightarrow> u32 list option" where
  "example_allocate n = Some (replicate n 0)"

definition example_pub :: rsa_context where
  "example_pub = \<lparr> rsa_dynamic = True, rsa_modulus0 = [0x8ec09d2b, 0x1f721291, 0x2679425f], rsa_size = 3, rsa_len = 12,
     rsa_exponent0 = [0x00010001], rsa_exponent_size = 1, rsa_input0 = [0, 0, 0], rsa_output0 = [0, 0, 0], rsa_tmp = replicate 16 0 \<rparr>"

definition example_prv :: rsa_context where
  "example_prv = \<lparr> rsa_dynamic = True, rsa_modulus0 = [0x8ec09d2b, 0x1f721291, 0x2679425f], rsa_size = 3, rsa_len = 12,
     rsa_exponent0 = [0xcd2ad741, 0x0002e08c], rsa_exponent_size = 2, rsa_input0 = [0, 0, 0], rsa_output0 = [0, 0, 0], rsa_tmp = replicate 17 0 \<rparr>"

lemma example_pub_init: "rsa_init example_allocate example_public_key = Some (example_pub, Inr ())"
  by code_simp

lemma example_prv_init: "rsa_init example_allocate example_private_key = Some (example_prv, Inr ())"
  by code_simp

lemma example_match: "rsa_match example_private_key example_public_key = Some (Inr ())"
  by code_simp


lemma is_prime_sqrt:
  assumes "2 \<le> p" "p < m * m" "\<forall>k \<in> set [2..<m]. \<not> k dvd p"
  shows "is_prime p"
proof -
  have "\<not> k dvd p" if k: "2 \<le> k" "k < p" for k
  proof
    assume "k dvd p"
    then obtain q where q: "p = k * q" by (rule dvdE)
    have "2 \<le> q" using k q by (cases q; cases "q - 1") auto
    have "k < m \<or> q < m" using q assms(2) mult_le_mono [of m k m q] by linarith
    then show False using bspec [OF assms(3), of k] bspec [OF assms(3), of q] q k(1) \<open>2 \<le> q\<close> by auto
  qed
  then show ?thesis using assms(1) by (simp add: is_prime_def)
qed

lemma example_primes: "list_all is_prime
   [409, 401, 397, 389, 383, 379, 373, 367, 359, 353, 349, 347, 337, 331, 317, 313, 311, 307, 293, 283, 281, 277,
    271, 269, 263, 257, 251, 241, 239, 233, 229, 227, 223, 211, 199, 197, 193, 191, 181, 179, 173, 167, 163, 157]"
proof -
  let ?check = "\<lambda>p :: nat. 2 \<le> p \<and> p < 21 * 21 \<and> list_all (\<lambda>k. p mod k \<noteq> 0) [2..<21]"
  have *: "?check p \<Longrightarrow> is_prime p" for p
    by (rule is_prime_sqrt [of p 21]) (auto simp: list_all_iff dvd_eq_mod_eq_0)
  have "list_all ?check
   [409, 401, 397, 389, 383, 379, 373, 367, 359, 353, 349, 347, 337, 331, 317, 313, 311, 307, 293, 283, 281, 277,
    271, 269, 263, 257, 251, 241, 239, 233, 229, 227, 223, 211, 199, 197, 193, 191, 181, 179, 173, 167, 163, 157]"
    by code_simp
  then show ?thesis by (rule list.pred_mono_strong) (rule *)
qed

lemma example_key_pair:
  "rsa_key_pair [251, 241, 239, 233, 229, 227, 223, 211, 199, 197, 193, 191] (val (rsa_modulus0 example_pub))
     (val (rsa_exponent0 example_pub)) (val (rsa_exponent0 example_prv))"
  using example_primes by (simp add: rsa_key_pair_def example_pub_def example_prv_def)

lemma example_rbg: "rbg_live (\<lambda>i. Inr (of_nat i))"
proof -
  have "unat (of_nat (256 * i + 1) :: u8) = 1" for i unfolding unat_of_nat_u8 by simp
  then have "(of_nat (256 * i + 1) :: u8) \<noteq> 0" for i by (metis unat_0 zero_neq_one)
  then have "\<exists>j \<ge> i. (Inr (of_nat j) :: u8 result) \<noteq> Inr 0" for i
    by (intro exI [of _ "256 * i + 1"]) (simp only: sum.inject, simp)
  then show ?thesis by (simp add: rbg_live_def)
qed

theorem rsa_decrypts_encrypted_witness:
  "\<exists>pub' ciphertext. rsa_encrypt (\<lambda>i. Inr (of_nat i)) example_pub [0x42] = Some (pub', Inr ciphertext)
    \<and> length ciphertext = 12 \<and> map_option snd (rsa_decrypt example_prv ciphertext) = Some (Inr [0x42])"
proof -
  have a: "alloc_ok example_allocate" by (simp add: alloc_ok_def example_allocate_def)
  have l: "length example_public_key < 2 ^ 32" "length example_private_key < 2 ^ 32"
    by (simp_all add: example_public_key_def example_private_key_def)
  have n: "256 ^ (rsa_len example_pub - 1) \<le> val (rsa_modulus0 example_pub)" "rsa_max_len example_pub = 12"
    by (simp_all add: example_pub_def rsa_max_len_def)
  show ?thesis
    using rsa_decrypts_encrypted [OF a l example_pub_init example_prv_init example_match example_key_pair n(1) example_rbg, of "[0x42]"]
    by (simp add: n(2))
qed


definition example_signer :: "u32 list \<Rightarrow> nat \<Rightarrow> rsa_context" where
  "example_signer exponent n = \<lparr> rsa_dynamic = True, rsa_modulus0 =
     [0x722b8cf3, 0x97328fe5, 0x25bbf570, 0x05b9feb9, 0x508df5da, 0xba2ba3f8,
      0xb49b7295, 0x1c137a6d, 0x33641392, 0x0f6d41fd, 0x11f58868, 0x00000008],
     rsa_size = 12, rsa_len = 45, rsa_exponent0 = exponent, rsa_exponent_size = n,
     rsa_input0 = replicate 12 0, rsa_output0 = replicate 12 0, rsa_tmp = replicate (60 + n) 0 \<rparr>"

lemma example_signer_ok: "0 < val exponent \<Longrightarrow> rsa_ok (example_signer exponent n)"
  by (simp add: rsa_ok_def example_signer_def mod_exp_tmp_size_def)

lemma example_signer_pair:
  "rsa_key_pair
     [409, 401, 397, 389, 383, 379, 373, 367, 359, 353, 349, 347, 337, 331, 317, 313, 311, 307, 293, 283,
      281, 277, 271, 269, 263, 257, 251, 241, 239, 233, 229, 227, 223, 211, 199, 197, 193, 191, 181, 179,
      173, 167, 163, 157]
     (val (rsa_modulus0 (example_signer [0x00010001] 1))) (val [0x00010001])
     (val [0xf7d44c01, 0x2cbf2a0f, 0x660bc14b, 0x4b134457, 0x01c016f0])"
  using example_primes by (simp add: rsa_key_pair_def example_signer_def)

lemma md5_prefix: "rsa_find_prefix rsa_digestinfo_prefixes md5_algorithm = Some rsa_md5_prefix"
  by (simp add: rsa_digestinfo_prefixes_def rsa_md5_prefix_def)

theorem rsa_verify_correct_witness:
  "\<exists>prv' signature. rsa_sign rsa_digestinfo_prefixes (example_signer [0xf7d44c01, 0x2cbf2a0f, 0x660bc14b, 0x4b134457, 0x01c016f0] 5) md5_algorithm (replicate 16 0x5a) = Some (prv', Inr signature)
    \<and> map_option snd (rsa_verify rsa_digestinfo_prefixes (example_signer [0x00010001] 1) md5_algorithm (replicate 16 0x5a) signature) = Some (Inr ())"
proof -
  have l: "length (replicate 16 0x5a :: u8 list) = da_digestsize md5_algorithm" by (simp add: md5_algorithm_def)
  have n: "length (rp_data rsa_md5_prefix @ replicate 16 0x5a) + 11 \<le> rsa_len (example_signer [0x00010001] 1)"
    by (simp add: rsa_md5_prefix_def example_signer_def RSA_DIGESTINFO_PREFIX_def RSA_DIGESTALGORITHM_def RSA_DIGESTALGORITHM_CONTENTS_def
        RSA_DIGEST_PREFIX_def ASN1_OID_MD5_def ASN1_OID_DOUBLE_def ASN1_OID_TRIPLE_def ASN1_OID_SINGLE_def)
  have ok: "rsa_ok (example_signer [0x00010001] 1)" "rsa_ok (example_signer [0xf7d44c01, 0x2cbf2a0f, 0x660bc14b, 0x4b134457, 0x01c016f0] 5)" by (rule example_signer_ok, simp)+
  have f: "rsa_modulus0 (example_signer x m) = rsa_modulus0 (example_signer y k)" "rsa_len (example_signer x m) = rsa_len (example_signer y k)"
      "rsa_exponent0 (example_signer x m) = x" for x y m k
    by (simp_all add: example_signer_def)
  show ?thesis
    using conjunct1 [OF conjunct2 [OF rsa_verify_correct [OF ok(1) md5_prefix l n]], rule_format, OF conjI [OF ok(2) conjI [OF f(1) conjI [OF f(2)]]]]
      example_signer_pair unfolding f(3) by blast
qed


text \<open>
  A modulus of less than eleven bytes makes the length that is left for the
  message wrap around, and messages that do not fit are not refused: the
  padding is then written over the end of the buffer.
\<close>

lemma rsa_encrypt_overrun:
  assumes "rsa_ok context" "rsa_len context < 11" "rsa_len context < length plaintext + 3" "length plaintext < 2 ^ 32" "rsa_size context < 2 ^ 32"
  shows "rsa_encrypt rbg context plaintext = None"
proof -
  define n l where "n = rsa_len context" and "l = length plaintext"
  have nl: "n < 11" "n < l + 3" "l < 2 ^ 32" using assms(2-4) by (simp_all add: n_def l_def)
  have *: "(of_nat n - 11 :: u64) = of_nat (n + 2 ^ 64 - 11)" "(of_nat n - 11 - of_nat l + 8 :: u64) = of_nat (n + 2 ^ 64 - 3 - l)"
    using nl by (simp_all add: of_nat_diff)
  have u: "unat (of_nat n - 11 :: u64) = n + 2 ^ 64 - 11" "unat (of_nat n - 11 - of_nat l + 8 :: u64) = n + 2 ^ 64 - 3 - l"
    "unat (of_nat l :: u64) = l"
    by (subst *(1) *(2), unfold unat_of_nat_u64, use nl in simp)+ (use nl in \<open>simp add: unat_of_nat_u64\<close>)
  have "\<not> (of_nat l :: u64) > of_nat n - 11" unfolding word_less_nat_alt u using nl by simp
  moreover have "length (buffer (rsa_output0 context)) < 2 ^ 34" using assms(1,5) by (simp add: rsa_ok_def)
  then have "2 + unat (of_nat n - 11 - of_nat l + 8 :: u64) > length b"
    if "put_bytes 0 [0x00, 0x02] (buffer (rsa_output0 context)) = Some b" for b
    unfolding u using nl length_put_bytes [OF that] by simp
  ultimately show ?thesis
    unfolding rsa_encrypt_def Let_def n_def [symmetric] l_def [symmetric]
    by (cases "put_bytes 0 [0x00, 0x02] (buffer (rsa_output0 context))") simp_all
qed

end
