(* ===== verification/Spec2Isabelle.thy ===== *)
theory Spec2Isabelle
  imports Bitmap Heap Heap_Clients Checksum Tcpip Retry Bytes Tcp Tcp_State Tcp_Stream Tcp_Send Tcp_Segment Iobuf Hmac Bigint Time Asn1 Rsa
begin

text \<open>
  Verification of the core of iPXE, the network boot firmware that NSBoot
  ships.  All file names are relative to \<^verbatim>\<open>src/src/ipxe/src/\<close>.

  \<^bold>\<open>The program.\<close>  iPXE is a single-threaded program that runs on the bare
  machine.  Everything takes its memory from one heap (\<^verbatim>\<open>core/malloc.c\<close>).  A
  network packet is an I/O buffer (\<^verbatim>\<open>core/iobuf.c\<close>) on that heap; it travels
  through the socket layer (\<^verbatim>\<open>net/tcpip.c\<close>) with its checksum
  (\<^verbatim>\<open>arch/x86/core/x86_tcpip.c\<close>) to TCP (\<^verbatim>\<open>net/tcp.c\<close>), whose queued packets the
  heap may discard when memory runs out, and whose retransmissions are driven
  by retry timers (\<^verbatim>\<open>net/retry.c\<close>).  Pending operations (\<^verbatim>\<open>core/pending.c\<close>) count
  what the user interface has to wait for, and a bitmap (\<^verbatim>\<open>core/bitmap.c\<close>) what
  a multicast download has received.  Authentication rests on message digests
  and HMAC (\<^verbatim>\<open>crypto/\<close>); RSA (\<^verbatim>\<open>crypto/rsa.c\<close>) computes with big integers
  (\<^verbatim>\<open>crypto/bigint.c\<close>) on keys that are ASN.1 objects (\<^verbatim>\<open>crypto/asn1.c\<close>), and the
  validity of certificates is a matter of times (\<^verbatim>\<open>core/time.c\<close>).

  \<^bold>\<open>Conventions.\<close>  The model is that of the x86-64 build.  Machine integers are
  words of their width, so additions wrap as in C; a structure is a record; a
  function that returns a negative error number has a result of type
  \<open>errno + 'a\<close>, one that returns \<^verbatim>\<open>NULL\<close> an option.  A function that changes
  state takes it and returns it.  What the code calls and the development does
  not define is a parameter: the outcomes of allocations in \<open>Bitmap\<close>, \<open>Asn1\<close> and
  \<open>Rsa\<close>, the cache discarders of the heap, random numbers, the tables of
  protocols and algorithms that the linker collects, the clock, and for TCP
  a record \<open>tcp_env\<close> of everything outside the connection.  Assertions, which a normal build compiles out, are not part of
  the functions; where they matter they are proved (\<open>check_blocks\<close>, the
  accessors of I/O buffers, the state of a connection whose timer expires).

  \<^bold>\<open>The theories.\<close>

  \<^descr> \<open>Prelude\<close>: machine types, error numbers and shared facts on words and
    lists.
  \<^descr> \<open>Bitmap\<close> models \<^verbatim>\<open>core/bitmap.c\<close>.  The set bits are a set of numbers:
    setting adds one, resizing keeps them for any contents of new memory, and
    the first gap is always the least missing one.
  \<^descr> \<open>Heap\<close> models \<^verbatim>\<open>core/malloc.c\<close>: free list, \<open>alloc_memblock\<close>,
    \<open>free_memblock\<close>, \<open>realloc\<close>, start-up.  Each allocation is carved out of free
    memory with the alignment asked for, fails exactly when nothing fits, and
    returns if discarding caches makes progress; freeing returns exactly the
    block.  \<open>Heap_Clients\<close> states the contract of a memory pool as a locale and
    interprets it on the heap: live blocks never overlap along any history.
    It also proves that freeing undoes allocating, and that \<open>realloc\<close> keeps
    contents, and exhibits the leak that unusual offsets cause.
  \<^descr> \<open>Checksum\<close> models the portable checksum of \<^verbatim>\<open>net/tcpip.c\<close> and, instruction by
    instruction with the carry flag, the x86 routine, and proves them equal.
  \<^descr> \<open>Tcpip\<close> models the rest of \<^verbatim>\<open>net/tcpip.c\<close>: dispatch, routing and the search
    for a free local port.
  \<^descr> \<open>Retry\<close> models \<^verbatim>\<open>net/retry.c\<close> and \<^verbatim>\<open>core/pending.c\<close>: the list holds exactly
    the running timers, timeouts double, stay in their bounds and end in a
    failure, and the estimate of the round-trip time is smoothed.
  \<^descr> \<open>Bytes\<close>: network byte order (\<^verbatim>\<open>include/byteswap.h\<close>).
  \<^descr> \<open>Tcp\<close> models \<^verbatim>\<open>net/tcp.c\<close>, function by function: opening, transmission with
    options and selective acknowledgements, reception, the receive queue,
    closing, the three timers, the cache discarder.  \<open>Tcp_State\<close> has the step
    relation \<open>tcp_step\<close> of all events that can happen to a connection and an
    invariant of all histories.  \<open>Tcp_Stream\<close>: the application receives a prefix
    of the bytes the peer sent, in spite of loss, duplication and reordering.
    \<open>Tcp_Send\<close>: every segment carries the right bytes of the stream of the
    application, no byte is dropped before it is acknowledged, and a connection
    with something to send never stalls; the locale \<open>tcp_invariant\<close> lifts
    invariants of the basic operations to histories.  \<open>Tcp_Segment\<close>: segments
    that are built are read back with the same contents, and the header that
    does not fit into the room reserved for it.
  \<^descr> \<open>Iobuf\<close> models \<^verbatim>\<open>core/iobuf.c\<close> on the heap: where buffers and descriptors
    lie, what freeing gives back, the accessors as operations on byte strings,
    concatenation and splitting.
  \<^descr> \<open>Digest\<close> has what all digests share, with three locales, each extending
    the one before: \<open>block_digest\<close> (accumulation in blocks), \<open>padded_digest\<close> (the
    padding loop ends and pads) and \<open>hash_algorithm\<close> (a descriptor that
    implements a hash function).  \<open>Digest_Md\<close> models \<^verbatim>\<open>crypto/md4.c\<close> and
    \<^verbatim>\<open>crypto/md5.c\<close>, \<open>Digest_Sha\<close> the SHA-1 and SHA-2 files, and both interpret
    the locale for every algorithm against functions written after RFC 1320,
    RFC 1321 and FIPS 180-4.  The SHA-2 tables are proved to be the fractional
    parts of the roots of primes that the standard prescribes; the sine table
    of MD5 and the initial values of SHA-512/224 and SHA-512/256 are taken from
    the code.
  \<^descr> \<open>Hmac\<close> models \<^verbatim>\<open>crypto/hmac.c\<close> and proves it to be RFC 2104.
  \<^descr> \<open>Bigint\<close> models \<^verbatim>\<open>arch/x86/include/bits/bigint.h\<close>,
    \<^verbatim>\<open>arch/x86/core/x86_bigint.c\<close> and \<^verbatim>\<open>crypto/bigint.c\<close>: the assembly loops as
    arithmetic on the numbers that arrays denote, up to modular exponentiation.
  \<^descr> \<open>Time\<close> models \<^verbatim>\<open>core/time.c\<close> and compares it with the calendar.
  \<^descr> \<open>Asn1\<close> models \<^verbatim>\<open>crypto/asn1.c\<close> on a buffer in which every read is checked:
    cursors never leave their object, what the builder builds is read back,
    and times in certificates are converted as the calendar says, if their
    month is valid.
  \<^descr> \<open>Rsa\<close> models \<^verbatim>\<open>crypto/rsa.c\<close>, \<^verbatim>\<open>crypto/random_nz.c\<close> and the digestInfo
    prefixes of \<^verbatim>\<open>crypto/mishmash\<close>.  Keys are parsed without leaving them.  For a
    key pair as RFC 3447 defines it, with Fermat's theorem proved for the
    purpose, decryption inverts encryption and signatures are accepted; in
    general exactly those are accepted whose power is the padded digest.

  \<^bold>\<open>Termination and fuel.\<close>  The allocation loop, the padding loops, modular
  exponentiation and the search for random bytes that are not zero may run
  forever for some arguments: they are partial functions
  with \<open>None\<close> for not returning, and it is proved when they return.  The carry
  loop of the multiplication has as fuel the length of the memory it can touch,
  one step per element.  The other loops recurse on lists or counters.

  \<^bold>\<open>Not modelled.\<close>  Debug messages, profiling and reference counts.  The
  protocols above and below (IP, ARP, UDP, DHCP, HTTP, iSCSI, TLS): their
  objects call each other through tables that the linker fills, and the model
  of TCP treats them as an environment that may do anything.  Drivers and
  firmware interfaces, whose other half is hardware; images and consoles; the
  user interface; the Lua scripts of the boot server, which run shell commands.
\<close>

end
